(* ===== verification/TF_Prelude.thy ===== *)
theory TF_Prelude
  imports Main "HOL-Library.Word" "HOL-Library.Multiset"
begin

text \<open>
  Vocabulary shared by every component: machine integers as Rust has them (\<open>u32\<close>, \<open>i32\<close>,
  \<open>i64\<close>, \<open>u64\<close> read into \<open>int\<close> or \<open>nat\<close>, with the wrap-around and the saturation of each
  cast written out), strings as lists of Unicode scalar values, the stable sort of
  \<open>slice::sort_by_key\<close>, and the generic lemmas on lists the component proofs share.
\<close>

named_theorems cast_simps "the casts between machine integers, unfolded"

section \<open>Machine integers\<close>

type_synonym u32 = "32 word"
type_synonym u64 = "64 word"

definition i64_min :: int where "i64_min = - 9223372036854775808"
definition i64_max :: int where "i64_max = 9223372036854775807"
definition i32_min :: int where "i32_min = - 2147483648"
definition i32_max :: int where "i32_max = 2147483647"
definition u32_max :: nat where "u32_max = 4294967295"
definition u64_max :: nat where "u64_max = 18446744073709551615"

lemmas int_limits = i64_min_def i64_max_def i32_min_def i32_max_def u32_max_def u64_max_def

text \<open>\<open>i64\<close> and \<open>i32\<close> arithmetic of a release build: two's complement wrap-around.\<close>

definition wrap_i64 :: "int \<Rightarrow> int" where
  "wrap_i64 n = (n + 9223372036854775808) mod 18446744073709551616 - 9223372036854775808"

definition wrap_i32 :: "int \<Rightarrow> int" where
  "wrap_i32 n = (n + 2147483648) mod 4294967296 - 2147483648"

definition is_i64 :: "int \<Rightarrow> bool" where
  "is_i64 n \<longleftrightarrow> i64_min \<le> n \<and> n \<le> i64_max"

definition is_i32 :: "int \<Rightarrow> bool" where
  "is_i32 n \<longleftrightarrow> i32_min \<le> n \<and> n \<le> i32_max"

text \<open>\<open>n as u32\<close> of an \<open>i64\<close>: the low 32 bits.\<close>

definition as_u32 :: "int \<Rightarrow> nat" where
  "as_u32 n = nat (n mod 4294967296)"

text \<open>\<open>saturating_sub\<close> on an unsigned type is subtraction of naturals; \<open>saturating_add\<close> on
  \<open>i32\<close> stops at both ends.\<close>

definition sat_i32 :: "int \<Rightarrow> int" where
  "sat_i32 n = max i32_min (min i32_max n)"

lemma wrap_i64_id [simp]: "is_i64 n \<Longrightarrow> wrap_i64 n = n"
  by (simp add: wrap_i64_def is_i64_def int_limits)

lemma wrap_i32_id [simp]: "is_i32 n \<Longrightarrow> wrap_i32 n = n"
  by (simp add: wrap_i32_def is_i32_def int_limits)

lemma is_i64_wrap [simp]: "is_i64 (wrap_i64 n)"
proof -
  have "0 \<le> (n + 9223372036854775808) mod 18446744073709551616"
    and "(n + 9223372036854775808) mod 18446744073709551616 < 18446744073709551616" by simp_all
  then show ?thesis unfolding is_i64_def wrap_i64_def int_limits by linarith
qed

lemma is_i32_wrap [simp]: "is_i32 (wrap_i32 n)"
proof -
  have "0 \<le> (n + 2147483648) mod 4294967296"
    and "(n + 2147483648) mod 4294967296 < 4294967296" by simp_all
  then show ?thesis unfolding is_i32_def wrap_i32_def int_limits by linarith
qed

lemma as_u32_bound [simp]: "as_u32 n \<le> u32_max"
proof -
  have "n mod 4294967296 < 4294967296" by simp
  then show ?thesis unfolding as_u32_def u32_max_def by linarith
qed

lemma as_u32_id: "0 \<le> n \<Longrightarrow> n \<le> int u32_max \<Longrightarrow> as_u32 n = nat n"
  by (simp add: as_u32_def u32_max_def)

text \<open>A \<open>Uuid\<close> is its 128 bits; it is ordered as its bytes are, most significant first.\<close>

type_synonym uuid = "128 word"

section \<open>Strings\<close>

text \<open>
  A Rust \<open>str\<close> is read as its list of Unicode scalar values. \<open>U ''...''\<close> is the string of
  an ASCII literal; \<open>utf8_len\<close> is what a character adds to a byte position.
\<close>

type_synonym uchar = nat
type_synonym ustring = "uchar list"

definition U :: "string \<Rightarrow> ustring" where
  "U s = map of_char s"

lemma U_simps [simp]:
  "U [] = []"
  "U (c # s) = of_char c # U s"
  by (simp_all add: U_def)

definition utf8_len :: "uchar \<Rightarrow> nat" where
  "utf8_len c = (if c < 128 then 1 else if c < 2048 then 2 else if c < 65536 then 3 else 4)"

definition is_digit :: "uchar \<Rightarrow> bool" where
  "is_digit c \<longleftrightarrow> 48 \<le> c \<and> c \<le> 57"

definition is_alpha :: "uchar \<Rightarrow> bool" where
  "is_alpha c \<longleftrightarrow> (65 \<le> c \<and> c \<le> 90) \<or> (97 \<le> c \<and> c \<le> 122)"

text \<open>\<open>char::is_whitespace\<close>: the Unicode property \<open>White_Space\<close>.\<close>

definition is_space :: "uchar \<Rightarrow> bool" where
  "is_space c \<longleftrightarrow> (9 \<le> c \<and> c \<le> 13) \<or> c = 32 \<or> c = 133 \<or> c = 160 \<or> c = 5760 \<or>
     (8192 \<le> c \<and> c \<le> 8202) \<or> c = 8232 \<or> c = 8233 \<or> c = 8239 \<or> c = 8287 \<or> c = 12288"

definition to_lower :: "ustring \<Rightarrow> ustring" where
  "to_lower s = map (\<lambda>c. if 65 \<le> c \<and> c \<le> 90 then c + 32 else c) s"

text \<open>\<open>str::trim\<close>.\<close>

definition trim :: "ustring \<Rightarrow> ustring" where
  "trim s = rev (dropWhile is_space (rev (dropWhile is_space s)))"

section \<open>Lists\<close>

text \<open>\<open>Iterator::find_map\<close>.\<close>

fun find_map :: "('a \<Rightarrow> 'b option) \<Rightarrow> 'a list \<Rightarrow> 'b option" where
  "find_map f [] = None"
| "find_map f (x # xs) = (case f x of None \<Rightarrow> find_map f xs | Some y \<Rightarrow> Some y)"

lemma find_map_filter:
  "(\<And>x. f x \<noteq> None \<Longrightarrow> P x) \<Longrightarrow> find_map f (filter P xs) = find_map f xs"
  by (induction xs) (auto split: option.splits)

text \<open>\<open>sort_by_key\<close> is a stable sort: \<open>sort_key\<close> of the library, with its lemma
  \<open>sort_key_stable\<close>.\<close>

lemma sum_list_filter_split:
  "sum_list (map f xs) = sum_list (map f (filter P xs)) + sum_list (map f (filter (\<lambda>x. \<not> P x) xs))"
  for f :: "'a \<Rightarrow> 'b::comm_monoid_add"
  by (induction xs) (auto simp: add_ac)

section \<open>Decimal digits\<close>

text \<open>Unsigned \<open>to_string\<close> and its inverse.\<close>

fun nat_digits :: "nat \<Rightarrow> ustring" where
  "nat_digits n = (if n < 10 then [48 + n] else nat_digits (n div 10) @ [48 + n mod 10])"

declare nat_digits.simps [simp del]

definition dec_val :: "ustring \<Rightarrow> nat" where
  "dec_val ds = foldl (\<lambda>a c. 10 * a + (c - 48)) 0 ds"

definition int_digits :: "int \<Rightarrow> ustring" where
  "int_digits n = (if n < 0 then 45 # nat_digits (nat (- n)) else nat_digits (nat n))"

lemma dec_val_snoc [simp]: "dec_val (ds @ [c]) = 10 * dec_val ds + (c - 48)"
  by (simp add: dec_val_def)

lemma dec_val_Nil [simp]: "dec_val [] = 0"
  by (simp add: dec_val_def)

lemma dec_val_digits [simp]: "dec_val (nat_digits n) = n"
proof (induction n rule: nat_digits.induct)
  case (1 n)
  then show ?case
    by (cases "n < 10") (simp_all add: nat_digits.simps [of n] dec_val_def)
qed

lemma nat_digits_digit: "\<forall>c \<in> set (nat_digits n). is_digit c"
proof (induction n rule: nat_digits.induct)
  case (1 n)
  have "n mod 10 < 10" by simp
  with 1 show ?case
    by (cases "n < 10") (auto simp: nat_digits.simps [of n] is_digit_def)
qed

lemma nat_digits_nonempty [simp]: "nat_digits n \<noteq> []"
  by (subst nat_digits.simps) simp

lemma length_nat_digits: "n < 10 ^ k \<Longrightarrow> 0 < k \<Longrightarrow> length (nat_digits n) \<le> k"
proof (induction n arbitrary: k rule: nat_digits.induct)
  case (1 n)
  show ?case
  proof (cases "n < 10")
    case True with "1.prems" show ?thesis by (simp add: nat_digits.simps [of n])
  next
    case False
    with "1.prems" obtain k' where k: "k = Suc k'" "0 < k'"
      by (cases k; cases "k - 1") auto
    with "1.prems" have "n div 10 < 10 ^ k'" by (simp add: less_mult_imp_div_less)
    with "1.IH" False k show ?thesis by (simp add: nat_digits.simps [of n])
  qed
qed

lemma dec_val_append: "dec_val (xs @ ys) = dec_val xs * 10 ^ length ys + dec_val ys"
proof (induction ys rule: rev_induct)
  case (snoc y ys)
  have "dec_val (xs @ ys @ [y]) = dec_val ((xs @ ys) @ [y])" by simp
  then show ?case using snoc by (simp del: append_assoc add: algebra_simps)
qed simp

end
