(* ===== verification/Ieee.thy ===== *)
theory Ieee
  imports Complex_Main TF_Prelude "HOL-Library.Log_Nat"
begin

text \<open>
  Rust's \<open>f64\<close> and \<open>f32\<close>: IEEE 754 binary64 and binary32 with round to nearest, ties to
  even. A finite non-zero number is its exact rational value, so that arithmetic is exact
  arithmetic followed by one rounding; the two zeros, the infinities and NaN are values of
  their own. Everything the program uses of the standard library's floats is here: arithmetic,
  comparison, rounding functions, the saturating casts, decimal parsing and \<open>Display\<close>.
\<close>

datatype ieee =
    NaN
  | Inf bool   \<comment> \<open>\<open>True\<close>: negative\<close>
  | NegZero
  | Fin rat    \<comment> \<open>\<open>Fin 0\<close> is the positive zero\<close>

type_synonym f64 = ieee
type_synonym f32 = ieee

record format =
  prec :: nat  \<comment> \<open>significand bits\<close>
  qmin :: int  \<comment> \<open>exponent of the smallest positive number\<close>
  emax :: int  \<comment> \<open>finite numbers stay below \<open>2 ^ emax\<close>\<close>

definition binary64 :: format where "binary64 = \<lparr>prec = 53, qmin = -1074, emax = 1024\<rparr>"
definition binary32 :: format where "binary32 = \<lparr>prec = 24, qmin = -149, emax = 128\<rparr>"

section \<open>Rounding\<close>

text \<open>\<open>\<lfloor>log\<^sub>2 x\<rfloor>\<close> of a positive rational, computed on integers.\<close>

definition ilog2 :: "rat \<Rightarrow> int" where
  "ilog2 x = (if 1 \<le> x then bitlen \<lfloor>x\<rfloor> - 1 else - bitlen (\<lceil>1 / x\<rceil> - 1))"

definition rne :: "rat \<Rightarrow> int" where
  "rne x = (let f = \<lfloor>x\<rfloor>; d = x - of_int f in
     if d < 1 / 2 then f else if 1 / 2 < d then f + 1 else if even f then f else f + 1)"

definition quantum :: "format \<Rightarrow> rat \<Rightarrow> rat" where
  "quantum F x = 2 powi (max (qmin F) (ilog2 \<bar>x\<bar> - (int (prec F) - 1)))"

definition rnd :: "format \<Rightarrow> rat \<Rightarrow> ieee" where
  "rnd F x =
     (if x = 0 then Fin 0
      else let r = of_int (rne (x / quantum F x)) * quantum F x in
        if 2 powi emax F \<le> \<bar>r\<bar> then Inf (x < 0)
        else if r = 0 then (if x < 0 then NegZero else Fin 0)
        else Fin r)"

definition representable :: "format \<Rightarrow> rat \<Rightarrow> bool" where
  "representable F r \<longleftrightarrow>
     (\<exists>m q. r = of_int m * 2 powi q \<and> \<bar>m\<bar> < 2 ^ prec F \<and> qmin F \<le> q) \<and> \<bar>r\<bar> < 2 powi emax F"

fun wf_ieee :: "format \<Rightarrow> ieee \<Rightarrow> bool" where
  "wf_ieee F (Fin r) = representable F r"
| "wf_ieee F _ = True"

lemma ilog2_bounds:
  assumes "0 < x"
  shows "2 powi ilog2 x \<le> x \<and> x < 2 powi (ilog2 x + 1)"
proof (cases "1 \<le> x")
  case True
  then have f: "0 < \<lfloor>x\<rfloor>" by linarith
  then have b: "1 \<le> bitlen \<lfloor>x\<rfloor>" using bitlen_nonneg [of "\<lfloor>x\<rfloor>"] bitlen_eq_zero_iff [of "\<lfloor>x\<rfloor>"] by linarith
  have "of_int (2 ^ nat (bitlen \<lfloor>x\<rfloor> - 1)) \<le> x"
    using bitlen_bounds [OF f] by (simp only: le_floor_iff [symmetric])
  moreover have "x < of_int (2 ^ nat (bitlen \<lfloor>x\<rfloor>))"
    using bitlen_bounds [OF f] by (simp only: floor_less_iff [symmetric])
  ultimately show ?thesis using True b by (simp add: ilog2_def power_int_nonneg_exp)
next
  case False
  let ?c = "\<lceil>1 / x\<rceil> - 1" and ?k = "bitlen (\<lceil>1 / x\<rceil> - 1)"
  have inv: "1 < 1 / x" using False assms by simp
  then have c: "0 < ?c" by (simp add: less_ceiling_iff)
  then have k: "1 \<le> ?k" using bitlen_nonneg [of ?c] bitlen_eq_zero_iff [of ?c] by linarith
  have "\<lceil>1 / x\<rceil> \<le> 2 ^ nat ?k" using bitlen_bounds [OF c] by linarith
  then have up: "1 / x \<le> of_int (2 ^ nat ?k)" by (simp only: ceiling_le_iff)
  have "2 ^ nat (?k - 1) < \<lceil>1 / x\<rceil>" using bitlen_bounds [OF c] by linarith
  then have lo: "of_int (2 ^ nat (?k - 1)) < 1 / x" by (simp only: less_ceiling_iff)
  have p1: "2 powi (- ?k) = 1 / (2::rat) ^ nat ?k"
    using k by (simp add: power_int_minus power_int_nonneg_exp divide_inverse)
  have "- ?k + 1 = - (?k - 1)" by simp
  then have p2: "2 powi (- ?k + 1) = 1 / (2::rat) ^ nat (?k - 1)"
    using k by (simp only: power_int_minus) (simp add: power_int_nonneg_exp divide_inverse)
  have "1 / 2 ^ nat ?k \<le> x" using up assms by (simp add: field_simps)
  moreover have "x < 1 / 2 ^ nat (?k - 1)" using lo assms by (simp add: field_simps)
  ultimately show ?thesis using False by (simp only: ilog2_def p1 p2 if_False)
qed

lemma rne_of_int [simp]: "rne (of_int n) = n"
  by (simp add: rne_def Let_def)

lemma rne_near: "\<bar>of_int (rne x) - x\<bar> \<le> 1 / 2"
proof -
  have "of_int \<lfloor>x\<rfloor> \<le> x" and "x < of_int \<lfloor>x\<rfloor> + 1" by linarith+
  then show ?thesis by (cases "x - of_int \<lfloor>x\<rfloor> < 1 / 2"; cases "1 / 2 < x - of_int \<lfloor>x\<rfloor>")
    (auto simp: rne_def Let_def abs_le_iff)
qed

lemma rne_mono_bound:
  assumes "\<bar>x\<bar> \<le> of_int n" shows "\<bar>rne x\<bar> \<le> n"
proof -
  have "\<bar>of_int (rne x)\<bar> \<le> (of_int n + 1 / 2 :: rat)"
    using rne_near [of x] assms by linarith
  then have "of_int \<bar>rne x\<bar> < (of_int (n + 1) :: rat)" by simp
  then show ?thesis by (simp only: of_int_less_iff)
qed

lemma powi_pos [simp]: "0 < (2::rat) powi q"
  by (simp add: zero_less_power_int)

lemma quantum_pos [simp]: "0 < quantum F x"
  by (simp add: quantum_def)

lemma quantum_nz [simp]: "quantum F x \<noteq> 0"
  by (metis less_irrefl quantum_pos)

lemma powi_split: "q' \<le> q \<Longrightarrow> (2::rat) powi q = 2 powi q' * of_int (2 ^ nat (q - q'))"
proof -
  assume "q' \<le> q"
  then have "(2::rat) powi (q - q') = of_int (2 ^ nat (q - q'))" by (simp add: power_int_nonneg_exp)
  moreover have "(2::rat) powi q = 2 powi q' * 2 powi (q - q')"
    by (subst power_int_add [symmetric]) auto
  ultimately show ?thesis by simp
qed

text \<open>A representable number rounds to itself.\<close>

lemma rnd_representable:
  assumes "representable F r" shows "rnd F r = Fin r"
proof (cases "r = 0")
  case True then show ?thesis by (simp add: rnd_def)
next
  case False
  obtain m q where r: "r = of_int m * 2 powi q" and m: "\<bar>m\<bar> < 2 ^ prec F" and q: "qmin F \<le> q"
    and lim: "\<bar>r\<bar> < 2 powi emax F"
    using assms by (auto simp: representable_def)
  have "2 powi ilog2 \<bar>r\<bar> \<le> \<bar>r\<bar>" using ilog2_bounds [of "\<bar>r\<bar>"] False by simp
  also have "\<bar>r\<bar> < 2 powi (int (prec F) + q)"
  proof -
    have "of_int \<bar>m\<bar> < (of_int (2 ^ prec F) :: rat)" using m by (simp only: of_int_less_iff)
    then have "of_int \<bar>m\<bar> * 2 powi q < (2 ^ prec F) * (2::rat) powi q" by simp
    moreover have "(2::rat) powi (int (prec F) + q) = 2 ^ prec F * 2 powi q"
      by (simp add: power_int_add)
    ultimately show ?thesis by (simp add: r abs_mult)
  qed
  finally have "(2::rat) powi ilog2 \<bar>r\<bar> < 2 powi (int (prec F) + q)" .
  then have "ilog2 \<bar>r\<bar> < int (prec F) + q"
    by (meson linorder_not_less one_le_numeral power_int_increasing)
  then have le: "max (qmin F) (ilog2 \<bar>r\<bar> - (int (prec F) - 1)) \<le> q" using q by simp
  define q' where "q' = max (qmin F) (ilog2 \<bar>r\<bar> - (int (prec F) - 1))"
  have qr: "quantum F r = 2 powi q'" by (simp add: quantum_def q'_def)
  have "r = of_int (m * 2 ^ nat (q - q')) * 2 powi q'"
    using powi_split [OF le] unfolding q'_def [symmetric] by (simp add: r)
  then have "r / quantum F r = of_int (m * 2 ^ nat (q - q'))"
    unfolding qr by (simp add: nonzero_divide_eq_eq)
  then have "of_int (rne (r / quantum F r)) * quantum F r = r"
    by (metis nonzero_eq_divide_eq quantum_nz rne_of_int)
  then show ?thesis using False lim by (simp add: rnd_def Let_def)
qed

text \<open>Every rounded value is a value of the format.\<close>

lemma abs_div_quantum:
  assumes "x \<noteq> 0" shows "\<bar>x / quantum F x\<bar> \<le> of_int (2 ^ prec F)"
proof -
  let ?q = "max (qmin F) (ilog2 \<bar>x\<bar> - (int (prec F) - 1))"
  have "\<bar>x\<bar> < 2 powi (ilog2 \<bar>x\<bar> + 1)" using ilog2_bounds [of "\<bar>x\<bar>"] assms by simp
  also have "\<dots> \<le> 2 powi (int (prec F) + ?q)" by (rule power_int_increasing) auto
  also have "\<dots> = 2 ^ prec F * 2 powi ?q" by (simp add: power_int_add)
  finally have "\<bar>x\<bar> \<le> 2 ^ prec F * quantum F x" by (simp add: quantum_def)
  then show ?thesis by (simp add: abs_divide pos_divide_le_eq less_imp_le [OF quantum_pos] abs_of_pos)
qed

lemma representable_rnd:
  assumes "rnd F x = Fin r" and "0 < prec F" shows "representable F r"
proof (cases "r = 0")
  case True
  have "\<bar>0::int\<bar> < 2 ^ prec F" by simp
  then show ?thesis unfolding representable_def True
    by (intro conjI exI [of _ 0] exI [of _ "qmin F"]) auto
next
  case False
  define m where "m = rne (x / quantum F x)"
  define q where "q = max (qmin F) (ilog2 \<bar>x\<bar> - (int (prec F) - 1))"
  from assms False have x: "x \<noteq> 0" and r: "r = of_int m * 2 powi q" and lim: "\<bar>r\<bar> < 2 powi emax F"
    by (auto simp: rnd_def Let_def m_def quantum_def q_def split: if_splits)
  have mb: "\<bar>m\<bar> \<le> 2 ^ prec F" unfolding m_def by (rule rne_mono_bound) (rule abs_div_quantum [OF x])
  show ?thesis
  proof (cases "\<bar>m\<bar> = 2 ^ prec F")
    case True
    then obtain k where k: "\<bar>m\<bar> = 2 * 2 ^ k" and kp: "prec F = Suc k"
      using assms(2) by (cases "prec F") auto
    have "m = 2 * (sgn m * 2 ^ k)" using k by (cases "0 < m"; cases "m = 0") (simp_all add: sgn_if)
    then have "of_int m = (2 * of_int (sgn m * 2 ^ k) :: rat)" by (metis of_int_mult of_int_numeral)
    then have "r = of_int (sgn m * 2 ^ k) * 2 powi (q + 1)" by (simp add: r power_int_add)
    moreover have "\<bar>sgn m * 2 ^ k\<bar> < 2 ^ prec F" by (simp add: abs_mult kp sgn_if)
    ultimately show ?thesis unfolding representable_def using lim
      by (intro conjI exI [of _ "sgn m * 2 ^ k"] exI [of _ "q + 1"]) (auto simp: q_def)
  next
    case False
    with mb have "\<bar>m\<bar> < 2 ^ prec F" by simp
    then show ?thesis unfolding representable_def using lim r
      by (intro conjI exI [of _ m] exI [of _ q]) (auto simp: q_def)
  qed
qed

lemma wf_rnd: "0 < prec F \<Longrightarrow> wf_ieee F (rnd F x)"
  by (cases "rnd F x") (auto intro: representable_rnd)

lemma representable_of_int:
  assumes "\<bar>n\<bar> \<le> 2 ^ prec F" and "qmin F \<le> 0" and "int (prec F) < emax F" and "0 < prec F"
  shows "representable F (of_int n)"
proof -
  have "of_int \<bar>n\<bar> \<le> (of_int (2 ^ prec F) :: rat)" using assms(1) by (simp only: of_int_le_iff)
  then have "\<bar>of_int n\<bar> \<le> (2::rat) powi int (prec F)" by simp
  also have "\<dots> < 2 powi emax F" using assms(3) by (rule power_int_strict_increasing) simp
  finally have lim: "\<bar>of_int n\<bar> < (2::rat) powi emax F" .
  show ?thesis
  proof (cases "\<bar>n\<bar> = 2 ^ prec F")
    case True
    then obtain k where k: "\<bar>n\<bar> = 2 * 2 ^ k" and kp: "prec F = Suc k"
      using assms(4) by (cases "prec F") auto
    have n: "n = sgn n * 2 ^ k * 2" using k by (cases "0 < n"; cases "n = 0") (simp_all add: sgn_if)
    show ?thesis unfolding representable_def
    proof (intro conjI exI)
      show "of_int n = of_int (sgn n * 2 ^ k) * (2::rat) powi 1" by (subst n) simp
      show "\<bar>sgn n * 2 ^ k\<bar> < 2 ^ prec F" by (simp add: abs_mult kp sgn_if)
    qed (use assms(2) lim in auto)
  next
    case False
    with assms(1) have "\<bar>n\<bar> < 2 ^ prec F" by simp
    then show ?thesis unfolding representable_def using assms(2) lim
      by (intro conjI exI [of _ n] exI [of _ 0]) auto
  qed
qed

section \<open>Arithmetic\<close>

fun fval :: "ieee \<Rightarrow> rat" where
  "fval (Fin r) = r"
| "fval _ = 0"

fun is_finite :: "ieee \<Rightarrow> bool" where
  "is_finite (Fin r) = True"
| "is_finite NegZero = True"
| "is_finite _ = False"

text \<open>The sign bit.\<close>

fun signbit :: "ieee \<Rightarrow> bool" where
  "signbit (Fin r) = (r < 0)"
| "signbit NegZero = True"
| "signbit (Inf s) = s"
| "signbit NaN = False"

definition signed_zero :: "bool \<Rightarrow> ieee" where
  "signed_zero s = (if s then NegZero else Fin 0)"

fun fneg :: "ieee \<Rightarrow> ieee" where
  "fneg NaN = NaN"
| "fneg (Inf s) = Inf (\<not> s)"
| "fneg NegZero = Fin 0"
| "fneg (Fin r) = (if r = 0 then NegZero else Fin (- r))"

fun fabs :: "ieee \<Rightarrow> ieee" where
  "fabs NaN = NaN"
| "fabs (Inf s) = Inf False"
| "fabs NegZero = Fin 0"
| "fabs (Fin r) = Fin \<bar>r\<bar>"

definition fadd :: "format \<Rightarrow> ieee \<Rightarrow> ieee \<Rightarrow> ieee" where
  "fadd F x y =
     (if x = NaN \<or> y = NaN then NaN
      else case (x, y) of
        (Inf a, Inf b) \<Rightarrow> if a = b then Inf a else NaN
      | (Inf a, _) \<Rightarrow> Inf a
      | (_, Inf b) \<Rightarrow> Inf b
      | (NegZero, NegZero) \<Rightarrow> NegZero
      | _ \<Rightarrow> rnd F (fval x + fval y))"

definition fsub :: "format \<Rightarrow> ieee \<Rightarrow> ieee \<Rightarrow> ieee" where
  "fsub F x y = fadd F x (fneg y)"

definition fmul :: "format \<Rightarrow> ieee \<Rightarrow> ieee \<Rightarrow> ieee" where
  "fmul F x y =
     (let s = (signbit x \<noteq> signbit y) in
      if x = NaN \<or> y = NaN then NaN
      else if is_finite x \<and> is_finite y then
        (if fval x * fval y = 0 then signed_zero s else rnd F (fval x * fval y))
      else if (is_finite x \<and> fval x = 0) \<or> (is_finite y \<and> fval y = 0) then NaN
      else Inf s)"

definition fdiv :: "format \<Rightarrow> ieee \<Rightarrow> ieee \<Rightarrow> ieee" where
  "fdiv F x y =
     (let s = (signbit x \<noteq> signbit y) in
      if x = NaN \<or> y = NaN then NaN
      else if is_finite x \<and> is_finite y then
        (if fval y = 0 then (if fval x = 0 then NaN else Inf s)
         else if fval x = 0 then signed_zero s else rnd F (fval x / fval y))
      else if is_finite y then Inf s
      else if is_finite x then signed_zero s
      else NaN)"

text \<open>Comparisons are false on NaN; the two zeros are equal.\<close>

fun feq :: "ieee \<Rightarrow> ieee \<Rightarrow> bool" where
  "feq NaN y = False"
| "feq x NaN = False"
| "feq (Inf a) y = (y = Inf a)"
| "feq x (Inf b) = False"
| "feq x y = (fval x = fval y)"

fun flt :: "ieee \<Rightarrow> ieee \<Rightarrow> bool" where
  "flt NaN y = False"
| "flt x NaN = False"
| "flt (Inf a) y = (a \<and> y \<noteq> Inf True)"
| "flt x (Inf b) = (\<not> b)"
| "flt x y = (fval x < fval y)"

definition fle :: "ieee \<Rightarrow> ieee \<Rightarrow> bool" where
  "fle x y \<longleftrightarrow> flt x y \<or> feq x y"

text \<open>\<open>f64::max\<close> and \<open>f64::min\<close> ignore a NaN.\<close>

definition fmax :: "ieee \<Rightarrow> ieee \<Rightarrow> ieee" where
  "fmax x y = (if x = NaN then y else if y = NaN then x else if flt x y then y else x)"

definition fmin :: "ieee \<Rightarrow> ieee \<Rightarrow> ieee" where
  "fmin x y = (if x = NaN then y else if y = NaN then x else if flt y x then y else x)"

text \<open>\<open>floor\<close>, \<open>ceil\<close>, \<open>round\<close> (halves away from zero) and \<open>trunc\<close> keep the sign of their
  argument when the result is zero, so \<open>round(-0.4)\<close> is the negative zero.\<close>

definition rat_round :: "rat \<Rightarrow> int" where
  "rat_round r = (if 0 \<le> r then \<lfloor>r + 1 / 2\<rfloor> else \<lceil>r - 1 / 2\<rceil>)"

definition rat_trunc :: "rat \<Rightarrow> int" where
  "rat_trunc r = (if 0 \<le> r then \<lfloor>r\<rfloor> else \<lceil>r\<rceil>)"

fun to_integral :: "(rat \<Rightarrow> int) \<Rightarrow> ieee \<Rightarrow> ieee" where
  "to_integral f (Fin r) = (if f r = 0 then signed_zero (r < 0) else Fin (of_int (f r)))"
| "to_integral f x = x"

definition ffloor :: "ieee \<Rightarrow> ieee" where "ffloor = to_integral floor"
definition fceil :: "ieee \<Rightarrow> ieee" where "fceil = to_integral ceiling"
definition fround :: "ieee \<Rightarrow> ieee" where "fround = to_integral rat_round"
definition ftrunc :: "ieee \<Rightarrow> ieee" where "ftrunc = to_integral rat_trunc"

definition ffract :: "format \<Rightarrow> ieee \<Rightarrow> ieee" where
  "ffract F x = fsub F x (ftrunc x)"

section \<open>Casts\<close>

text \<open>A float \<open>as\<close> an integer type truncates, saturates at both ends, and sends NaN to 0.\<close>

fun to_int_sat :: "int \<Rightarrow> int \<Rightarrow> ieee \<Rightarrow> int" where
  "to_int_sat lo hi NaN = 0"
| "to_int_sat lo hi (Inf s) = (if s then lo else hi)"
| "to_int_sat lo hi NegZero = 0"
| "to_int_sat lo hi (Fin r) = max lo (min hi (rat_trunc r))"

definition f_to_i64 :: "ieee \<Rightarrow> int" where "f_to_i64 x = to_int_sat i64_min i64_max x"
definition f_to_i32 :: "ieee \<Rightarrow> int" where "f_to_i32 x = to_int_sat i32_min i32_max x"
definition f_to_u32 :: "ieee \<Rightarrow> nat" where "f_to_u32 x = nat (to_int_sat 0 4294967295 x)"

text \<open>An integer \<open>as f64\<close> rounds.\<close>

definition f64_of_int :: "int \<Rightarrow> f64" where "f64_of_int n = rnd binary64 (of_int n)"

lemma is_i64_f_to_i64 [simp]: "is_i64 (f_to_i64 x)"
  by (cases x) (auto simp: f_to_i64_def is_i64_def int_limits)

lemma f_to_u32_bound [simp]: "f_to_u32 x \<le> u32_max"
  by (cases x) (auto simp: f_to_u32_def int_limits nat_le_iff)

lemma rnd64_of_int:
  "\<bar>n\<bar> \<le> 9007199254740992 \<Longrightarrow> rnd binary64 (of_int n) = Fin (of_int n)"
  by (rule rnd_representable, rule representable_of_int) (simp_all add: binary64_def)

lemma rnd64_numeral [simp]:
  "rnd binary64 0 = Fin 0"
  "rnd binary64 1 = Fin 1"
  "(numeral k :: int) \<le> 9007199254740992 \<Longrightarrow> rnd binary64 (numeral k) = Fin (numeral k)"
  "rnd binary64 (- 1) = Fin (- 1)"
  "(numeral k :: int) \<le> 9007199254740992 \<Longrightarrow> rnd binary64 (- numeral k) = Fin (- numeral k)"
  using rnd64_of_int [of 0] rnd64_of_int [of 1] rnd64_of_int [of "numeral k"]
    rnd64_of_int [of "- 1"] rnd64_of_int [of "- numeral k"] by simp_all

text \<open>For evaluation: an integer the format holds is itself.\<close>

lemma rnd_code [code]:
  "rnd F x =
     (if x = 0 then Fin 0
      else if F = binary64 \<and> x = of_int \<lfloor>x\<rfloor> \<and> \<bar>\<lfloor>x\<rfloor>\<bar> \<le> 9007199254740992 then Fin x
      else let r = of_int (rne (x / quantum F x)) * quantum F x in
        if 2 powi emax F \<le> \<bar>r\<bar> then Inf (x < 0)
        else if r = 0 then (if x < 0 then NegZero else Fin 0)
        else Fin r)"
proof (cases "F = binary64 \<and> x = of_int \<lfloor>x\<rfloor> \<and> \<bar>\<lfloor>x\<rfloor>\<bar> \<le> 9007199254740992")
  case True
  then have "rnd F x = Fin x" using rnd64_of_int [of "\<lfloor>x\<rfloor>"] by metis
  with True show ?thesis by simp
next
  case False
  then show ?thesis unfolding rnd_def by argo
qed

lemma f64_of_int_exact: "\<bar>n\<bar> \<le> 9007199254740992 \<Longrightarrow> f64_of_int n = Fin (of_int n)"
  by (simp add: f64_of_int_def rnd64_of_int)

section \<open>Decimal text\<close>

text \<open>\<open>str::parse::<f64>\<close> of unsigned decimal text without an exponent, the only text the program
  hands it: some digits, perhaps a point, some digits. It rounds the exact value once.\<close>

definition parse_f64 :: "ustring \<Rightarrow> f64 option" where
  "parse_f64 t =
     (let ip = takeWhile is_digit t; fp = drop 1 (dropWhile is_digit t) in
      if ip = [] \<and> fp = [] then None
      else Some (rnd binary64 (of_nat (dec_val (ip @ fp)) / 10 ^ length fp)))"

text \<open>
  \<open>Display\<close> prints the shortest decimal that parses back to the number, never with an
  exponent. With \<open>k\<close> significant digits the candidates are the two decimals next to the
  number; the closer one that reads back is printed, and \<open>k\<close> is the least for which there is
  one. At most 1500 digits are tried; \<open>shortest_exists\<close> shows that is enough for every number.
\<close>

definition ilog10 :: "rat \<Rightarrow> int" where
  "ilog10 x = (if 1 \<le> x then int (length (nat_digits (nat \<lfloor>x\<rfloor>))) - 1
     else - int (length (nat_digits (nat (\<lceil>1 / x\<rceil> - 1)))))"

definition dec_candidate :: "rat \<Rightarrow> nat \<Rightarrow> (nat \<times> int) option" where
  "dec_candidate x k =
     (let e = int k - 1 - ilog10 x; y = x * 10 powi e; lo = \<lfloor>y\<rfloor>; hi = \<lceil>y\<rceil>;
          ok = (\<lambda>c. rnd binary64 (of_int c / 10 powi e) = Fin x) in
      if ok lo \<and> (\<not> ok hi \<or> y - of_int lo \<le> of_int hi - y) then Some (nat lo, e)
      else if ok hi then Some (nat hi, e) else None)"

fun first_candidate :: "rat \<Rightarrow> nat \<Rightarrow> nat \<Rightarrow> (nat \<times> int) option" where
  "first_candidate x k 0 = None"
| "first_candidate x k (Suc fuel) =
     (case dec_candidate x k of Some c \<Rightarrow> Some c | None \<Rightarrow> first_candidate x (Suc k) fuel)"

definition strip_zeros :: "ustring \<Rightarrow> ustring" where
  "strip_zeros ds = rev (dropWhile (\<lambda>c. c = 48) (rev ds))"

text \<open>\<open>c * 10 ^ - e\<close> written out.\<close>

definition write_dec :: "nat \<Rightarrow> int \<Rightarrow> ustring" where
  "write_dec c e =
     (if e \<le> 0 then nat_digits (c * 10 ^ nat (- e))
      else let ip = nat_digits (c div 10 ^ nat e); fd = nat_digits (c mod 10 ^ nat e);
               fp = strip_zeros (replicate (nat e - length fd) 48 @ fd) in
        if fp = [] then ip else ip @ 46 # fp)"

fun display_f64 :: "f64 \<Rightarrow> ustring" where
  "display_f64 NaN = U ''NaN''"
| "display_f64 (Inf s) = (if s then U ''-inf'' else U ''inf'')"
| "display_f64 NegZero = U ''-0''"
| "display_f64 (Fin r) =
     (if r = 0 then U ''0''
      else (if r < 0 then [45] else []) @
        (case first_candidate \<bar>r\<bar> 1 1500 of Some (c, e) \<Rightarrow> write_dec c e | None \<Rightarrow> []))"

text \<open>The text of a decimal is digits, or digits, a point and digits.\<close>

definition num_text :: "ustring \<Rightarrow> bool" where
  "num_text t \<longleftrightarrow> (\<exists>ip fp. (t = ip \<or> t = ip @ 46 # fp) \<and> ip \<noteq> [] \<and>
     (\<forall>c \<in> set ip. is_digit c) \<and> (\<forall>c \<in> set fp. is_digit c))"

lemma num_text_int: "ip \<noteq> [] \<Longrightarrow> \<forall>c \<in> set ip. is_digit c \<Longrightarrow> num_text ip"
  unfolding num_text_def by (intro exI [of _ ip] exI [of _ "[]"]) simp

lemma num_text_point:
  "ip \<noteq> [] \<Longrightarrow> \<forall>c \<in> set ip. is_digit c \<Longrightarrow> \<forall>c \<in> set fp. is_digit c \<Longrightarrow> num_text (ip @ 46 # fp)"
  unfolding num_text_def by blast

lemma num_text_digits [simp]: "num_text (nat_digits n)"
  by (simp add: num_text_int nat_digits_digit)

lemma not_digit_dot [simp]: "\<not> is_digit 46"
  by (simp add: is_digit_def)

lemma parse_f64_int:
  assumes "ip \<noteq> []" and "\<forall>c \<in> set ip. is_digit c"
  shows "parse_f64 ip = Some (rnd binary64 (of_nat (dec_val ip)))"
proof -
  have tw: "takeWhile is_digit ip = ip" and dw: "dropWhile is_digit ip = []"
    using assms(2) by (auto simp: takeWhile_eq_all_conv dropWhile_eq_Nil_conv)
  show ?thesis unfolding parse_f64_def Let_def tw dw using assms(1) by simp
qed

lemma parse_f64_point:
  assumes "ip \<noteq> []" and "\<forall>c \<in> set ip. is_digit c"
  shows "parse_f64 (ip @ 46 # fp) =
    Some (rnd binary64 (of_nat (dec_val (ip @ fp)) / 10 ^ length fp))"
  using assms by (simp add: parse_f64_def Let_def takeWhile_append2 dropWhile_append2)

lemma parse_f64_digits:
  "parse_f64 (nat_digits n) = Some (rnd binary64 (of_nat n))"
  by (simp add: parse_f64_int nat_digits_digit)

lemma strip_zeros_dec_val:
  "\<exists>k. ds = strip_zeros ds @ replicate k 48"
proof -
  have "rev ds = takeWhile (\<lambda>c. c = 48) (rev ds) @ dropWhile (\<lambda>c. c = 48) (rev ds)" by simp
  then have "ds = rev (dropWhile (\<lambda>c. c = 48) (rev ds)) @ rev (takeWhile (\<lambda>c. c = 48) (rev ds))"
    by (metis rev_append rev_rev_ident)
  moreover have "takeWhile (\<lambda>c. c = 48) (rev ds) =
      replicate (length (takeWhile (\<lambda>c. c = 48) (rev ds))) 48"
    by (metis (mono_tags, lifting) replicate_length_same set_takeWhileD)
  ultimately show ?thesis unfolding strip_zeros_def by (metis rev_replicate)
qed

lemma dec_val_zeros [simp]: "dec_val (replicate k 48) = 0"
  by (induction k) (simp_all add: dec_val_def)

lemma write_dec_parse:
  "parse_f64 (write_dec c e) = Some (rnd binary64 (of_nat c / 10 powi e)) \<and> num_text (write_dec c e)"
proof (cases "e \<le> 0")
  case True
  have "(of_nat c / 10 powi e :: rat) = of_nat (c * 10 ^ nat (- e))"
    using True power_int_minus [of "10::rat" "- e"]
    by (simp add: power_int_nonneg_exp divide_inverse)
  then show ?thesis using True
    by (simp add: write_dec_def parse_f64_digits)
next
  case False
  define ip where "ip = nat_digits (c div 10 ^ nat e)"
  define full where "full = replicate (nat e - length (nat_digits (c mod 10 ^ nat e))) 48
    @ nat_digits (c mod 10 ^ nat e)"
  define fp where "fp = strip_zeros full"
  have ne: "0 < nat e" using False by simp
  have len: "length full = nat e"
    using length_nat_digits [of "c mod 10 ^ nat e" "nat e"] ne by (simp add: full_def)
  have dfull: "\<forall>d \<in> set full. is_digit d"
    using nat_digits_digit [of "c mod 10 ^ nat e"] by (auto simp: full_def is_digit_def)
  have vfull: "dec_val full = c mod 10 ^ nat e" by (simp add: full_def dec_val_append)
  obtain k where k: "full = fp @ replicate k 48"
    using strip_zeros_dec_val [of full] by (auto simp: fp_def)
  have vip: "dec_val (ip @ full) = c"
    by (simp only: dec_val_append len vfull ip_def dec_val_digits div_mult_mod_eq)
  have "dec_val (ip @ fp) * 10 ^ k = c"
    using vip by (simp add: k dec_val_append [of "ip @ fp" "replicate k 48", simplified])
  moreover have "nat e = length fp + k" using len k by simp
  ultimately have val: "(of_nat (dec_val (ip @ fp)) / 10 ^ length fp :: rat) = of_nat c / 10 ^ nat e"
    by (simp add: power_add field_simps) (metis of_nat_mult of_nat_numeral of_nat_power)
  have e: "(10::rat) powi e = 10 ^ nat e" using False by (simp add: power_int_nonneg_exp)
  have dip: "\<forall>d \<in> set ip. is_digit d" "ip \<noteq> []" by (simp_all add: ip_def nat_digits_digit)
  have dfp: "\<forall>d \<in> set fp. is_digit d" using dfull k by auto
  have w: "write_dec c e = (if fp = [] then ip else ip @ 46 # fp)"
    using False by (simp add: write_dec_def Let_def ip_def fp_def full_def)
  show ?thesis
  proof (cases "fp = []")
    case True
    with val dip show ?thesis unfolding w e by (simp add: parse_f64_int num_text_int)
  next
    case False
    with val dip dfp show ?thesis unfolding w e by (simp add: parse_f64_point num_text_point)
  qed
qed

lemma dec_candidate_sound:
  "dec_candidate x k = Some (c, e) \<Longrightarrow> 0 < x \<Longrightarrow> rnd binary64 (of_nat c / 10 powi e) = Fin x"
proof -
  assume a: "dec_candidate x k = Some (c, e)" and x: "0 < x"
  then have e: "e = int k - 1 - ilog10 x" by (auto simp: dec_candidate_def Let_def split: if_splits)
  have y: "0 \<le> x * 10 powi (int k - 1 - ilog10 x)" using x by simp
  then have "0 \<le> \<lfloor>x * 10 powi (int k - 1 - ilog10 x)\<rfloor>" "0 \<le> \<lceil>x * 10 powi (int k - 1 - ilog10 x)\<rceil>"
    by linarith+
  then show ?thesis using a unfolding dec_candidate_def Let_def by (auto split: if_splits)
qed

lemma first_candidate_sound:
  "first_candidate x k fuel = Some (c, e) \<Longrightarrow> 0 < x \<Longrightarrow> rnd binary64 (of_nat c / 10 powi e) = Fin x"
  by (induction x k fuel rule: first_candidate.induct)
    (auto split: option.splits dest: dec_candidate_sound)

lemma first_candidate_complete:
  "dec_candidate x (k + n) \<noteq> None \<Longrightarrow> n < fuel \<Longrightarrow> first_candidate x k fuel \<noteq> None"
proof (induction fuel arbitrary: k n)
  case (Suc fuel)
  show ?case
  proof (cases n)
    case 0 with Suc.prems show ?thesis by (auto split: option.splits)
  next
    case (Suc m)
    with Suc.prems have "first_candidate x (Suc k) fuel \<noteq> None"
      by (intro Suc.IH [of "Suc k" m]) auto
    then show ?thesis by (auto split: option.splits)
  qed
qed simp

text \<open>A binary64 number times \<open>10 ^ e\<close> is an integer once \<open>1074 \<le> e\<close>.\<close>

lemma dyadic_scaled:
  assumes "representable binary64 x" and "1074 \<le> e"
  shows "\<exists>n. x * 10 powi e = of_int n"
proof -
  obtain m q where x: "x = of_int m * 2 powi q" and q: "-1074 \<le> q"
    using assms(1) by (auto simp: representable_def binary64_def)
  have "(10::rat) powi e = 2 powi e * 5 powi e"
    by (simp flip: power_int_mult_distrib)
  then have "x * 10 powi e = of_int m * 2 powi (q + e) * 5 powi e"
    by (simp add: x power_int_add)
  also have "\<dots> = of_int (m * 2 ^ nat (q + e) * 5 ^ nat e)"
    using assms(2) q by (simp add: power_int_nonneg_exp)
  finally show ?thesis by blast
qed

lemma ilog10_upper:
  assumes "representable binary64 x" and "0 < x" shows "ilog10 x \<le> 308"
proof (cases "1 \<le> x")
  case True
  have "x < 2 powi 1024" using assms by (simp add: representable_def binary64_def)
  also have "(2::rat) powi 1024 \<le> of_int (10 ^ 309)" by simp
  finally have "\<lfloor>x\<rfloor> < 10 ^ 309" by (simp only: floor_less_iff)
  then have "nat \<lfloor>x\<rfloor> < 10 ^ 309" using True by (simp add: nat_less_iff)
  then have "length (nat_digits (nat \<lfloor>x\<rfloor>)) \<le> 309" by (rule length_nat_digits) simp
  then show ?thesis using True by (simp add: ilog10_def)
qed (simp add: ilog10_def)

lemma shortest_exists:
  assumes "representable binary64 x" and "0 < x" shows "first_candidate x 1 1500 \<noteq> None"
proof -
  have e: "1074 \<le> int (1 + 1499) - 1 - ilog10 x" using ilog10_upper [OF assms] by simp
  obtain n where n: "x * 10 powi (int (1 + 1499) - 1 - ilog10 x) = of_int n"
    using dyadic_scaled [OF assms(1) e] by blast
  have "of_int n / (10::rat) powi (int (1 + 1499) - 1 - ilog10 x) = x" by (simp flip: n)
  then have "dec_candidate x (1 + 1499) \<noteq> None"
    unfolding dec_candidate_def Let_def n by (simp add: rnd_representable [OF assms(1)])
  then show ?thesis by (rule first_candidate_complete) simp
qed

lemma display_f64_parse:
  assumes "wf_ieee binary64 (Fin r)" and "0 \<le> r"
  shows "parse_f64 (display_f64 (Fin r)) = Some (Fin r) \<and> num_text (display_f64 (Fin r))"
proof (cases "r = 0")
  case True
  have "U ''0'' = nat_digits 0" by (simp add: nat_digits.simps [of 0])
  then show ?thesis using True by (simp add: parse_f64_digits)
next
  case False
  with assms have r: "0 < r" by simp
  obtain c e where ce: "first_candidate r 1 1500 = Some (c, e)"
    using shortest_exists [of r] assms(1) r by auto
  then have d: "display_f64 (Fin r) = write_dec c e" using r by simp
  show ?thesis using write_dec_parse [of c e] first_candidate_sound [OF ce r] unfolding d by simp
qed

end
