(* ===== verification/Dice_Ast.thy ===== *)
theory Dice_Ast
  imports Ieee
begin

text \<open>
  The dice language's data (crates/thunderforge-dice: lib.rs, ast.rs, error.rs): the formula
  tree, the errors, and what a resolution records of each die. The \<open>u32\<close> of a die size or a
  keep count is a natural number up to \<open>u32_max\<close>, an \<open>i64\<close> face or threshold an integer.
\<close>

section \<open>The formula tree\<close>

datatype binop = Add | Sub | Mul | Div

datatype mathfn = Floor | Ceil | Round | Abs

datatype condition =
    CEq int | CGt int | CGte int | CLt int | CLte int
  | MaxFace  \<comment> \<open>the default of a bare \<open>x\<close>: the die's own highest face\<close>

datatype modifier =
    KeepHighest nat
  | KeepLowest nat
  | DropHighest nat
  | DropLowest nat
  | Reroll condition
  | RerollRecursive condition
  | Explode condition
  | ExplodeOnce condition
  | MinMod int
  | MaxMod int
  | CountSuccesses condition
  | CountFailures condition
  | SubtractFailureValue condition
  | EvenMod
  | OddMod
  | MarginOfSuccess int

datatype expr =
    Number f64
  | Placeholder ustring
  | Dice dice_term
  | Pool "expr list" "modifier list"
  | Neg expr
  | BinOp expr binop expr
  | MathFn mathfn expr
and dice_term = DiceTerm (t_count: expr) (t_sides: sides) (t_mods: "modifier list")
and sides = SNumeric expr | SFate | SCoin

section \<open>Errors\<close>

datatype formula_error =
    ParseError ustring nat  \<comment> \<open>message and byte position\<close>
  | DivisionByZero
  | NonFiniteResult
  | MissingPlaceholder ustring
  | DiceCountExceeded
  | IterationCapExceeded
  | ReplayMismatch ustring

text \<open>\<open>impl Display for FormulaError\<close>.\<close>

fun show_error :: "formula_error \<Rightarrow> ustring" where
  "show_error (ParseError message position) =
     U ''formula parse error at position '' @ nat_digits position @ U '': '' @ message"
| "show_error DivisionByZero = U ''division by zero''"
| "show_error NonFiniteResult = U ''result is not a finite number''"
| "show_error (MissingPlaceholder name) =
     U ''missing value for placeholder '' @ [34] @ name @ [34]"
| "show_error DiceCountExceeded = U ''formula would roll more dice than the allowed bound''"
| "show_error IterationCapExceeded =
     U ''a die'' @ [39] @ U ''s reroll/explosion chain exceeded the allowed bound''"
| "show_error (ReplayMismatch why) = U ''the recorded dice do not fit the formula: '' @ why"

section \<open>Resolutions\<close>

datatype die_sides = Numeric nat | Fate | Coin

datatype chain_step = StepReroll | StepExplode

record die_outcome =
  d_sides :: die_sides
  d_rolls :: "int list"         \<comment> \<open>index 0 is the original roll\<close>
  d_steps :: "chain_step list"  \<comment> \<open>\<open>d_steps ! i\<close> explains \<open>d_rolls ! Suc i\<close>\<close>
  d_kept :: bool
  d_final :: int

datatype resolution_kind = Total f64 | SuccessCount int

record roll_resolution =
  r_formula :: ustring
  r_dice :: "die_outcome list"
  r_kind :: resolution_kind

text \<open>\<open>DiceFormula\<close>: the source and its tree.\<close>

record dice_formula =
  f_source :: ustring
  f_ast :: expr

end
