(* ===== verification/Dice_Parser.thy ===== *)
theory Dice_Parser
  imports Dice_Ast
begin

text \<open>
  The hand-written tokenizer and recursive-descent parser (crates/thunderforge-dice/src/parser.rs).
  The parser's \<open>tokens\<close> and \<open>pos\<close> are read as the suffix \<open>tokens[pos..]\<close>: the code never steps
  back, and the one token it rewrites is the current one. The mutually recursive functions take
  fuel; \<open>parse_fuel\<close> is what \<open>parse\<close> gives them and \<open>parse_fuel_enough\<close> shows they never run out
  of it, so \<open>OutOfFuel\<close> is no outcome of \<open>parse\<close>.
\<close>

section \<open>Tokens\<close>

datatype token =
    TNumber f64 | TIdent ustring
  | TPlus | TMinus | TStar | TSlash
  | TLParen | TRParen | TLBrace | TRBrace
  | TComma | TEq | TGt | TLt | TEof

type_synonym toks = "(token \<times> nat) list"

definition is_ident_char :: "uchar \<Rightarrow> bool" where
  "is_ident_char c \<longleftrightarrow> is_alpha c \<or> c = 95"

text \<open>The characters of a number after its first: digits, and one point if none was seen.\<close>

fun scan_number :: "bool \<Rightarrow> ustring \<Rightarrow> ustring \<times> ustring" where
  "scan_number seen_dot [] = ([], [])"
| "scan_number seen_dot (c # cs) =
     (if is_digit c then (let (t, r) = scan_number seen_dot cs in (c # t, r))
      else if c = 46 \<and> \<not> seen_dot then (let (t, r) = scan_number True cs in (c # t, r))
      else ([], c # cs))"

lemma scan_number_append: "fst (scan_number d cs) @ snd (scan_number d cs) = cs"
  by (induction d cs rule: scan_number.induct) (auto split: prod.splits)

lemma scan_number_length: "scan_number d cs = (t, r) \<Longrightarrow> length r \<le> length cs"
  by (metis fst_conv le_add2 length_append scan_number_append snd_conv)

definition symbol_token :: "uchar \<Rightarrow> token option" where
  "symbol_token c =
     (if c = 43 then Some TPlus else if c = 45 then Some TMinus
      else if c = 42 then Some TStar else if c = 47 then Some TSlash
      else if c = 40 then Some TLParen else if c = 41 then Some TRParen
      else if c = 123 then Some TLBrace else if c = 125 then Some TRBrace
      else if c = 44 then Some TComma else if c = 61 then Some TEq
      else if c = 62 then Some TGt else if c = 60 then Some TLt
      else None)"

function tokenize_from :: "nat \<Rightarrow> ustring \<Rightarrow> formula_error + toks" where
  "tokenize_from pos [] = Inr [(TEof, pos)]"
| "tokenize_from pos (c # cs) =
     (if is_space c then tokenize_from (pos + utf8_len c) cs
      else if is_digit c \<or> c = 46 then
        (case scan_number (c = 46) cs of (t, rest) \<Rightarrow>
          (case parse_f64 (c # t) of
             None \<Rightarrow> Inl (ParseError (U ''invalid number '' @ [34] @ (c # t) @ [34]) pos)
           | Some v \<Rightarrow> (case tokenize_from (pos + length (c # t)) rest of
               Inl e \<Rightarrow> Inl e | Inr ts \<Rightarrow> Inr ((TNumber v, pos) # ts))))
      else if is_ident_char c then
        (case tokenize_from (pos + length (c # takeWhile is_ident_char cs)) (dropWhile is_ident_char cs) of
           Inl e \<Rightarrow> Inl e
         | Inr ts \<Rightarrow> Inr ((TIdent (c # takeWhile is_ident_char cs), pos) # ts))
      else (case symbol_token c of
          None \<Rightarrow> Inl (ParseError (U ''unexpected character '' @ [39, c, 39]) pos)
        | Some t \<Rightarrow> (case tokenize_from (pos + utf8_len c) cs of
            Inl e \<Rightarrow> Inl e | Inr ts \<Rightarrow> Inr ((t, pos) # ts))))"
  by pat_completeness auto
termination
  by (relation "measure (\<lambda>(pos, cs). length cs)")
    (auto simp: less_Suc_eq_le length_dropWhile_le dest: scan_number_length [OF sym])

definition tokenize :: "ustring \<Rightarrow> formula_error + toks" where
  "tokenize src = tokenize_from 0 src"

section \<open>The parser's state\<close>

definition peek :: "toks \<Rightarrow> token" where
  "peek ts = (case ts of [] \<Rightarrow> TEof | (t, _) # _ \<Rightarrow> t)"

definition peek_pos :: "toks \<Rightarrow> nat" where
  "peek_pos ts = (case ts of [] \<Rightarrow> 0 | (_, p) # _ \<Rightarrow> p)"

text \<open>The last token is never passed.\<close>

definition advance :: "toks \<Rightarrow> toks" where
  "advance ts = (case ts of _ # t # r \<Rightarrow> t # r | _ \<Rightarrow> ts)"

datatype parse_failure = OutOfFuel | Failed formula_error

type_synonym 'a parsed = "parse_failure + 'a \<times> toks"

definition perr :: "toks \<Rightarrow> ustring \<Rightarrow> 'a parsed" where
  "perr ts message = Inl (Failed (ParseError message (peek_pos ts)))"

text \<open>\<open>{expected:?}\<close> of the four brackets \<open>expect\<close> is called with.\<close>

fun token_debug :: "token \<Rightarrow> ustring" where
  "token_debug TLParen = U ''LParen''"
| "token_debug TRParen = U ''RParen''"
| "token_debug TLBrace = U ''LBrace''"
| "token_debug TRBrace = U ''RBrace''"
| "token_debug _ = []"

definition expect :: "token \<Rightarrow> toks \<Rightarrow> unit parsed" where
  "expect t ts = (if peek ts = t then Inr ((), advance ts)
     else perr ts (U ''expected '' @ token_debug t))"

definition modifier_keywords :: "ustring list" where
  "modifier_keywords = map U [''kh'', ''kl'', ''dh'', ''dl'', ''rr'', ''r'', ''xo'', ''x'',
     ''min'', ''max'', ''cs'', ''cf'', ''sf'', ''eo'', ''od'', ''ms'']"

definition modifier_keyword :: "ustring \<Rightarrow> ustring option" where
  "modifier_keyword ident = List.find (\<lambda>kw. to_lower ident = kw) modifier_keywords"

section \<open>Modifiers\<close>

definition parse_optional_count :: "nat \<Rightarrow> toks \<Rightarrow> nat parsed" where
  "parse_optional_count dflt ts =
     (case peek ts of
        TNumber n \<Rightarrow>
          if flt n (Fin 0) \<or> \<not> feq (ffract binary64 n) (Fin 0)
          then perr (advance ts) (U ''expected a non-negative whole number'')
          else Inr (f_to_u32 n, advance ts)
      | _ \<Rightarrow> Inr (dflt, ts))"

definition parse_required_int :: "toks \<Rightarrow> int parsed" where
  "parse_required_int ts =
     (case peek ts of
        TNumber n \<Rightarrow> Inr (f_to_i64 n, advance ts)
      | _ \<Rightarrow> perr ts (U ''expected a number''))"

definition map_parsed :: "('a \<Rightarrow> 'b) \<Rightarrow> 'a parsed \<Rightarrow> 'b parsed" where
  "map_parsed f r = (case r of Inl e \<Rightarrow> Inl e | Inr (a, ts) \<Rightarrow> Inr (f a, ts))"

definition parse_condition_or_default :: "toks \<Rightarrow> condition parsed" where
  "parse_condition_or_default ts =
     (case peek ts of
        TEq \<Rightarrow> map_parsed CEq (parse_required_int (advance ts))
      | TGt \<Rightarrow>
          (let ts1 = advance ts in
           if peek ts1 = TEq then map_parsed CGte (parse_required_int (advance ts1))
           else map_parsed CGt (parse_required_int ts1))
      | TLt \<Rightarrow>
          (let ts1 = advance ts in
           if peek ts1 = TEq then map_parsed CLte (parse_required_int (advance ts1))
           else map_parsed CLt (parse_required_int ts1))
      | TNumber n \<Rightarrow> Inr (CEq (f_to_i64 n), advance ts)
      | _ \<Rightarrow> Inr (MaxFace, ts))"

text \<open>One modifier, after its keyword.\<close>

definition parse_modifier :: "ustring \<Rightarrow> toks \<Rightarrow> modifier parsed" where
  "parse_modifier kw ts =
     (if kw = U ''kh'' then map_parsed KeepHighest (parse_optional_count 1 ts)
      else if kw = U ''kl'' then map_parsed KeepLowest (parse_optional_count 1 ts)
      else if kw = U ''dh'' then map_parsed DropHighest (parse_optional_count 1 ts)
      else if kw = U ''dl'' then map_parsed DropLowest (parse_optional_count 1 ts)
      else if kw = U ''r'' then map_parsed Reroll (parse_condition_or_default ts)
      else if kw = U ''rr'' then map_parsed RerollRecursive (parse_condition_or_default ts)
      else if kw = U ''x'' then map_parsed Explode (parse_condition_or_default ts)
      else if kw = U ''xo'' then map_parsed ExplodeOnce (parse_condition_or_default ts)
      else if kw = U ''min'' then map_parsed MinMod (parse_required_int ts)
      else if kw = U ''max'' then map_parsed MaxMod (parse_required_int ts)
      else if kw = U ''cs'' then map_parsed CountSuccesses (parse_condition_or_default ts)
      else if kw = U ''cf'' then map_parsed CountFailures (parse_condition_or_default ts)
      else if kw = U ''sf'' then map_parsed SubtractFailureValue (parse_condition_or_default ts)
      else if kw = U ''eo'' then Inr (EvenMod, ts)
      else if kw = U ''od'' then Inr (OddMod, ts)
      else map_parsed MarginOfSuccess (parse_required_int ts))"

text \<open>What is left to read: every token counts one, an identifier its letters.\<close>

fun token_weight :: "token \<Rightarrow> nat" where
  "token_weight (TIdent s) = Suc (length s)"
| "token_weight TEof = 0"
| "token_weight _ = 1"

definition weight :: "toks \<Rightarrow> nat" where
  "weight ts = (\<Sum>(t, p) \<leftarrow> ts. token_weight t)"

lemma weight_simps [simp]:
  "weight [] = 0"
  "weight ((t, p) # ts) = token_weight t + weight ts"
  by (simp_all add: weight_def)

lemma weight_advance: "weight (advance ts) \<le> weight ts"
  by (auto simp: advance_def split: list.splits)

section \<open>The grammar\<close>

definition peek_starts_with_d :: "toks \<Rightarrow> bool" where
  "peek_starts_with_d ts =
     (case peek ts of TIdent name \<Rightarrow> name \<noteq> [] \<and> (hd name = 100 \<or> hd name = 68) | _ \<Rightarrow> False)"

text \<open>A one-letter \<open>d\<close> is passed; a longer word keeps its tail as the current token.\<close>

definition consume_leading_d :: "toks \<Rightarrow> toks" where
  "consume_leading_d ts =
     (case ts of
        (TIdent name, p) # r \<Rightarrow>
          if length name = 1 then advance ts else (TIdent (tl name), p) # r
      | _ \<Rightarrow> ts)"

definition expected_die_size :: ustring where
  "expected_die_size = U ''expected die size after '' @ [39] @ U ''d'' @ [39] @
     U '' (a number, '' @ [39] @ U ''F'' @ [39] @ U '', '' @ [39] @ U ''c'' @ [39] @
     U '', or a parenthesized expression)''"

definition expected_atom :: ustring where
  "expected_atom = U ''expected a number, placeholder, dice term, or '' @ [39] @ U ''('' @ [39]"

fun parse_modifiers :: "nat \<Rightarrow> toks \<Rightarrow> modifier list parsed" where
  "parse_modifiers 0 ts = Inl OutOfFuel"
| "parse_modifiers (Suc n) ts =
     (case peek ts of
        TIdent name \<Rightarrow>
          (case modifier_keyword name of
             None \<Rightarrow> Inr ([], ts)
           | Some kw \<Rightarrow>
               (case parse_modifier kw (advance ts) of
                  Inl e \<Rightarrow> Inl e
                | Inr (m, ts1) \<Rightarrow> map_parsed (\<lambda>ms. m # ms) (parse_modifiers n ts1)))
      | _ \<Rightarrow> Inr ([], ts))"

function (sequential) parse_expr :: "nat \<Rightarrow> toks \<Rightarrow> expr parsed"
and parse_expr_loop :: "nat \<Rightarrow> expr \<Rightarrow> toks \<Rightarrow> expr parsed"
and parse_term :: "nat \<Rightarrow> toks \<Rightarrow> expr parsed"
and parse_term_loop :: "nat \<Rightarrow> expr \<Rightarrow> toks \<Rightarrow> expr parsed"
and parse_unary :: "nat \<Rightarrow> toks \<Rightarrow> expr parsed"
and parse_dice_or_primary :: "nat \<Rightarrow> toks \<Rightarrow> expr parsed"
and parse_dice_term :: "nat \<Rightarrow> expr \<Rightarrow> toks \<Rightarrow> expr parsed"
and parse_sides :: "nat \<Rightarrow> toks \<Rightarrow> sides parsed"
and parse_atom :: "nat \<Rightarrow> toks \<Rightarrow> expr parsed"
and parse_parens :: "nat \<Rightarrow> toks \<Rightarrow> expr parsed"
and parse_math_fn :: "nat \<Rightarrow> mathfn \<Rightarrow> toks \<Rightarrow> expr parsed"
and parse_pool :: "nat \<Rightarrow> toks \<Rightarrow> expr parsed"
and parse_pool_items :: "nat \<Rightarrow> toks \<Rightarrow> expr list parsed"
where
  "parse_expr 0 ts = Inl OutOfFuel"
| "parse_expr (Suc n) ts =
     (case parse_term n ts of
        Inl e \<Rightarrow> Inl e
      | Inr (left, ts1) \<Rightarrow> parse_expr_loop n left ts1)"
| "parse_expr_loop 0 left ts = Inl OutOfFuel"
| "parse_expr_loop (Suc n) left ts =
     (case peek ts of
        TPlus \<Rightarrow>
          (case parse_term n (advance ts) of
             Inl e \<Rightarrow> Inl e
           | Inr (right, ts1) \<Rightarrow> parse_expr_loop n (BinOp left Add right) ts1)
      | TMinus \<Rightarrow>
          (case parse_term n (advance ts) of
             Inl e \<Rightarrow> Inl e
           | Inr (right, ts1) \<Rightarrow> parse_expr_loop n (BinOp left Sub right) ts1)
      | _ \<Rightarrow> Inr (left, ts))"
| "parse_term 0 ts = Inl OutOfFuel"
| "parse_term (Suc n) ts =
     (case parse_unary n ts of
        Inl e \<Rightarrow> Inl e
      | Inr (left, ts1) \<Rightarrow> parse_term_loop n left ts1)"
| "parse_term_loop 0 left ts = Inl OutOfFuel"
| "parse_term_loop (Suc n) left ts =
     (case peek ts of
        TStar \<Rightarrow>
          (case parse_unary n (advance ts) of
             Inl e \<Rightarrow> Inl e
           | Inr (right, ts1) \<Rightarrow> parse_term_loop n (BinOp left Mul right) ts1)
      | TSlash \<Rightarrow>
          (case parse_unary n (advance ts) of
             Inl e \<Rightarrow> Inl e
           | Inr (right, ts1) \<Rightarrow> parse_term_loop n (BinOp left Div right) ts1)
      | _ \<Rightarrow> Inr (left, ts))"
| "parse_unary 0 ts = Inl OutOfFuel"
| "parse_unary (Suc n) ts =
     (if peek ts = TMinus then map_parsed Neg (parse_unary n (advance ts))
      else parse_dice_or_primary n ts)"
| "parse_dice_or_primary 0 ts = Inl OutOfFuel"
| "parse_dice_or_primary (Suc n) ts =
     (if peek_starts_with_d ts
      then parse_dice_term n (Number (Fin 1)) (consume_leading_d ts)
      else case peek ts of
        TNumber v \<Rightarrow>
          (let ts1 = advance ts in
           if peek_starts_with_d ts1
           then parse_dice_term n (Number v) (consume_leading_d ts1)
           else Inr (Number v, ts1))
      | TLParen \<Rightarrow>
          (case parse_parens n ts of
             Inl e \<Rightarrow> Inl e
           | Inr (inner, ts1) \<Rightarrow>
               if peek_starts_with_d ts1
               then parse_dice_term n inner (consume_leading_d ts1)
               else Inr (inner, ts1))
      | _ \<Rightarrow> parse_atom n ts)"
| "parse_dice_term 0 cnt ts = Inl OutOfFuel"
| "parse_dice_term (Suc n) cnt ts =
     (case parse_sides n ts of
        Inl e \<Rightarrow> Inl e
      | Inr (sd, ts1) \<Rightarrow>
          map_parsed (\<lambda>mods. Dice (DiceTerm cnt sd mods)) (parse_modifiers n ts1))"
| "parse_sides 0 ts = Inl OutOfFuel"
| "parse_sides (Suc n) ts =
     (case peek ts of
        TIdent name \<Rightarrow>
          if to_lower name = U ''f'' then Inr (SFate, advance ts)
          else if to_lower name = U ''c'' then Inr (SCoin, advance ts)
          else perr ts expected_die_size
      | TNumber v \<Rightarrow> Inr (SNumeric (Number v), advance ts)
      | TLParen \<Rightarrow> map_parsed SNumeric (parse_parens n ts)
      | _ \<Rightarrow> perr ts expected_die_size)"
| "parse_atom 0 ts = Inl OutOfFuel"
| "parse_atom (Suc n) ts =
     (case peek ts of
        TNumber v \<Rightarrow> Inr (Number v, advance ts)
      | TLParen \<Rightarrow> parse_parens n ts
      | TLBrace \<Rightarrow> parse_pool n ts
      | TIdent name \<Rightarrow>
          (if to_lower name = U ''floor'' then parse_math_fn n Floor (advance ts)
           else if to_lower name = U ''ceil'' then parse_math_fn n Ceil (advance ts)
           else if to_lower name = U ''round'' then parse_math_fn n Round (advance ts)
           else if to_lower name = U ''abs'' then parse_math_fn n Abs (advance ts)
           else Inr (Placeholder name, advance ts))
      | _ \<Rightarrow> perr ts expected_atom)"
| "parse_parens 0 ts = Inl OutOfFuel"
| "parse_parens (Suc n) ts =
     (case parse_expr n (advance ts) of
        Inl e \<Rightarrow> Inl e
      | Inr (inner, ts1) \<Rightarrow>
          (case expect TRParen ts1 of Inl e \<Rightarrow> Inl e | Inr (_, ts2) \<Rightarrow> Inr (inner, ts2)))"
| "parse_math_fn 0 kind ts = Inl OutOfFuel"
| "parse_math_fn (Suc n) kind ts =
     (case expect TLParen ts of
        Inl e \<Rightarrow> Inl e
      | Inr (_, ts1) \<Rightarrow>
          (case parse_expr n ts1 of
             Inl e \<Rightarrow> Inl e
           | Inr (inner, ts2) \<Rightarrow>
               (case expect TRParen ts2 of
                  Inl e \<Rightarrow> Inl e
                | Inr (_, ts3) \<Rightarrow> Inr (MathFn kind inner, ts3))))"
| "parse_pool 0 ts = Inl OutOfFuel"
| "parse_pool (Suc n) ts =
     (case expect TLBrace ts of
        Inl e \<Rightarrow> Inl e
      | Inr (_, ts1) \<Rightarrow>
          (case parse_expr n ts1 of
             Inl e \<Rightarrow> Inl e
           | Inr (item, ts2) \<Rightarrow>
               (case parse_pool_items n ts2 of
                  Inl e \<Rightarrow> Inl e
                | Inr (items, ts3) \<Rightarrow>
                    (case expect TRBrace ts3 of
                       Inl e \<Rightarrow> Inl e
                     | Inr (_, ts4) \<Rightarrow> map_parsed (Pool (item # items)) (parse_modifiers n ts4)))))"
| "parse_pool_items 0 ts = Inl OutOfFuel"
| "parse_pool_items (Suc n) ts =
     (if peek ts = TComma then
        (case parse_expr n (advance ts) of
           Inl e \<Rightarrow> Inl e
         | Inr (item, ts1) \<Rightarrow> map_parsed (\<lambda>items. item # items) (parse_pool_items n ts1))
      else Inr ([], ts))"
  by pat_completeness auto
termination parse_expr
  by (relation "measure (case_sum
      (case_sum (case_sum fst (case_sum fst fst)) (case_sum fst (case_sum fst fst)))
      (case_sum (case_sum fst (case_sum fst fst))
        (case_sum (case_sum fst fst) (case_sum fst fst))))") simp_all

definition parse_fuel :: "toks \<Rightarrow> nat" where
  "parse_fuel ts = 8 * weight ts + 8"

definition parse :: "ustring \<Rightarrow> formula_error + expr" where
  "parse src =
     (case tokenize src of
        Inl e \<Rightarrow> Inl e
      | Inr ts \<Rightarrow>
          (case parse_expr (parse_fuel ts) ts of
             Inl (Failed e) \<Rightarrow> Inl e
           | Inl OutOfFuel \<Rightarrow> Inl (ParseError [] 0)
           | Inr (e, ts1) \<Rightarrow>
               (if peek ts1 = TEof then Inr e
                else Inl (ParseError (U ''unexpected trailing input'') (peek_pos ts1)))))"

text \<open>\<open>DiceFormula::parse\<close>.\<close>

definition parse_formula :: "ustring \<Rightarrow> formula_error + dice_formula" where
  "parse_formula src =
     (case parse src of Inl e \<Rightarrow> Inl e | Inr e \<Rightarrow> Inr \<lparr>f_source = src, f_ast = e\<rparr>)"


text \<open>For evaluation: the equations at a numeral, and what a parse unfolds to.\<close>

lemmas parse_numeral =
  parse_modifiers.simps(2) [of "pred_numeral k" for k, folded numeral_eq_Suc]
  parse_expr.simps(2) [of "pred_numeral k" for k, folded numeral_eq_Suc]
  parse_expr_loop.simps(2) [of "pred_numeral k" for k, folded numeral_eq_Suc]
  parse_term.simps(2) [of "pred_numeral k" for k, folded numeral_eq_Suc]
  parse_term_loop.simps(2) [of "pred_numeral k" for k, folded numeral_eq_Suc]
  parse_unary.simps(2) [of "pred_numeral k" for k, folded numeral_eq_Suc]
  parse_dice_or_primary.simps(2) [of "pred_numeral k" for k, folded numeral_eq_Suc]
  parse_dice_term.simps(2) [of "pred_numeral k" for k, folded numeral_eq_Suc]
  parse_sides.simps(2) [of "pred_numeral k" for k, folded numeral_eq_Suc]
  parse_atom.simps(2) [of "pred_numeral k" for k, folded numeral_eq_Suc]
  parse_parens.simps(2) [of "pred_numeral k" for k, folded numeral_eq_Suc]
  parse_math_fn.simps(2) [of "pred_numeral k" for k, folded numeral_eq_Suc]
  parse_pool.simps(2) [of "pred_numeral k" for k, folded numeral_eq_Suc]
  parse_pool_items.simps(2) [of "pred_numeral k" for k, folded numeral_eq_Suc]

lemmas tokenize_eval = tokenize_def is_space_def is_digit_def parse_f64_def dec_val_def
  is_ident_char_def is_alpha_def utf8_len_def symbol_token_def

lemmas parse_eval = parse_def parse_formula_def tokenize_eval peek_def peek_pos_def advance_def
  perr_def expect_def modifier_keyword_def modifier_keywords_def parse_optional_count_def
  parse_required_int_def map_parsed_def parse_condition_or_default_def parse_modifier_def
  peek_starts_with_d_def consume_leading_d_def parse_fuel_def weight_def to_lower_def
  parse_numeral f_to_u32_def f_to_i64_def rat_trunc_def ffract_def fsub_def fadd_def ftrunc_def
  int_limits signed_zero_def expected_atom_def expected_die_size_def

end
