(* ===== verification/Dice_Grammar.thy ===== *)
theory Dice_Grammar
  imports Dice_Parser
begin

text \<open>
  What holds of the parser whatever the formula: it never runs out of the fuel \<open>parse\<close> gives it,
  more fuel never changes an answer, and what it returns is a tree it can have built
  (\<open>wf_expr\<close>, the domain of the printer's round trip).
\<close>

declare parse_expr.simps [simp del] parse_expr_loop.simps [simp del] parse_term.simps [simp del]
  parse_term_loop.simps [simp del] parse_unary.simps [simp del]
  parse_dice_or_primary.simps [simp del] parse_dice_term.simps [simp del] parse_sides.simps [simp del]
  parse_atom.simps [simp del] parse_parens.simps [simp del] parse_math_fn.simps [simp del]
  parse_pool.simps [simp del] parse_pool_items.simps [simp del] parse_modifiers.simps [simp del]

section \<open>Progress: what a step consumes\<close>

definition ok_toks :: "toks \<Rightarrow> bool" where
  "ok_toks ts \<longleftrightarrow> ts \<noteq> [] \<and> fst (last ts) = TEof"

definition consumes :: "nat \<Rightarrow> toks \<Rightarrow> 'a parsed \<Rightarrow> bool" where
  "consumes k ts r \<longleftrightarrow>
     (case r of Inl f \<Rightarrow> f \<noteq> OutOfFuel | Inr (a, ts1) \<Rightarrow> ok_toks ts1 \<and> weight ts1 + k \<le> weight ts)"

lemma consumes_Inr [simp]:
  "consumes k ts (Inr (a, ts1)) \<longleftrightarrow> ok_toks ts1 \<and> weight ts1 + k \<le> weight ts"
  by (simp add: consumes_def)

lemma consumes_Failed [simp]: "consumes k ts (Inl (Failed e))"
  by (simp add: consumes_def)

lemma consumes_perr [simp]: "consumes k ts (perr ts1 m)"
  by (simp add: perr_def)

lemma consumes_weaken:
  "consumes k ts1 r \<Longrightarrow> weight ts1 + j \<le> weight ts \<Longrightarrow> k' \<le> k + j \<Longrightarrow> consumes k' ts r"
  by (auto simp: consumes_def split: sum.splits)

lemma consumes_bind:
  assumes "consumes j ts r"
    and "\<And>a ts1. r = Inr (a, ts1) \<Longrightarrow> ok_toks ts1 \<Longrightarrow> weight ts1 + j \<le> weight ts \<Longrightarrow> consumes k ts (f a ts1)"
  shows "consumes k ts (case r of Inl e \<Rightarrow> Inl e | Inr (a, ts1) \<Rightarrow> f a ts1)"
  using assms by (auto simp: consumes_def split: sum.splits)

lemma consumes_map: "consumes k ts r \<Longrightarrow> consumes k ts (map_parsed f r)"
  by (auto simp: consumes_def map_parsed_def split: sum.splits)

lemma peek_Cons [simp]: "peek ((t, p) # ts) = t"
  by (simp add: peek_def)

lemma advance_Cons [simp]: "advance (x # y # ts) = y # ts"
  by (simp add: advance_def)

lemma peek_cases:
  assumes "ok_toks ts" and "peek ts \<noteq> TEof"
  obtains t p u q r where "ts = (t, p) # (u, q) # r" "ok_toks ((u, q) # r)" "0 < token_weight t"
proof -
  obtain t p r where ts: "ts = (t, p) # r" using assms(1) by (cases ts) (auto simp: ok_toks_def)
  with assms have "r \<noteq> []" "0 < token_weight t" "ok_toks r"
    by (cases t; auto simp: ok_toks_def split: if_splits)+
  with ts show ?thesis by (cases r) (auto intro: that)
qed

lemma advance_consumes:
  assumes "ok_toks ts" and "peek ts \<noteq> TEof"
  shows "ok_toks (advance ts) \<and> weight (advance ts) + 1 \<le> weight ts"
  using assms by (rule peek_cases) simp

lemma consume_leading_d_consumes:
  assumes "ok_toks ts" and "peek_starts_with_d ts"
  shows "ok_toks (consume_leading_d ts) \<and> weight (consume_leading_d ts) + 1 \<le> weight ts"
proof -
  have "peek ts \<noteq> TEof" using assms(2) by (auto simp: peek_starts_with_d_def)
  with assms(1) obtain t p u q r where ts: "ts = (t, p) # (u, q) # r" "ok_toks ((u, q) # r)"
    by (rule peek_cases)
  with assms(2) obtain name where t: "t = TIdent name" "name \<noteq> []"
    by (auto simp: peek_starts_with_d_def split: token.splits)
  show ?thesis using ts(2) t(2) by (simp add: ts(1) t(1) consume_leading_d_def ok_toks_def)
qed

lemma expect_consumes: "ok_toks ts \<Longrightarrow> t \<noteq> TEof \<Longrightarrow> consumes 1 ts (expect t ts)"
  using advance_consumes [of ts] by (auto simp: expect_def)

lemma required_int_consumes: "ok_toks ts \<Longrightarrow> consumes 0 ts (parse_required_int ts)"
  using advance_consumes [of ts] by (auto simp: parse_required_int_def split: token.splits)

lemma optional_count_consumes: "ok_toks ts \<Longrightarrow> consumes 0 ts (parse_optional_count d ts)"
  using advance_consumes [of ts] by (auto simp: parse_optional_count_def split: token.splits)

lemma condition_consumes:
  assumes "ok_toks ts" shows "consumes 0 ts (parse_condition_or_default ts)"
proof (cases "peek ts = TEof")
  case True with assms show ?thesis by (simp add: parse_condition_or_default_def)
next
  case False
  let ?t1 = "advance ts"
  have a1: "ok_toks ?t1" "weight ?t1 + 1 \<le> weight ts" using advance_consumes [OF assms False] by auto
  have r1: "consumes 0 ts (parse_required_int ?t1)"
    by (rule consumes_weaken [OF required_int_consumes [OF a1(1)] a1(2)]) simp
  have r2: "consumes 0 ts (parse_required_int (advance ?t1))" if "peek ?t1 = TEq"
  proof -
    have a2: "ok_toks (advance ?t1)" "weight (advance ?t1) + 1 \<le> weight ?t1"
      using advance_consumes [OF a1(1)] that by auto
    with a1(2) have w2: "weight (advance ?t1) + 2 \<le> weight ts" by simp
    show ?thesis by (rule consumes_weaken [OF required_int_consumes [OF a2(1)] w2]) simp
  qed
  show ?thesis using assms a1 r1 r2
    by (auto simp: parse_condition_or_default_def Let_def consumes_map split: token.splits)
qed

lemma modifier_consumes: "ok_toks ts \<Longrightarrow> consumes 0 ts (parse_modifier kw ts)"
  by (simp add: parse_modifier_def consumes_map condition_consumes required_int_consumes
      optional_count_consumes)

lemma modifiers_consumes:
  "ok_toks ts \<Longrightarrow> weight ts < n \<Longrightarrow> consumes 0 ts (parse_modifiers n ts)"
proof (induction n arbitrary: ts)
  case (Suc n)
  have step: "consumes 0 ts (case parse_modifier kw (advance ts) of Inl e \<Rightarrow> Inl e
      | Inr (m, ts1) \<Rightarrow> map_parsed (\<lambda>ms. m # ms) (parse_modifiers n ts1))"
    if "peek ts = TIdent name" for name kw
  proof -
    have a: "ok_toks (advance ts)" "weight (advance ts) + 1 \<le> weight ts"
      using advance_consumes [OF Suc.prems(1)] that by auto
    have m: "consumes 1 ts (parse_modifier kw (advance ts))"
      by (rule consumes_weaken [OF modifier_consumes [OF a(1)] a(2)]) simp
    show ?thesis
    proof (rule consumes_bind [OF m])
      fix x ts1 assume t1: "ok_toks ts1" "weight ts1 + 1 \<le> weight ts"
      with Suc have "consumes 0 ts1 (parse_modifiers n ts1)" by simp
      then have "consumes 0 ts (parse_modifiers n ts1)"
        by (rule consumes_weaken [OF _ t1(2)]) simp
      then show "consumes 0 ts (map_parsed (\<lambda>ms. x # ms) (parse_modifiers n ts1))"
        by (rule consumes_map)
    qed
  qed
  from Suc.prems(1) step show ?case
    by (simp add: parse_modifiers.simps split: token.splits option.splits)
qed simp

section \<open>The fuel of \<open>parse\<close> is enough\<close>

text \<open>
  A token's weight pays for eight calls: a call on the same tokens goes down the grammar's ranks
  (expression, term, unary, primary, atom, bracket), a call on fewer starts again at the top.
\<close>

lemma consumes_bind2:
  assumes "consumes j ts0 r"
    and "\<And>a ts1. ok_toks ts1 \<Longrightarrow> weight ts1 + j \<le> weight ts0 \<Longrightarrow> consumes k ts (f a ts1)"
  shows "consumes k ts (case r of Inl e \<Rightarrow> Inl e | Inr (a, ts1) \<Rightarrow> f a ts1)"
proof (cases r)
  case (Inr p)
  then show ?thesis
    using assms(1) assms(2) [of "snd p" "fst p"]
    by (cases p) (auto simp: consumes_def)
qed (use assms(1) in \<open>simp add: consumes_def\<close>)

lemma consumes_use:
  "consumes j ts0 r \<Longrightarrow> weight ts0 + k \<le> weight ts + j \<Longrightarrow> consumes k ts r"
  by (auto simp: consumes_def split: sum.splits)

definition fuel_ok :: "nat \<Rightarrow> bool" where
  "fuel_ok n \<longleftrightarrow> (\<forall>ts. ok_toks ts \<longrightarrow>
     (8 * weight ts + 7 \<le> n \<longrightarrow> consumes (Suc 0) ts (parse_expr n ts)) \<and>
     (\<forall>l. 8 * weight ts + 7 \<le> n \<longrightarrow> consumes 0 ts (parse_expr_loop n l ts)) \<and>
     (8 * weight ts + 6 \<le> n \<longrightarrow> consumes (Suc 0) ts (parse_term n ts)) \<and>
     (\<forall>l. 8 * weight ts + 7 \<le> n \<longrightarrow> consumes 0 ts (parse_term_loop n l ts)) \<and>
     (8 * weight ts + 5 \<le> n \<longrightarrow> consumes (Suc 0) ts (parse_unary n ts)) \<and>
     (8 * weight ts + 4 \<le> n \<longrightarrow> consumes (Suc 0) ts (parse_dice_or_primary n ts)) \<and>
     (\<forall>c. 8 * weight ts + 7 \<le> n \<longrightarrow> consumes (Suc 0) ts (parse_dice_term n c ts)) \<and>
     (8 * weight ts + 3 \<le> n \<longrightarrow> consumes (Suc 0) ts (parse_sides n ts)) \<and>
     (8 * weight ts + 3 \<le> n \<longrightarrow> consumes (Suc 0) ts (parse_atom n ts)) \<and>
     (8 * weight ts + 2 \<le> n \<longrightarrow> peek ts \<noteq> TEof \<longrightarrow> consumes (Suc 0) ts (parse_parens n ts)) \<and>
     (\<forall>k. 8 * weight ts + 7 \<le> n \<longrightarrow> consumes (Suc 0) ts (parse_math_fn n k ts)) \<and>
     (8 * weight ts + 2 \<le> n \<longrightarrow> consumes (Suc 0) ts (parse_pool n ts)) \<and>
     (8 * weight ts + 7 \<le> n \<longrightarrow> consumes 0 ts (parse_pool_items n ts)))"

lemma fuel_ok_step:
  assumes IH: "fuel_ok n" shows "fuel_ok (Suc n)"
proof -
  have ex: "\<And>ts. ok_toks ts \<Longrightarrow> 8 * weight ts + 7 \<le> n \<Longrightarrow> consumes (Suc 0) ts (parse_expr n ts)"
    and exl: "\<And>ts l. ok_toks ts \<Longrightarrow> 8 * weight ts + 7 \<le> n \<Longrightarrow> consumes 0 ts (parse_expr_loop n l ts)"
    and te: "\<And>ts. ok_toks ts \<Longrightarrow> 8 * weight ts + 6 \<le> n \<Longrightarrow> consumes (Suc 0) ts (parse_term n ts)"
    and tel: "\<And>ts l. ok_toks ts \<Longrightarrow> 8 * weight ts + 7 \<le> n \<Longrightarrow> consumes 0 ts (parse_term_loop n l ts)"
    and un: "\<And>ts. ok_toks ts \<Longrightarrow> 8 * weight ts + 5 \<le> n \<Longrightarrow> consumes (Suc 0) ts (parse_unary n ts)"
    and pr: "\<And>ts. ok_toks ts \<Longrightarrow> 8 * weight ts + 4 \<le> n \<Longrightarrow> consumes (Suc 0) ts (parse_dice_or_primary n ts)"
    and dt: "\<And>ts c. ok_toks ts \<Longrightarrow> 8 * weight ts + 7 \<le> n \<Longrightarrow> consumes (Suc 0) ts (parse_dice_term n c ts)"
    and si: "\<And>ts. ok_toks ts \<Longrightarrow> 8 * weight ts + 3 \<le> n \<Longrightarrow> consumes (Suc 0) ts (parse_sides n ts)"
    and at: "\<And>ts. ok_toks ts \<Longrightarrow> 8 * weight ts + 3 \<le> n \<Longrightarrow> consumes (Suc 0) ts (parse_atom n ts)"
    and pa: "\<And>ts. ok_toks ts \<Longrightarrow> 8 * weight ts + 2 \<le> n \<Longrightarrow> peek ts \<noteq> TEof \<Longrightarrow> consumes (Suc 0) ts (parse_parens n ts)"
    and ma: "\<And>ts k. ok_toks ts \<Longrightarrow> 8 * weight ts + 7 \<le> n \<Longrightarrow> consumes (Suc 0) ts (parse_math_fn n k ts)"
    and po: "\<And>ts. ok_toks ts \<Longrightarrow> 8 * weight ts + 2 \<le> n \<Longrightarrow> consumes (Suc 0) ts (parse_pool n ts)"
    and poi: "\<And>ts. ok_toks ts \<Longrightarrow> 8 * weight ts + 7 \<le> n \<Longrightarrow> consumes 0 ts (parse_pool_items n ts)"
    using IH by (simp_all add: fuel_ok_def)
  have adv: "ok_toks (advance ts) \<and> weight (advance ts) < weight ts"
    if "ok_toks ts" "peek ts \<noteq> TEof" for ts using advance_consumes [OF that] by simp
  have cld: "ok_toks (consume_leading_d ts) \<and> weight (consume_leading_d ts) < weight ts"
    if "ok_toks ts" "peek_starts_with_d ts" for ts using consume_leading_d_consumes [OF that] by simp
  have mods: "consumes 0 ts (parse_modifiers n ts)" if "ok_toks ts" "weight ts < n" for ts
    using that by (rule modifiers_consumes)
  have "consumes (Suc 0) ts (parse_expr (Suc n) ts)" if "ok_toks ts" "8 * weight ts + 6 \<le> n" for ts
    unfolding parse_expr.simps using that
    by (intro consumes_bind2 [OF te] consumes_use [OF exl]) auto
  moreover have "consumes 0 ts (parse_expr_loop (Suc n) l ts)"
    if "ok_toks ts" "8 * weight ts + 6 \<le> n" for ts l
    unfolding parse_expr_loop.simps using that adv [of ts]
    by (auto split: token.split intro!: consumes_bind2 [OF te] consumes_use [OF exl])
  moreover have "consumes (Suc 0) ts (parse_term (Suc n) ts)" if "ok_toks ts" "8 * weight ts + 5 \<le> n" for ts
    unfolding parse_term.simps using that
    by (intro consumes_bind2 [OF un] consumes_use [OF tel]) auto
  moreover have "consumes 0 ts (parse_term_loop (Suc n) l ts)"
    if "ok_toks ts" "8 * weight ts + 6 \<le> n" for ts l
    unfolding parse_term_loop.simps using that adv [of ts]
    by (auto split: token.split intro!: consumes_bind2 [OF un] consumes_use [OF tel])
  moreover have "consumes (Suc 0) ts (parse_unary (Suc n) ts)" if "ok_toks ts" "8 * weight ts + 4 \<le> n" for ts
    unfolding parse_unary.simps using that adv [of ts]
    by (auto intro!: consumes_map consumes_use [OF un] consumes_use [OF pr])
  moreover have "consumes (Suc 0) ts (parse_dice_or_primary (Suc n) ts)"
    if "ok_toks ts" "8 * weight ts + 3 \<le> n" for ts
  proof -
    have a: "consumes (Suc 0) ts (let ts1 = advance ts in if peek_starts_with_d ts1
        then parse_dice_term n (Number v) (consume_leading_d ts1) else Inr (Number v, ts1))"
      if "peek ts \<noteq> TEof" for v
      using \<open>ok_toks ts\<close> \<open>8 * weight ts + 3 \<le> n\<close> adv [OF \<open>ok_toks ts\<close> that] cld [of "advance ts"]
      by (auto simp: Let_def intro!: consumes_use [OF dt])
    have b: "consumes (Suc 0) ts (case parse_parens n ts of Inl e \<Rightarrow> Inl e | Inr (inner, ts1) \<Rightarrow>
        if peek_starts_with_d ts1 then parse_dice_term n inner (consume_leading_d ts1)
        else Inr (inner, ts1))" if "peek ts \<noteq> TEof"
    proof (rule consumes_bind2 [OF pa])
      fix x ts1 assume t1: "ok_toks ts1" "weight ts1 + Suc 0 \<le> weight ts"
      then show "consumes (Suc 0) ts (if peek_starts_with_d ts1
          then parse_dice_term n x (consume_leading_d ts1) else Inr (x, ts1))"
        using \<open>8 * weight ts + 3 \<le> n\<close> cld [of ts1] by (auto intro!: consumes_use [OF dt])
    qed (use \<open>ok_toks ts\<close> \<open>8 * weight ts + 3 \<le> n\<close> that in auto)
    have c: "consumes (Suc 0) ts (parse_atom n ts)" using that by (intro at)
    have d: "consumes (Suc 0) ts (parse_dice_term n (Number (Fin 1)) (consume_leading_d ts))"
      if "peek_starts_with_d ts"
      using cld [OF \<open>ok_toks ts\<close> that] \<open>8 * weight ts + 3 \<le> n\<close>
      by (auto intro!: consumes_use [OF dt])
    show ?thesis unfolding parse_dice_or_primary.simps
      using a b c d by (simp split: token.split)
  qed
  moreover have "consumes (Suc 0) ts (parse_dice_term (Suc n) c ts)"
    if "ok_toks ts" "8 * weight ts + 6 \<le> n" for ts c
    unfolding parse_dice_term.simps using that
    by (intro consumes_bind2 [OF si] consumes_map consumes_use [OF mods]) auto
  moreover have "consumes (Suc 0) ts (parse_sides (Suc n) ts)" if "ok_toks ts" "8 * weight ts + 2 \<le> n" for ts
    unfolding parse_sides.simps using that adv [of ts]
    by (auto split: token.split intro!: consumes_map pa)
  moreover have "consumes (Suc 0) ts (parse_atom (Suc n) ts)" if "ok_toks ts" "8 * weight ts + 2 \<le> n" for ts
    unfolding parse_atom.simps using that adv [of ts]
    by (auto split: token.split intro!: pa po consumes_use [OF ma])
  moreover have "consumes (Suc 0) ts (parse_parens (Suc n) ts)"
    if "ok_toks ts" "8 * weight ts + 1 \<le> n" "peek ts \<noteq> TEof" for ts
    unfolding parse_parens.simps using that adv [of ts]
    by (intro consumes_bind2 [OF ex] consumes_bind2 [OF expect_consumes]) auto
  moreover have "consumes (Suc 0) ts (parse_math_fn (Suc n) k ts)" if "ok_toks ts" "8 * weight ts + 6 \<le> n" for ts k
    unfolding parse_math_fn.simps using that
    by (intro consumes_bind2 [OF ex] consumes_bind2 [OF expect_consumes]) auto
  moreover have "consumes (Suc 0) ts (parse_pool (Suc n) ts)" if "ok_toks ts" "8 * weight ts + 1 \<le> n" for ts
    unfolding parse_pool.simps using that
    by (intro consumes_bind2 [OF ex] consumes_bind2 [OF expect_consumes] consumes_bind2 [OF poi]
        consumes_map consumes_use [OF mods]) auto
  moreover have "consumes 0 ts (parse_pool_items (Suc n) ts)" if "ok_toks ts" "8 * weight ts + 6 \<le> n" for ts
    unfolding parse_pool_items.simps using that adv [of ts]
    by (auto intro!: consumes_bind2 [OF ex] consumes_map consumes_use [OF poi])
  ultimately show ?thesis unfolding fuel_ok_def by simp
qed

lemma fuel_ok: "fuel_ok n"
  by (induction n) (simp_all add: fuel_ok_def fuel_ok_step [unfolded fuel_ok_def])

lemma tokenize_from_ok: "tokenize_from pos s = Inr ts \<Longrightarrow> ok_toks ts"
proof (induction pos s arbitrary: ts rule: tokenize_from.induct)
  case (2 pos c cs)
  have cons: "ok_toks us \<Longrightarrow> ok_toks ((t, p) # us)" for us :: toks and t p
    by (simp add: ok_toks_def)
  from "2.prems" "2.IH" show ?case
    by (auto split: if_splits prod.splits option.splits sum.splits intro!: cons)
qed (simp add: ok_toks_def)

lemma tokenize_ok: "tokenize s = Inr ts \<Longrightarrow> ok_toks ts"
  unfolding tokenize_def by (rule tokenize_from_ok)

lemma parse_expr_consumes:
  "ok_toks ts \<Longrightarrow> consumes (Suc 0) ts (parse_expr (parse_fuel ts) ts)"
  using fuel_ok [of "parse_fuel ts"] by (simp add: fuel_ok_def parse_fuel_def)

lemma parse_expr_fueled: "tokenize s = Inr ts \<Longrightarrow> parse_expr (parse_fuel ts) ts \<noteq> Inl OutOfFuel"
  using parse_expr_consumes [OF tokenize_ok, of s ts] by (auto simp: consumes_def)

section \<open>More fuel never changes an answer\<close>

definition refines :: "'a parsed \<Rightarrow> 'a parsed \<Rightarrow> bool" where
  "refines r r' \<longleftrightarrow> r = Inl OutOfFuel \<or> r' = r"

lemma refines_refl [simp]: "refines r r"
  by (simp add: refines_def)

lemma refines_out [simp]: "refines (Inl OutOfFuel) r"
  by (simp add: refines_def)

lemma refines_bind:
  "refines r r' \<Longrightarrow> (\<And>a ts. refines (f a ts) (f' a ts)) \<Longrightarrow>
   refines (case r of Inl e \<Rightarrow> Inl e | Inr (a, ts) \<Rightarrow> f a ts)
           (case r' of Inl e \<Rightarrow> Inl e | Inr (a, ts) \<Rightarrow> f' a ts)"
  by (auto simp: refines_def split: sum.splits)

lemma refines_map: "refines r r' \<Longrightarrow> refines (map_parsed f r) (map_parsed f r')"
  by (auto simp: refines_def map_parsed_def)

lemma modifiers_refines: "n \<le> m \<Longrightarrow> refines (parse_modifiers n ts) (parse_modifiers m ts)"
proof (induction n arbitrary: m ts)
  case (Suc n)
  then obtain k where m: "m = Suc k" "n \<le> k" by (cases m) auto
  show ?case
    unfolding m(1) parse_modifiers.simps(2)
    by (auto split: token.split option.split intro!: refines_bind refines_map Suc.IH m(2))
qed (simp add: parse_modifiers.simps(1))

definition fuel_mono :: "nat \<Rightarrow> nat \<Rightarrow> bool" where
  "fuel_mono n m \<longleftrightarrow>
     (\<forall>ts. refines (parse_expr n ts) (parse_expr m ts)) \<and>
     (\<forall>l ts. refines (parse_expr_loop n l ts) (parse_expr_loop m l ts)) \<and>
     (\<forall>ts. refines (parse_term n ts) (parse_term m ts)) \<and>
     (\<forall>l ts. refines (parse_term_loop n l ts) (parse_term_loop m l ts)) \<and>
     (\<forall>ts. refines (parse_unary n ts) (parse_unary m ts)) \<and>
     (\<forall>ts. refines (parse_dice_or_primary n ts) (parse_dice_or_primary m ts)) \<and>
     (\<forall>c ts. refines (parse_dice_term n c ts) (parse_dice_term m c ts)) \<and>
     (\<forall>ts. refines (parse_sides n ts) (parse_sides m ts)) \<and>
     (\<forall>ts. refines (parse_atom n ts) (parse_atom m ts)) \<and>
     (\<forall>ts. refines (parse_parens n ts) (parse_parens m ts)) \<and>
     (\<forall>k ts. refines (parse_math_fn n k ts) (parse_math_fn m k ts)) \<and>
     (\<forall>ts. refines (parse_pool n ts) (parse_pool m ts)) \<and>
     (\<forall>ts. refines (parse_pool_items n ts) (parse_pool_items m ts))"

lemmas parse_zero = parse_expr.simps(1) parse_expr_loop.simps(1) parse_term.simps(1)
  parse_term_loop.simps(1) parse_unary.simps(1) parse_dice_or_primary.simps(1)
  parse_dice_term.simps(1) parse_sides.simps(1) parse_atom.simps(1) parse_parens.simps(1)
  parse_math_fn.simps(1) parse_pool.simps(1) parse_pool_items.simps(1)

lemma fuel_mono_step:
  assumes "fuel_mono n m" and "n \<le> m" shows "fuel_mono (Suc n) (Suc m)"
proof -
  note IH = assms(1) [unfolded fuel_mono_def]
  note rules = refines_bind refines_map modifiers_refines [OF assms(2)]
  have "refines (parse_expr (Suc n) ts) (parse_expr (Suc m) ts)" for ts
    unfolding parse_expr.simps(2) using IH by (intro rules) auto
  moreover have "refines (parse_expr_loop (Suc n) l ts) (parse_expr_loop (Suc m) l ts)" for l ts
    unfolding parse_expr_loop.simps(2) using IH by (auto split: token.split intro!: rules)
  moreover have "refines (parse_term (Suc n) ts) (parse_term (Suc m) ts)" for ts
    unfolding parse_term.simps(2) using IH by (intro rules) auto
  moreover have "refines (parse_term_loop (Suc n) l ts) (parse_term_loop (Suc m) l ts)" for l ts
    unfolding parse_term_loop.simps(2) using IH by (auto split: token.split intro!: rules)
  moreover have "refines (parse_unary (Suc n) ts) (parse_unary (Suc m) ts)" for ts
    unfolding parse_unary.simps(2) using IH by (auto intro!: rules)
  moreover have "refines (parse_dice_or_primary (Suc n) ts) (parse_dice_or_primary (Suc m) ts)" for ts
    unfolding parse_dice_or_primary.simps(2) Let_def using IH
    by (auto split: token.split intro!: rules)
  moreover have "refines (parse_dice_term (Suc n) c ts) (parse_dice_term (Suc m) c ts)" for c ts
    unfolding parse_dice_term.simps(2) using IH by (intro rules) auto
  moreover have "refines (parse_sides (Suc n) ts) (parse_sides (Suc m) ts)" for ts
    unfolding parse_sides.simps(2) using IH by (auto split: token.split intro!: rules)
  moreover have "refines (parse_atom (Suc n) ts) (parse_atom (Suc m) ts)" for ts
    unfolding parse_atom.simps(2) using IH by (auto split: token.split)
  moreover have "refines (parse_parens (Suc n) ts) (parse_parens (Suc m) ts)" for ts
    unfolding parse_parens.simps(2) using IH by (intro rules) auto
  moreover have "refines (parse_math_fn (Suc n) k ts) (parse_math_fn (Suc m) k ts)" for k ts
    unfolding parse_math_fn.simps(2) using IH by (intro rules) auto
  moreover have "refines (parse_pool (Suc n) ts) (parse_pool (Suc m) ts)" for ts
    unfolding parse_pool.simps(2) using IH by (intro rules) auto
  moreover have "refines (parse_pool_items (Suc n) ts) (parse_pool_items (Suc m) ts)" for ts
    unfolding parse_pool_items.simps(2) using IH by (auto intro!: rules)
  ultimately show ?thesis unfolding fuel_mono_def by blast
qed

lemma fuel_mono: "n \<le> m \<Longrightarrow> fuel_mono n m"
proof (induction n arbitrary: m)
  case (Suc n)
  then obtain k where m: "m = Suc k" "n \<le> k" by (cases m) auto
  show ?case unfolding m(1) by (rule fuel_mono_step [OF Suc.IH [OF m(2)] m(2)])
qed (simp add: fuel_mono_def parse_zero)

lemma parse_expr_more_fuel:
  assumes "parse_expr n ts \<noteq> Inl OutOfFuel" and "n \<le> m"
  shows "parse_expr m ts = parse_expr n ts"
proof -
  have "refines (parse_expr n ts) (parse_expr m ts)"
    using fuel_mono [OF assms(2)] by (simp add: fuel_mono_def)
  with assms(1) show ?thesis by (simp add: refines_def)
qed

text \<open>The answer at any two fuels that answer is the same.\<close>

lemma parse_expr_det:
  "parse_expr n ts \<noteq> Inl OutOfFuel \<Longrightarrow> parse_expr m ts \<noteq> Inl OutOfFuel \<Longrightarrow>
   parse_expr n ts = parse_expr m ts"
  by (metis nat_le_linear parse_expr_more_fuel)

section \<open>The parser always answers\<close>

text \<open>C4: for every source text the tokenizer accepts, the recursive descent answers within the
  fuel \<open>parse\<close> gives it, and any larger fuel gives the same answer: the real parser, which has
  no fuel, terminates with exactly what \<open>parse\<close> returns.\<close>

theorem parse_terminates:
  "case tokenize s of
     Inl e \<Rightarrow> parse s = Inl e
   | Inr ts \<Rightarrow>
       (\<exists>r. \<forall>k. parse_expr (parse_fuel ts + k) ts = r \<and> r \<noteq> Inl OutOfFuel \<and>
         parse s = (case r of
             Inl OutOfFuel \<Rightarrow> undefined
           | Inl (Failed e) \<Rightarrow> Inl e
           | Inr (e, ts1) \<Rightarrow> if peek ts1 = TEof then Inr e
               else Inl (ParseError (U ''unexpected trailing input'') (peek_pos ts1))))"
proof (cases "tokenize s")
  case (Inr ts)
  note ok = parse_expr_fueled [OF Inr]
  have "parse_expr (parse_fuel ts + k) ts = parse_expr (parse_fuel ts) ts" for k
    by (rule parse_expr_more_fuel [OF ok]) simp
  with Inr ok show ?thesis
    by (auto simp: parse_def split: sum.splits parse_failure.splits)
qed (simp add: parse_def)

section \<open>Positions only reach the error messages\<close>

definition erase :: "toks \<Rightarrow> toks" where
  "erase ts = map (\<lambda>(t, p). (t, 0)) ts"

definition same :: "'a parsed \<Rightarrow> 'a parsed \<Rightarrow> bool" where
  "same r r' \<longleftrightarrow>
     (case r of
        Inl f \<Rightarrow> (\<exists>f'. r' = Inl f' \<and> (f = OutOfFuel \<longleftrightarrow> f' = OutOfFuel))
      | Inr (a, ts) \<Rightarrow> r' = Inr (a, erase ts))"

lemma erase_simps [simp]:
  "erase [] = []"
  "erase ((t, p) # ts) = (t, 0) # erase ts"
  "erase (ts @ us) = erase ts @ erase us"
  by (simp_all add: erase_def)

lemma peek_erase [simp]: "peek (erase ts) = peek ts"
  by (cases ts) (auto simp: peek_def)

lemma advance_erase [simp]: "advance (erase ts) = erase (advance ts)"
  by (auto simp: advance_def split: list.split)

lemma weight_erase [simp]: "weight (erase ts) = weight ts"
  by (induction ts) auto

lemma starts_erase [simp]: "peek_starts_with_d (erase ts) = peek_starts_with_d ts"
  by (simp add: peek_starts_with_d_def)

lemma consume_erase [simp]: "consume_leading_d (erase ts) = erase (consume_leading_d ts)"
proof (cases ts)
  case (Cons x r)
  then show ?thesis
    using advance_erase [of ts] by (cases x) (auto simp: consume_leading_d_def split: token.split)
qed (simp add: consume_leading_d_def)

lemma same_Inr [simp]: "same (Inr (a, ts)) (Inr (a, erase ts))"
  by (simp add: same_def)

lemma same_Inl [simp]: "same (Inl f) (Inl f')" if "f = OutOfFuel \<longleftrightarrow> f' = OutOfFuel"
  using that by (simp add: same_def)

lemma same_perr [simp]: "same (perr ts m) (perr ts' m')"
  by (simp add: perr_def)

lemma same_bind:
  assumes "same r r'" and "\<And>a ts. same (f a ts) (f' a (erase ts))"
  shows "same (case r of Inl e \<Rightarrow> Inl e | Inr (a, ts) \<Rightarrow> f a ts)
              (case r' of Inl e \<Rightarrow> Inl e | Inr (a, ts) \<Rightarrow> f' a ts)"
proof (cases r)
  case (Inl f)
  then show ?thesis using assms(1) by (auto simp: same_def)
next
  case (Inr p)
  then show ?thesis using assms(1) assms(2) [of "fst p" "snd p"]
    by (cases p) (auto simp: same_def)
qed

lemma same_map: "same r r' \<Longrightarrow> same (map_parsed f r) (map_parsed f r')"
  by (auto simp: same_def map_parsed_def split: sum.splits)

lemma same_expect: "same (expect t ts) (expect t (erase ts))"
  by (simp add: expect_def)

lemma same_modifier: "same (parse_modifier kw ts) (parse_modifier kw (erase ts))"
proof -
  have c: "same (parse_optional_count d ts) (parse_optional_count d (erase ts))" for d
    by (simp add: parse_optional_count_def split: token.split)
  have i: "same (parse_required_int ts) (parse_required_int (erase ts))" for ts
    by (simp add: parse_required_int_def split: token.split)
  have d: "same (parse_condition_or_default ts) (parse_condition_or_default (erase ts))"
    by (auto simp: parse_condition_or_default_def Let_def intro!: same_map i split: token.split)
  show ?thesis by (auto simp: parse_modifier_def intro!: same_map c i d)
qed

lemma same_modifiers: "same (parse_modifiers n ts) (parse_modifiers n (erase ts))"
proof (induction n arbitrary: ts)
  case (Suc n)
  have "same (parse_modifier kw (advance ts)) (parse_modifier kw (advance (erase ts)))" for kw
    using same_modifier [of kw "advance ts"] by simp
  then show ?case
    unfolding parse_modifiers.simps(2) peek_erase
    by (auto split: token.split option.split intro!: same_bind same_map Suc)
qed (simp add: parse_modifiers.simps(1))

definition blind :: "nat \<Rightarrow> bool" where
  "blind n \<longleftrightarrow>
     (\<forall>ts. same (parse_expr n ts) (parse_expr n (erase ts))) \<and>
     (\<forall>l ts. same (parse_expr_loop n l ts) (parse_expr_loop n l (erase ts))) \<and>
     (\<forall>ts. same (parse_term n ts) (parse_term n (erase ts))) \<and>
     (\<forall>l ts. same (parse_term_loop n l ts) (parse_term_loop n l (erase ts))) \<and>
     (\<forall>ts. same (parse_unary n ts) (parse_unary n (erase ts))) \<and>
     (\<forall>ts. same (parse_dice_or_primary n ts) (parse_dice_or_primary n (erase ts))) \<and>
     (\<forall>c ts. same (parse_dice_term n c ts) (parse_dice_term n c (erase ts))) \<and>
     (\<forall>ts. same (parse_sides n ts) (parse_sides n (erase ts))) \<and>
     (\<forall>ts. same (parse_atom n ts) (parse_atom n (erase ts))) \<and>
     (\<forall>ts. same (parse_parens n ts) (parse_parens n (erase ts))) \<and>
     (\<forall>k ts. same (parse_math_fn n k ts) (parse_math_fn n k (erase ts))) \<and>
     (\<forall>ts. same (parse_pool n ts) (parse_pool n (erase ts))) \<and>
     (\<forall>ts. same (parse_pool_items n ts) (parse_pool_items n (erase ts)))"

lemma blind_step:
  assumes "blind n" shows "blind (Suc n)"
proof -
  note IH = assms [unfolded blind_def]
  note rules = same_bind same_map same_modifiers same_expect
  note on = peek_erase advance_erase starts_erase consume_erase Let_def
  have "same (parse_expr (Suc n) ts) (parse_expr (Suc n) (erase ts))" for ts
    unfolding parse_expr.simps(2) using IH by (intro rules) auto
  moreover have "same (parse_expr_loop (Suc n) l ts) (parse_expr_loop (Suc n) l (erase ts))" for l ts
    unfolding parse_expr_loop.simps(2) on using IH by (auto split: token.split intro!: rules)
  moreover have "same (parse_term (Suc n) ts) (parse_term (Suc n) (erase ts))" for ts
    unfolding parse_term.simps(2) using IH by (intro rules) auto
  moreover have "same (parse_term_loop (Suc n) l ts) (parse_term_loop (Suc n) l (erase ts))" for l ts
    unfolding parse_term_loop.simps(2) on using IH by (auto split: token.split intro!: rules)
  moreover have "same (parse_unary (Suc n) ts) (parse_unary (Suc n) (erase ts))" for ts
    unfolding parse_unary.simps(2) on using IH by (auto intro!: rules)
  moreover have "same (parse_dice_or_primary (Suc n) ts) (parse_dice_or_primary (Suc n) (erase ts))" for ts
    unfolding parse_dice_or_primary.simps(2) on using IH
    by (auto split: token.split intro!: rules)
  moreover have "same (parse_dice_term (Suc n) c ts) (parse_dice_term (Suc n) c (erase ts))" for c ts
    unfolding parse_dice_term.simps(2) using IH by (intro rules) auto
  moreover have "same (parse_sides (Suc n) ts) (parse_sides (Suc n) (erase ts))" for ts
    unfolding parse_sides.simps(2) on using IH by (auto split: token.split intro!: rules)
  moreover have "same (parse_atom (Suc n) ts) (parse_atom (Suc n) (erase ts))" for ts
    unfolding parse_atom.simps(2) on using IH by (auto split: token.split)
  moreover have "same (parse_parens (Suc n) ts) (parse_parens (Suc n) (erase ts))" for ts
    unfolding parse_parens.simps(2) on using IH by (intro rules) auto
  moreover have "same (parse_math_fn (Suc n) k ts) (parse_math_fn (Suc n) k (erase ts))" for k ts
    unfolding parse_math_fn.simps(2) using IH by (intro rules) auto
  moreover have "same (parse_pool (Suc n) ts) (parse_pool (Suc n) (erase ts))" for ts
    unfolding parse_pool.simps(2) using IH by (intro rules) auto
  moreover have "same (parse_pool_items (Suc n) ts) (parse_pool_items (Suc n) (erase ts))" for ts
    unfolding parse_pool_items.simps(2) on using IH by (auto intro!: rules)
  ultimately show ?thesis unfolding blind_def by blast
qed

lemma blind: "blind n"
  by (induction n) (simp_all add: blind_step, simp add: blind_def parse_zero)

lemma parse_expr_erase:
  assumes "parse_expr n (erase ts) = Inr (e, us)"
  shows "\<exists>vs. parse_expr n ts = Inr (e, vs) \<and> us = erase vs"
proof -
  have "same (parse_expr n ts) (parse_expr n (erase ts))"
    using blind [of n] by (simp add: blind_def)
  with assms show ?thesis by (auto simp: same_def split: sum.splits)
qed

section \<open>What the parser can return\<close>

text \<open>A number token is what a run of digits reads as: not negative, and infinite only when it
  has more than 308 digits.\<close>

definition num_lit :: "f64 \<Rightarrow> bool" where
  "num_lit v \<longleftrightarrow> v = Inf False \<or> (\<exists>r. v = Fin r \<and> 0 \<le> r \<and> wf_ieee binary64 v)"

fun ok_token :: "token \<Rightarrow> bool" where
  "ok_token (TNumber v) = num_lit v"
| "ok_token (TIdent s) = (s \<noteq> [] \<and> list_all is_ident_char s)"
| "ok_token _ = True"

definition ok_stream :: "toks \<Rightarrow> bool" where
  "ok_stream ts \<longleftrightarrow> (\<forall>(t, p) \<in> set ts. ok_token t)"

definition math_names :: "ustring list" where
  "math_names = map U [''floor'', ''ceil'', ''round'', ''abs'']"

definition is_d :: "uchar \<Rightarrow> bool" where
  "is_d c \<longleftrightarrow> c = 100 \<or> c = 68"

definition int_lit :: "int \<Rightarrow> bool" where
  "int_lit n \<longleftrightarrow> 0 \<le> n \<and> f_to_i64 (rnd binary64 (of_int n)) = n"

text \<open>A whole number a literal saturates or truncates to.\<close>

fun wf_condition :: "condition \<Rightarrow> bool" where
  "wf_condition (CEq n) = int_lit n"
| "wf_condition (CGt n) = int_lit n"
| "wf_condition (CGte n) = int_lit n"
| "wf_condition (CLt n) = int_lit n"
| "wf_condition (CLte n) = int_lit n"
| "wf_condition MaxFace = True"

fun wf_modifier :: "modifier \<Rightarrow> bool" where
  "wf_modifier (KeepHighest n) = (n \<le> u32_max)"
| "wf_modifier (KeepLowest n) = (n \<le> u32_max)"
| "wf_modifier (DropHighest n) = (n \<le> u32_max)"
| "wf_modifier (DropLowest n) = (n \<le> u32_max)"
| "wf_modifier (Reroll c) = wf_condition c"
| "wf_modifier (RerollRecursive c) = wf_condition c"
| "wf_modifier (Explode c) = wf_condition c"
| "wf_modifier (ExplodeOnce c) = wf_condition c"
| "wf_modifier (MinMod n) = int_lit n"
| "wf_modifier (MaxMod n) = int_lit n"
| "wf_modifier (CountSuccesses c) = wf_condition c"
| "wf_modifier (CountFailures c) = wf_condition c"
| "wf_modifier (SubtractFailureValue c) = wf_condition c"
| "wf_modifier EvenMod = True"
| "wf_modifier OddMod = True"
| "wf_modifier (MarginOfSuccess n) = int_lit n"

text \<open>The trees of the grammar: no empty pool, no placeholder that reads as a number, as a math
  function or as the dice operator.\<close>

fun wf_expr :: "expr \<Rightarrow> bool" and wf_sides :: "sides \<Rightarrow> bool" and wf_term :: "dice_term \<Rightarrow> bool" where
  "wf_expr (Number v) = num_lit v"
| "wf_expr (Placeholder s) = (s \<noteq> [] \<and> list_all is_ident_char s \<and> \<not> is_d (hd s) \<and>
     to_lower s \<notin> set math_names)"
| "wf_expr (Dice t) = wf_term t"
| "wf_expr (Pool es ms) = (es \<noteq> [] \<and> (\<forall>e \<in> set es. wf_expr e) \<and> list_all wf_modifier ms)"
| "wf_expr (Neg e) = wf_expr e"
| "wf_expr (BinOp l b r) = (wf_expr l \<and> wf_expr r)"
| "wf_expr (MathFn k e) = wf_expr e"
| "wf_sides (SNumeric e) = wf_expr e"
| "wf_sides SFate = True"
| "wf_sides SCoin = True"
| "wf_term (DiceTerm c s ms) = (wf_expr c \<and> wf_sides s \<and> list_all wf_modifier ms)"

definition gives :: "('a \<Rightarrow> bool) \<Rightarrow> 'a parsed \<Rightarrow> bool" where
  "gives P r \<longleftrightarrow> (case r of Inl f \<Rightarrow> True | Inr (a, ts) \<Rightarrow> P a \<and> ok_stream ts)"

lemma gives_Inr [simp]: "gives P (Inr (a, ts)) \<longleftrightarrow> P a \<and> ok_stream ts"
  by (simp add: gives_def)

lemma gives_Inl [simp]: "gives P (Inl f)"
  by (simp add: gives_def)

lemma gives_perr [simp]: "gives P (perr ts m)"
  by (simp add: perr_def)

lemma gives_bind:
  assumes "gives P r" and "\<And>a ts. P a \<Longrightarrow> ok_stream ts \<Longrightarrow> gives Q (f a ts)"
  shows "gives Q (case r of Inl e \<Rightarrow> Inl e | Inr (a, ts) \<Rightarrow> f a ts)"
proof (cases r)
  case (Inr p)
  then show ?thesis using assms(1) assms(2) [of "fst p" "snd p"] by (cases p) auto
qed simp

lemma gives_map: "gives P r \<Longrightarrow> (\<And>a. P a \<Longrightarrow> Q (f a)) \<Longrightarrow> gives Q (map_parsed f r)"
  by (auto simp: gives_def map_parsed_def split: sum.splits)

lemma ok_stream_advance [simp]: "ok_stream ts \<Longrightarrow> ok_stream (advance ts)"
  by (auto simp: ok_stream_def advance_def split: list.splits)

lemma ok_stream_peek: "ok_stream ts \<Longrightarrow> ok_token (peek ts)"
  by (auto simp: ok_stream_def peek_def split: list.splits)

lemma ok_stream_consume [simp]: "ok_stream ts \<Longrightarrow> ok_stream (consume_leading_d ts)"
proof (cases ts)
  case (Cons x r)
  assume ok: "ok_stream ts"
  obtain t p where x: "x = (t, p)" by (cases x)
  show ?thesis
  proof (cases t)
    case (TIdent name)
    then show ?thesis
      using ok Cons x ok_stream_advance [OF ok]
      by (cases name) (auto simp: consume_leading_d_def ok_stream_def)
  qed (use ok Cons x in \<open>auto simp: consume_leading_d_def\<close>)
qed (simp add: consume_leading_d_def)

lemma int_lit_small: "0 \<le> n \<Longrightarrow> n \<le> 9007199254740992 \<Longrightarrow> int_lit n"
  by (simp add: int_lit_def rnd64_of_int f_to_i64_def rat_trunc_def int_limits)

lemma int_lit_max: "int_lit i64_max"
proof -
  have "rnd binary64 9223372036854775807 = Fin 9223372036854775808"
  proof -
    have i: "ilog2 9223372036854775807 = 62" by (simp add: ilog2_def) code_simp
    have f: "\<lfloor>9223372036854775807 / 1024 :: rat\<rfloor> = 9007199254740991"
      by (rule floor_unique) simp_all
    show ?thesis
      by (simp add: rnd_def quantum_def binary64_def i f rne_def Let_def power_int_def)
  qed
  then show ?thesis by (simp add: int_lit_def int_limits f_to_i64_def rat_trunc_def)
qed

lemma mult_less_bound:
  fixes a x M :: rat
  assumes "0 < x" "x \<le> 1" "a < M" "0 < M" shows "a * x < M"
proof (cases "0 \<le> a")
  case True
  then have "a * x \<le> a * 1" using assms(2) by (intro mult_left_mono)
  with assms(3) show ?thesis by simp
next
  case False
  then have "a * x \<le> 0" using assms(1) by (simp add: mult_nonpos_nonneg)
  with assms(4) show ?thesis by simp
qed

text \<open>A number past \<open>2^53\<close> has no fractional part.\<close>

lemma representable_int:
  assumes "representable binary64 r" and "9007199254740992 \<le> r"
  shows "of_int \<lfloor>r\<rfloor> = r"
proof -
  obtain m q where r: "r = of_int m * 2 powi q" "\<bar>m\<bar> < 9007199254740992"
    using assms(1) by (auto simp: representable_def binary64_def)
  have "0 \<le> q"
  proof (rule ccontr)
    assume "\<not> 0 \<le> q"
    then have "(2::rat) powi q \<le> 2 powi 0" by (intro power_int_increasing) auto
    moreover have "of_int m < (9007199254740992 :: rat)" using r(2) by linarith
    ultimately have "of_int m * 2 powi q < (9007199254740992 :: rat)"
      by (intro mult_less_bound) simp_all
    with r(1) assms(2) show False by simp
  qed
  then have "r = of_int (m * 2 ^ nat q)" by (simp add: r(1) power_int_def)
  then show ?thesis by simp
qed

lemma num_lit_i64:
  assumes "num_lit v" shows "int_lit (f_to_i64 v)"
  using assms unfolding num_lit_def
proof (elim disjE exE conjE)
  assume "v = Inf False"
  then show ?thesis using int_lit_max by (simp add: f_to_i64_def)
next
  fix r assume v: "v = Fin r" "0 \<le> r" "wf_ieee binary64 v"
  then have n: "f_to_i64 v = min \<lfloor>r\<rfloor> i64_max"
    by (simp add: f_to_i64_def rat_trunc_def int_limits)
  show ?thesis
  proof (cases "r \<le> 9007199254740992")
    case True
    then have "\<lfloor>r\<rfloor> \<le> 9007199254740992" by linarith
    with n v(2) show ?thesis by (simp add: int_lit_small int_limits)
  next
    case False
    then have i: "of_int \<lfloor>r\<rfloor> = r" using v representable_int [of r] by simp
    then have "rnd binary64 (of_int \<lfloor>r\<rfloor>) = Fin r"
      unfolding i using v by (intro rnd_representable) simp
    then show ?thesis using n v(1,2) int_lit_max
      by (cases "\<lfloor>r\<rfloor> \<le> i64_max") (simp_all add: int_lit_def min_def)
  qed
qed

lemma gives_expect: "ok_stream ts \<Longrightarrow> gives (\<lambda>_. True) (expect t ts)"
  by (simp add: expect_def)

lemma gives_if: "gives P r \<Longrightarrow> gives P r' \<Longrightarrow> gives P (if b then r else r')"
  by simp

lemma gives_modifier: assumes "ok_stream ts" shows "gives wf_modifier (parse_modifier kw ts)"
proof -
  have c: "gives (\<lambda>n. n \<le> u32_max) (parse_optional_count 1 ts)"
  proof -
    have "Suc 0 \<le> u32_max" by (simp add: u32_max_def)
    then show ?thesis using assms by (auto simp: parse_optional_count_def split: token.split)
  qed
  have i: "gives (\<lambda>n. int_lit n) (parse_required_int ts)" if "ok_stream ts" for ts
    using that num_lit_i64 ok_stream_peek [OF that]
    by (auto simp: parse_required_int_def split: token.split)
  have d: "gives wf_condition (parse_condition_or_default ts)"
    using assms num_lit_i64 ok_stream_peek [OF assms]
    by (auto simp: parse_condition_or_default_def Let_def split: token.split
        intro!: gives_map [OF i])
  show ?thesis unfolding parse_modifier_def
    by (intro gives_if gives_map [OF c] gives_map [OF d] gives_map [OF i [OF assms]]) (simp_all add: assms)
qed

lemma gives_modifiers: "ok_stream ts \<Longrightarrow> gives (list_all wf_modifier) (parse_modifiers n ts)"
proof (induction n arbitrary: ts)
  case (Suc n)
  then show ?case
    unfolding parse_modifiers.simps(2)
    by (auto split: token.split option.split intro!: gives_bind [OF gives_modifier] gives_map [OF Suc.IH])
qed (simp add: parse_modifiers.simps(1))

definition image_ok :: "nat \<Rightarrow> bool" where
  "image_ok n \<longleftrightarrow> (\<forall>ts. ok_stream ts \<longrightarrow>
     gives wf_expr (parse_expr n ts) \<and>
     (\<forall>l. wf_expr l \<longrightarrow> gives wf_expr (parse_expr_loop n l ts)) \<and>
     gives wf_expr (parse_term n ts) \<and>
     (\<forall>l. wf_expr l \<longrightarrow> gives wf_expr (parse_term_loop n l ts)) \<and>
     gives wf_expr (parse_unary n ts) \<and>
     gives wf_expr (parse_dice_or_primary n ts) \<and>
     (\<forall>c. wf_expr c \<longrightarrow> gives wf_expr (parse_dice_term n c ts)) \<and>
     gives wf_sides (parse_sides n ts) \<and>
     (\<not> peek_starts_with_d ts \<longrightarrow> gives wf_expr (parse_atom n ts)) \<and>
     gives wf_expr (parse_parens n ts) \<and>
     (\<forall>k. gives wf_expr (parse_math_fn n k ts)) \<and>
     gives wf_expr (parse_pool n ts) \<and>
     gives (\<lambda>es. \<forall>e \<in> set es. wf_expr e) (parse_pool_items n ts))"

lemma image_ok_step:
  assumes "image_ok n" shows "image_ok (Suc n)"
proof -
  note IH = assms [unfolded image_ok_def, rule_format]
  have ex: "\<And>ts. ok_stream ts \<Longrightarrow> gives wf_expr (parse_expr n ts)"
    and exl: "\<And>ts l. ok_stream ts \<Longrightarrow> wf_expr l \<Longrightarrow> gives wf_expr (parse_expr_loop n l ts)"
    and te: "\<And>ts. ok_stream ts \<Longrightarrow> gives wf_expr (parse_term n ts)"
    and tel: "\<And>ts l. ok_stream ts \<Longrightarrow> wf_expr l \<Longrightarrow> gives wf_expr (parse_term_loop n l ts)"
    and un: "\<And>ts. ok_stream ts \<Longrightarrow> gives wf_expr (parse_unary n ts)"
    and pr: "\<And>ts. ok_stream ts \<Longrightarrow> gives wf_expr (parse_dice_or_primary n ts)"
    and dt: "\<And>ts c. ok_stream ts \<Longrightarrow> wf_expr c \<Longrightarrow> gives wf_expr (parse_dice_term n c ts)"
    and si: "\<And>ts. ok_stream ts \<Longrightarrow> gives wf_sides (parse_sides n ts)"
    and at: "\<And>ts. ok_stream ts \<Longrightarrow> \<not> peek_starts_with_d ts \<Longrightarrow> gives wf_expr (parse_atom n ts)"
    and pa: "\<And>ts. ok_stream ts \<Longrightarrow> gives wf_expr (parse_parens n ts)"
    and ma: "\<And>ts k. ok_stream ts \<Longrightarrow> gives wf_expr (parse_math_fn n k ts)"
    and po: "\<And>ts. ok_stream ts \<Longrightarrow> gives wf_expr (parse_pool n ts)"
    and poi: "\<And>ts. ok_stream ts \<Longrightarrow> gives (\<lambda>es. \<forall>e \<in> set es. wf_expr e) (parse_pool_items n ts)"
    using IH by blast+
  have one: "num_lit (Fin 1)"
    using representable_of_int [of 1 binary64] by (simp add: num_lit_def binary64_def)
  have num: "num_lit v" if "ok_stream ts" "peek ts = TNumber v" for ts v
    using ok_stream_peek [OF that(1)] that(2) by simp
  have "gives wf_expr (parse_expr (Suc n) ts)" if "ok_stream ts" for ts
    unfolding parse_expr.simps using that by (intro gives_bind [OF te] exl)
  moreover have "gives wf_expr (parse_expr_loop (Suc n) l ts)" if "ok_stream ts" "wf_expr l" for ts l
    unfolding parse_expr_loop.simps using that
    by (auto split: token.split intro!: gives_bind [OF te] exl)
  moreover have "gives wf_expr (parse_term (Suc n) ts)" if "ok_stream ts" for ts
    unfolding parse_term.simps using that by (intro gives_bind [OF un] tel)
  moreover have "gives wf_expr (parse_term_loop (Suc n) l ts)" if "ok_stream ts" "wf_expr l" for ts l
    unfolding parse_term_loop.simps using that
    by (auto split: token.split intro!: gives_bind [OF un] tel)
  moreover have "gives wf_expr (parse_unary (Suc n) ts)" if "ok_stream ts" for ts
    unfolding parse_unary.simps using that by (auto intro!: gives_map [OF un] pr)
  moreover have "gives wf_expr (parse_dice_or_primary (Suc n) ts)" if "ok_stream ts" for ts
    unfolding parse_dice_or_primary.simps Let_def using that one num [OF that]
    by (auto split: token.split intro!: gives_bind [OF pa] dt at)
  moreover have "gives wf_expr (parse_dice_term (Suc n) c ts)" if "ok_stream ts" "wf_expr c" for ts c
    unfolding parse_dice_term.simps using that
    by (intro gives_bind [OF si] gives_map [OF gives_modifiers]) auto
  moreover have "gives wf_sides (parse_sides (Suc n) ts)" if "ok_stream ts" for ts
    unfolding parse_sides.simps using that num [OF that]
    by (auto split: token.split intro!: gives_map [OF pa])
  moreover have "gives wf_expr (parse_atom (Suc n) ts)" if "ok_stream ts" "\<not> peek_starts_with_d ts" for ts
    unfolding parse_atom.simps using that num [OF that(1)] ok_stream_peek [OF that(1)]
    by (auto split: token.split intro!: pa po ma
        simp: math_names_def is_d_def peek_starts_with_d_def)
  moreover have "gives wf_expr (parse_parens (Suc n) ts)" if "ok_stream ts" for ts
    unfolding parse_parens.simps using that
    by (intro gives_bind [OF ex] gives_bind [OF gives_expect]) auto
  moreover have "gives wf_expr (parse_math_fn (Suc n) k ts)" if "ok_stream ts" for ts k
    unfolding parse_math_fn.simps using that
    by (intro gives_bind [OF ex] gives_bind [OF gives_expect]) auto
  moreover have "gives wf_expr (parse_pool (Suc n) ts)" if "ok_stream ts" for ts
    unfolding parse_pool.simps using that
    by (intro gives_bind [OF ex] gives_bind [OF gives_expect] gives_bind [OF poi]
        gives_map [OF gives_modifiers]) auto
  moreover have "gives (\<lambda>es. \<forall>e \<in> set es. wf_expr e) (parse_pool_items (Suc n) ts)" if "ok_stream ts" for ts
    unfolding parse_pool_items.simps using that
    by (auto intro!: gives_bind [OF ex] gives_map [OF poi])
  ultimately show ?thesis unfolding image_ok_def by blast
qed

lemma image_ok: "image_ok n"
  by (induction n) (simp_all add: image_ok_step, simp add: image_ok_def parse_zero)

lemma num_lit_rnd:
  assumes "0 \<le> x" shows "num_lit (rnd binary64 x)"
proof -
  have "0 \<le> x / quantum binary64 x" using assms by (simp add: less_imp_le)
  then have "0 \<le> rne (x / quantum binary64 x)"
    by (auto simp: rne_def Let_def)
  then have "0 \<le> of_int (rne (x / quantum binary64 x)) * quantum binary64 x"
    by (simp add: less_imp_le)
  then show ?thesis
    using wf_rnd [of binary64 x] assms
    by (auto simp: num_lit_def rnd_def Let_def binary64_def)
qed

lemma num_lit_parse: "parse_f64 t = Some v \<Longrightarrow> num_lit v"
  by (auto simp: parse_f64_def Let_def num_lit_rnd split: if_splits)

lemma tokenize_from_stream: "tokenize_from pos s = Inr ts \<Longrightarrow> ok_stream ts"
proof (induction pos s arbitrary: ts rule: tokenize_from.induct)
  case (2 pos c cs)
  have cons: "ok_token t \<Longrightarrow> ok_stream us \<Longrightarrow> ok_stream ((t, p) # us)" for us :: toks and t p
    by (simp add: ok_stream_def)
  consider "is_space c" | "\<not> is_space c" "is_digit c \<or> c = 46"
    | "\<not> is_space c" "\<not> (is_digit c \<or> c = 46)" "is_ident_char c"
    | "\<not> is_space c" "\<not> (is_digit c \<or> c = 46)" "\<not> is_ident_char c" by blast
  then show ?case
  proof cases
    case 1
    with 2 show ?thesis by simp
  next
    case 2
    obtain t rest where sc: "scan_number (c = 46) cs = (t, rest)" by (cases "scan_number (c = 46) cs")
    with 2 "2.prems" obtain v us where v: "parse_f64 (c # t) = Some v"
      and us: "tokenize_from (pos + length (c # t)) rest = Inr us" "ts = (TNumber v, pos) # us"
      by (auto split: option.splits sum.splits)
    have "ok_stream us" using "2.IH"(2) [OF 2 sc [symmetric] v us(1)] .
    with v us(2) show ?thesis by (auto intro!: cons num_lit_parse)
  next
    case 3
    have "list_all is_ident_char (takeWhile is_ident_char cs)"
      by (simp add: list_all_iff) (meson set_takeWhileD)
    with 3 "2.prems" "2.IH"(3) [OF 3] show ?thesis
      by (auto split: sum.splits intro!: cons)
  next
    case 4
    from 4 "2.prems" obtain t us where t: "symbol_token c = Some t" 
      and us: "tokenize_from (pos + utf8_len c) cs = Inr us" "ts = (t, pos) # us"
      by (auto split: option.splits sum.splits)
    have "ok_token t" using t by (auto simp: symbol_token_def split: if_splits)
    with "2.IH"(4) [OF 4 t us(1)] us(2) show ?thesis by (auto intro!: cons)
  qed
qed (simp add: ok_stream_def)

lemma parse_wf: "parse s = Inr e \<Longrightarrow> wf_expr e"
proof -
  assume "parse s = Inr e"
  then obtain ts ts1 where "tokenize s = Inr ts" "parse_expr (parse_fuel ts) ts = Inr (e, ts1)"
    by (auto simp: parse_def split: sum.splits parse_failure.splits if_splits)
  moreover from this(1) have "ok_stream ts" unfolding tokenize_def by (rule tokenize_from_stream)
  ultimately show ?thesis using image_ok [of "parse_fuel ts"]
    by (auto simp: image_ok_def dest!: spec [of _ ts])
qed

end
