(* ===== verification/Dice_Print.thy ===== *)
theory Dice_Print
  imports Dice_Grammar
begin

text \<open>
  Rewriting a formula's dice terms and printing a tree back to text
  (crates/thunderforge-dice/src/rewrite.rs). The main result is the printer's contract: what it
  prints parses to the tree it was given, for every tree a parse can return whose literals are
  finite. Printing is proved by way of the token list of a tree: the tokenizer reads exactly those
  tokens off the printed text, and the parser builds exactly that tree from them.
\<close>

section \<open>Edits\<close>

datatype add_modifier =
    AddKeepHighest nat
  | AddKeepLowest nat
  | AddRerollOnceEq int
  | AddMin int

record term_edit =
  te_count :: "nat option"
  te_add :: "add_modifier list"

record term_view =
  tv_index :: nat
  tv_count :: "nat option"
  tv_sides :: "nat option"
  tv_keeps :: bool
  tv_rerolls :: bool
  tv_clamps :: bool

fun family :: "modifier \<Rightarrow> nat" where
  "family (Reroll _) = 0"
| "family (RerollRecursive _) = 0"
| "family (Explode _) = 1"
| "family (ExplodeOnce _) = 1"
| "family (KeepHighest _) = 2"
| "family (KeepLowest _) = 2"
| "family (DropHighest _) = 2"
| "family (DropLowest _) = 2"
| "family (MinMod _) = 3"
| "family (MaxMod _) = 3"
| "family (CountSuccesses _) = 4"
| "family (CountFailures _) = 4"
| "family (SubtractFailureValue _) = 4"
| "family EvenMod = 4"
| "family OddMod = 4"
| "family (MarginOfSuccess _) = 4"

definition literal :: "expr \<Rightarrow> nat option" where
  "literal e =
     (case e of
        Number n \<Rightarrow>
          if fle (Fin 0) n \<and> feq (ffract binary64 n) (Fin 0) then Some (f_to_u32 n) else None
      | _ \<Rightarrow> None)"

definition view_of :: "dice_term \<Rightarrow> nat \<Rightarrow> term_view" where
  "view_of t index =
     (let has = (\<lambda>f. \<exists>m \<in> set (t_mods t). f m) in
      \<lparr>tv_index = index,
       tv_count = literal (t_count t),
       tv_sides = (case t_sides t of SNumeric e \<Rightarrow> literal e | _ \<Rightarrow> None),
       tv_keeps = has (\<lambda>m. family m = 2),
       tv_rerolls = has (\<lambda>m. family m = 0),
       tv_clamps = has (\<lambda>m. family m = 3)\<rparr>)"

fun added :: "add_modifier \<Rightarrow> modifier" where
  "added (AddKeepHighest n) = KeepHighest n"
| "added (AddKeepLowest n) = KeepLowest n"
| "added (AddRerollOnceEq n) = Reroll (CEq n)"
| "added (AddMin n) = MinMod n"

definition apply_edit :: "dice_term \<Rightarrow> term_edit \<Rightarrow> dice_term" where
  "apply_edit t change =
     DiceTerm
       (case te_count change of Some n \<Rightarrow> Number (f64_of_int (int n)) | None \<Rightarrow> t_count t)
       (t_sides t)
       (sort_key family (t_mods t @ map added (te_add change)))"

text \<open>The closure of \<open>visit_terms\<close> owns the running index, the changed flag and whatever the
  caller's \<open>edit\<close> carries.\<close>

record 's visit_state =
  v_index :: nat
  v_changed :: bool
  v_edit :: 's

type_synonym 's editor = "'s \<Rightarrow> term_view \<Rightarrow> term_edit option \<times> 's"

definition visit_term :: "'s editor \<Rightarrow> 's visit_state \<Rightarrow> dice_term \<Rightarrow> 's visit_state \<times> dice_term" where
  "visit_term edit st t =
     (let view = view_of t (v_index st); (answer, s) = edit (v_edit st) view;
          st1 = st\<lparr>v_index := v_index st + 1, v_edit := s\<rparr> in
      case answer of
        None \<Rightarrow> (st1, t)
      | Some change \<Rightarrow> (st1\<lparr>v_changed := True\<rparr>, apply_edit t change))"

lemma visit_term_shape:
  "visit_term edit st t = (st1, t1) \<Longrightarrow>
   size (t_count t1) \<le> size (t_count t) \<and> t_sides t1 = t_sides t"
  by (auto simp: visit_term_def apply_edit_def Let_def split: prod.splits option.splits)

function (sequential) visit_terms ::
    "'s editor \<Rightarrow> 's visit_state \<Rightarrow> expr \<Rightarrow> 's visit_state \<times> expr"
and visit_items ::
    "'s editor \<Rightarrow> 's visit_state \<Rightarrow> expr list \<Rightarrow> 's visit_state \<times> expr list" where
  "visit_terms edit st (Dice t) =
     (case visit_term edit st t of (st1, t1) \<Rightarrow>
       (case visit_terms edit st1 (t_count t1) of (st2, c) \<Rightarrow>
         (case t_sides t1 of
            SNumeric s \<Rightarrow>
              (case visit_terms edit st2 s of (st3, s1) \<Rightarrow>
                (st3, Dice (DiceTerm c (SNumeric s1) (t_mods t1))))
          | _ \<Rightarrow> (st2, Dice (DiceTerm c (t_sides t1) (t_mods t1))))))"
| "visit_terms edit st (Pool items ms) =
     (case visit_items edit st items of (st1, items1) \<Rightarrow> (st1, Pool items1 ms))"
| "visit_terms edit st (Neg e) =
     (case visit_terms edit st e of (st1, e1) \<Rightarrow> (st1, Neg e1))"
| "visit_terms edit st (MathFn k e) =
     (case visit_terms edit st e of (st1, e1) \<Rightarrow> (st1, MathFn k e1))"
| "visit_terms edit st (BinOp l b r) =
     (case visit_terms edit st l of (st1, l1) \<Rightarrow>
       (case visit_terms edit st1 r of (st2, r1) \<Rightarrow> (st2, BinOp l1 b r1)))"
| "visit_terms edit st e = (st, e)"
| "visit_items edit st [] = (st, [])"
| "visit_items edit st (e # es) =
     (case visit_terms edit st e of (st1, e1) \<Rightarrow>
       (case visit_items edit st1 es of (st2, es1) \<Rightarrow> (st2, e1 # es1)))"
  by pat_completeness auto
termination
proof (relation "measure (case_sum (\<lambda>(_, _, e). size e) (\<lambda>(_, _, es). size_list size es))", goal_cases)
  case (2 edit st t st1 t1)
  then show ?case using visit_term_shape [OF 2(1) [symmetric]]
    by (cases t) auto
next
  case (3 edit st t st1 t1 st2 c s)
  then show ?case using visit_term_shape [OF 3(1) [symmetric]]
    by (cases t) auto
qed auto

section \<open>Printing\<close>

fun precedence :: "expr \<Rightarrow> nat" where
  "precedence (BinOp _ Add _) = 1"
| "precedence (BinOp _ Sub _) = 1"
| "precedence (BinOp _ Mul _) = 2"
| "precedence (BinOp _ Div _) = 2"
| "precedence _ = 3"

definition write_number :: "ustring \<Rightarrow> f64 \<Rightarrow> ustring" where
  "write_number out n =
     (if feq (ffract binary64 n) (Fin 0) \<and> flt (fabs n) (Fin 1000000000000000)
      then out @ int_digits (f_to_i64 n) else out @ display_f64 n)"

text \<open>The keyword, the condition and the count of a modifier.\<close>

fun modifier_parts :: "modifier \<Rightarrow> ustring \<times> condition option \<times> int option" where
  "modifier_parts (KeepHighest n) = (U ''kh'', None, Some (int n))"
| "modifier_parts (KeepLowest n) = (U ''kl'', None, Some (int n))"
| "modifier_parts (DropHighest n) = (U ''dh'', None, Some (int n))"
| "modifier_parts (DropLowest n) = (U ''dl'', None, Some (int n))"
| "modifier_parts (Reroll c) = (U ''r'', Some c, None)"
| "modifier_parts (RerollRecursive c) = (U ''rr'', Some c, None)"
| "modifier_parts (Explode c) = (U ''x'', Some c, None)"
| "modifier_parts (ExplodeOnce c) = (U ''xo'', Some c, None)"
| "modifier_parts (MinMod n) = (U ''min'', None, Some n)"
| "modifier_parts (MaxMod n) = (U ''max'', None, Some n)"
| "modifier_parts (CountSuccesses c) = (U ''cs'', Some c, None)"
| "modifier_parts (CountFailures c) = (U ''cf'', Some c, None)"
| "modifier_parts (SubtractFailureValue c) = (U ''sf'', Some c, None)"
| "modifier_parts EvenMod = (U ''eo'', None, None)"
| "modifier_parts OddMod = (U ''od'', None, None)"
| "modifier_parts (MarginOfSuccess n) = (U ''ms'', None, Some n)"

fun condition_text :: "condition \<Rightarrow> ustring" where
  "condition_text (CEq n) = int_digits n"
| "condition_text (CGt n) = 62 # int_digits n"
| "condition_text (CGte n) = 62 # 61 # int_digits n"
| "condition_text (CLt n) = 60 # int_digits n"
| "condition_text (CLte n) = 60 # 61 # int_digits n"
| "condition_text MaxFace = []"

definition write_modifier :: "ustring \<Rightarrow> modifier \<Rightarrow> ustring" where
  "write_modifier out m =
     (case modifier_parts m of (keyword, condition, cnt) \<Rightarrow>
        out @ keyword
          @ (case cnt of Some n \<Rightarrow> int_digits n | None \<Rightarrow> [])
          @ (case condition of Some c \<Rightarrow> condition_text c | None \<Rightarrow> []))"

definition ends_alpha :: "ustring \<Rightarrow> bool" where
  "ends_alpha out \<longleftrightarrow> out \<noteq> [] \<and> is_alpha (last out)"

fun write_modifiers_from :: "nat \<Rightarrow> ustring \<Rightarrow> modifier list \<Rightarrow> ustring" where
  "write_modifiers_from i out [] = out"
| "write_modifiers_from i out (m # ms) =
     write_modifiers_from (i + 1)
       (write_modifier (if 0 < i \<and> ends_alpha out then out @ [32] else out) m) ms"

definition write_modifiers :: "ustring \<Rightarrow> modifier list \<Rightarrow> ustring" where
  "write_modifiers out ms = write_modifiers_from 0 out ms"

fun op_text :: "binop \<Rightarrow> ustring" where
  "op_text Add = U '' + ''"
| "op_text Sub = U '' - ''"
| "op_text Mul = U '' * ''"
| "op_text Div = U '' / ''"

fun fn_text :: "mathfn \<Rightarrow> ustring" where
  "fn_text Floor = U ''floor(''"
| "fn_text Ceil = U ''ceil(''"
| "fn_text Round = U ''round(''"
| "fn_text Abs = U ''abs(''"

fun is_bare :: "expr \<Rightarrow> bool" where
  "is_bare (Number n) = fle (Fin 0) n"
| "is_bare _ = False"

function (sequential) write_expr :: "ustring \<Rightarrow> expr \<Rightarrow> ustring"
and write_items :: "nat \<Rightarrow> ustring \<Rightarrow> expr list \<Rightarrow> ustring"
and write_wrapped :: "ustring \<Rightarrow> expr \<Rightarrow> bool \<Rightarrow> ustring"
and write_operand :: "ustring \<Rightarrow> expr \<Rightarrow> ustring"
and write_term :: "ustring \<Rightarrow> dice_term \<Rightarrow> ustring" where
  "write_expr out (Number n) = write_number out n"
| "write_expr out (Placeholder name) = out @ name"
| "write_expr out (Dice t) = write_term out t"
| "write_expr out (Pool items ms) =
     write_modifiers (write_items 0 (out @ U ''{'') items @ U ''}'') ms"
| "write_expr out (Neg inner) = write_wrapped (out @ U ''-'') inner (precedence inner < 3)"
| "write_expr out (BinOp l b r) =
     (let mine = precedence (BinOp l b r);
          out1 = write_wrapped out l (precedence l < mine) @ op_text b in
      write_wrapped out1 r (precedence r \<le> mine))"
| "write_expr out (MathFn k inner) = write_expr (out @ fn_text k) inner @ U '')''"
| "write_items i out [] = out"
| "write_items i out (e # es) =
     write_items (i + 1) (write_expr (if 0 < i then out @ U '', '' else out) e) es"
| "write_wrapped out e wrap =
     (if wrap then write_expr (out @ U ''('') e @ U '')'' else write_expr out e)"
| "write_operand out e = write_wrapped out e (\<not> is_bare e)"
| "write_term out (DiceTerm c s ms) =
     (let out1 = write_operand out c @ U ''d'';
          (out2, ends_in_letter) =
            (case s of
               SFate \<Rightarrow> (out1 @ U ''F'', True)
             | SCoin \<Rightarrow> (out1 @ U ''c'', True)
             | SNumeric e \<Rightarrow> (write_operand out1 e, False));
          out3 = (if ends_in_letter \<and> ms \<noteq> [] then out2 @ U '' '' else out2) in
      write_modifiers out3 ms)"
  by pat_completeness auto
termination write_expr
  by (relation "measure (case_sum
      (case_sum (\<lambda>(_, e). 4 * size e) (\<lambda>(_, _, es). 4 * size_list size es + 1))
      (case_sum (\<lambda>(_, e, _). 4 * size e + 1)
        (case_sum (\<lambda>(_, e). 4 * size e + 2) (\<lambda>(_, t). 4 * size t + 1))))") auto

definition print_expr :: "expr \<Rightarrow> ustring" where
  "print_expr e = write_expr [] e"

text \<open>\<open>rewrite_dice_terms\<close>: the formula as it was when no term was edited.\<close>

definition rewrite_dice_terms :: "'s editor \<Rightarrow> 's \<Rightarrow> ustring \<Rightarrow> formula_error + ustring" where
  "rewrite_dice_terms edit s0 formula =
     (case parse formula of
        Inl e \<Rightarrow> Inl e
      | Inr ast \<Rightarrow>
          (case visit_terms edit \<lparr>v_index = 0, v_changed = False, v_edit = s0\<rparr> ast of
             (st, ast1) \<Rightarrow> Inr (if v_changed st then print_expr ast1 else formula)))"

section \<open>What is printed follows what was there\<close>

declare visit_terms.simps [simp del] visit_items.simps [simp del]

lemma write_number_append: "write_number out n = out @ write_number [] n"
  by (simp add: write_number_def)

lemma write_modifier_append: "write_modifier out m = out @ write_modifier [] m"
  by (simp add: write_modifier_def split: prod.split)

lemma write_modifier_nonempty: "write_modifier out m \<noteq> []"
  by (cases m) (simp_all add: write_modifier_def)

lemma write_modifiers_from_append:
  "i = 0 \<or> x \<noteq> [] \<Longrightarrow> write_modifiers_from i (out @ x) ms = out @ write_modifiers_from i x ms"
proof (induction ms arbitrary: i x)
  case (Cons m ms)
  let ?x = "if 0 < i \<and> ends_alpha x then x @ [32] else x"
  have "ends_alpha (out @ x) = ends_alpha x" if "0 < i"
    using Cons.prems that by (simp add: ends_alpha_def)
  then have "write_modifiers_from i (out @ x) (m # ms)
      = write_modifiers_from (i + 1) (out @ write_modifier ?x m) ms"
    using write_modifier_append [of "out @ x @ [32]" m] write_modifier_append [of "x @ [32]" m]
      write_modifier_append [of "out @ x" m] write_modifier_append [of x m] by auto
  also have "\<dots> = out @ write_modifiers_from (i + 1) (write_modifier ?x m) ms"
    using write_modifier_nonempty by (intro Cons.IH) simp
  finally show ?case by simp
qed simp

lemma write_modifiers_append: "write_modifiers out ms = out @ write_modifiers [] ms"
  using write_modifiers_from_append [of 0 "[]" out ms] by (simp add: write_modifiers_def)

definition appends :: "(ustring \<Rightarrow> ustring) \<Rightarrow> bool" where
  "appends f \<longleftrightarrow> (\<exists>t. \<forall>out. f out = out @ t)"

lemma appendsD: "appends f \<Longrightarrow> f out = out @ f []"
  by (auto simp: appends_def)

lemma appends_comp: "appends f \<Longrightarrow> appends g \<Longrightarrow> appends (\<lambda>out. g (f out))"
  by (auto simp: appends_def)

lemma appends_snoc: "appends f \<Longrightarrow> appends (\<lambda>out. f out @ x)"
  by (auto simp: appends_def)

lemma appends_const: "appends (\<lambda>out. out @ x)" and appends_id: "appends (\<lambda>out. out)"
  by (auto simp: appends_def)

lemma appends_pre: "appends f \<Longrightarrow> appends (\<lambda>out. f (out @ x))"
  by (auto simp: appends_def)

lemma appends_modifiers: "appends (\<lambda>out. write_modifiers out ms)"
  unfolding appends_def by (rule exI, rule allI, rule write_modifiers_append)

lemma appends_if: "appends f \<Longrightarrow> appends g \<Longrightarrow> appends (\<lambda>out. if b then f out else g out)"
  by (cases b) simp_all

lemmas appends_rules = appends_snoc appends_const appends_id appends_pre appends_if
  appends_comp [OF _ appends_modifiers]

lemma write_appends:
  fixes out :: ustring and i :: nat
  shows "appends (\<lambda>u. write_expr u e)"
    and "appends (\<lambda>u. write_items i u es)"
    and "appends (\<lambda>u. write_wrapped u e w)"
    and "appends (\<lambda>u. write_operand u e)"
    and "appends (\<lambda>u. write_term u t)"
proof (induction out e and i out es and out e w and out e and out t
    rule: write_expr_write_items_write_wrapped_write_operand_write_term.induct)
  case (1 out n)
  show ?case unfolding appends_def write_expr.simps
    by (rule exI, rule allI, rule write_number_append)
next
  case (4 out items ms)
  then show ?case
    unfolding write_expr.simps
    by (intro appends_comp [OF _ appends_modifiers] appends_snoc appends_pre)
next
  case (5 out inner)
  then show ?case unfolding write_expr.simps by (intro appends_pre)
next
  case (6 out l b r)
  let ?mine = "precedence (BinOp l b r)"
  have "appends (\<lambda>u. write_wrapped u l (precedence l < ?mine) @ op_text b)"
    by (intro appends_snoc "6.IH"(1)) simp
  moreover have "appends (\<lambda>u. write_wrapped u r (precedence r \<le> ?mine))"
    by (rule "6.IH"(2)) simp_all
  ultimately show ?case unfolding write_expr.simps Let_def by (rule appends_comp)
next
  case (7 out k inner)
  then show ?case unfolding write_expr.simps by (intro appends_snoc appends_pre)
next
  case (9 i out e es)
  have "appends (\<lambda>u. write_expr (if 0 < i then u @ U '', '' else u) e)"
    using "9.IH"(1) by (cases "0 < i") (auto simp: appends_def)
  then show ?case unfolding write_items.simps using "9.IH"(2) by (rule appends_comp)
next
  case (10 out e wrap)
  then show ?case
    unfolding write_wrapped.simps by (cases wrap) (auto simp: appends_def)
next
  case (12 out c s ms)
  have c: "appends (\<lambda>u. write_operand u c @ U ''d'')" by (intro appends_snoc "12.IH"(1))
  show ?case
  proof (cases s)
    case (SNumeric e)
    then have "appends (\<lambda>u. write_operand u e)" by (intro "12.IH"(2)) simp_all
    from appends_comp [OF c this] show ?thesis
      unfolding write_term.simps Let_def SNumeric
      by (simp add: appends_comp [OF _ appends_modifiers] del: write_operand.simps)
  next
    case SFate
    show ?thesis
      unfolding write_term.simps Let_def SFate
      by (cases "ms = []") (simp_all del: write_operand.simps U_simps append_assoc
          add: appends_comp [OF _ appends_modifiers] appends_snoc "12.IH"(1))
  next
    case SCoin
    show ?thesis
      unfolding write_term.simps Let_def SCoin
      by (cases "ms = []") (simp_all del: write_operand.simps U_simps append_assoc
          add: appends_comp [OF _ appends_modifiers] appends_snoc "12.IH"(1))
  qed
qed (simp_all add: appends_const appends_id)

lemmas write_append = write_appends [THEN appendsD]

section \<open>Reading printed text back: tokens\<close>

definition lx :: "ustring \<Rightarrow> toks option" where
  "lx s = (case tokenize_from 0 s of Inl _ \<Rightarrow> None | Inr ts \<Rightarrow> Some (erase ts))"

definition Z :: "token list \<Rightarrow> toks" where
  "Z ws = map (\<lambda>t. (t, 0)) ws"

lemma Z_simps [simp]: "Z [] = []" "Z (t # ws) = (t, 0) # Z ws" "Z (ws @ us) = Z ws @ Z us"
  by (simp_all add: Z_def)

lemma tokenize_from_shift:
  "map_sum (\<lambda>_. ()) erase (tokenize_from p s) = map_sum (\<lambda>_. ()) erase (tokenize_from q s)"
proof (induction "length s" arbitrary: p q s rule: less_induct)
  case less
  show ?case
  proof (cases s)
    case (Cons c cs)
    have IH: "map_sum (\<lambda>_. ()) erase (tokenize_from p' s') = map_sum (\<lambda>_. ()) erase (tokenize_from q' s')"
      if "length s' \<le> length cs" for p' q' s' using less [of s'] that Cons by simp
    have step: "map_sum (\<lambda>_. ()) erase (case tokenize_from p' s' of Inl e \<Rightarrow> Inl e | Inr ts \<Rightarrow> Inr ((t, p) # ts))
        = map_sum (\<lambda>_. ()) erase (case tokenize_from q' s' of Inl e \<Rightarrow> Inl e | Inr ts \<Rightarrow> Inr ((t, q) # ts))"
      if "length s' \<le> length cs" for p' q' s' t
      using IH [OF that, of p' q'] by (auto split: sum.splits)
    obtain t rest where sc: "scan_number (c = 46) cs = (t, rest)" by (cases "scan_number (c = 46) cs")
    have "length rest \<le> length cs" using sc by (rule scan_number_length)
    then show ?thesis
      using IH [of cs] step sc length_dropWhile_le [of is_ident_char cs]
      by (simp add: Cons split: option.split)
  qed simp
qed

lemma lx_shift:
  "(case tokenize_from p s of Inl _ \<Rightarrow> None | Inr ts \<Rightarrow> Some (erase ts)) = lx s"
  using tokenize_from_shift [of p s 0] by (auto simp: lx_def split: sum.splits)

lemma lx_cons:
  "(case (case tokenize_from p s of Inl e \<Rightarrow> Inl e | Inr ts \<Rightarrow> Inr ((t, q) # ts)) of
      Inl _ \<Rightarrow> None | Inr ts \<Rightarrow> Some (erase ts)) = map_option ((#) (t, 0)) (lx s)"
  by (subst lx_shift [of p, symmetric]) (simp split: sum.split)

lemma lx_Nil: "lx [] = Some [(TEof, 0)]"
  by (simp add: lx_def)

definition lexes :: "(ustring \<Rightarrow> bool) \<Rightarrow> ustring \<Rightarrow> token list \<Rightarrow> bool" where
  "lexes C t ws \<longleftrightarrow> (\<forall>k. C k \<longrightarrow> lx (t @ k) = map_option (\<lambda>ts. Z ws @ ts) (lx k))"

definition numsafe :: "ustring \<Rightarrow> bool" where
  "numsafe k \<longleftrightarrow> k = [] \<or> \<not> is_digit (hd k) \<and> hd k \<noteq> 46"

definition idsafe :: "ustring \<Rightarrow> bool" where
  "idsafe k \<longleftrightarrow> k = [] \<or> \<not> is_ident_char (hd k)"

definition safe :: "ustring \<Rightarrow> bool" where
  "safe k \<longleftrightarrow> numsafe k \<and> idsafe k"

lemma lexes_comp:
  "lexes C t ws \<Longrightarrow> lexes C' t' ws' \<Longrightarrow> (\<And>k. C' k \<Longrightarrow> C (t' @ k)) \<Longrightarrow> lexes C' (t @ t') (ws @ ws')"
  by (simp add: lexes_def option.map_comp comp_def)

lemma lexes_weaken: "lexes C t ws \<Longrightarrow> (\<And>k. C' k \<Longrightarrow> C k) \<Longrightarrow> lexes C' t ws"
  by (simp add: lexes_def)

lemma lexes_Nil: "lexes C [] []"
  by (simp add: lexes_def option.map_ident)

lemma char_classes:
  "is_digit c \<Longrightarrow> \<not> is_space c" "is_ident_char c \<Longrightarrow> \<not> is_space c \<and> \<not> is_digit c \<and> c \<noteq> 46"
  by (auto simp: is_digit_def is_space_def is_ident_char_def is_alpha_def)

lemma lexes_space: "lexes C [32] []"
  using lx_shift by (simp add: lexes_def lx_def is_space_def utf8_len_def option.map_ident)

lemma lexes_sym:
  "symbol_token c = Some t \<Longrightarrow> lexes C [c] [t]"
proof -
  assume s: "symbol_token c = Some t"
  then have "\<not> is_space c \<and> \<not> is_digit c \<and> c \<noteq> 46 \<and> \<not> is_ident_char c"
    by (auto simp: symbol_token_def is_space_def is_digit_def is_ident_char_def is_alpha_def split: if_splits)
  then have "lx (c # k) = map_option (\<lambda>ts. Z [t] @ ts) (lx k)" for k
    unfolding lx_def [of "c # k"] using s lx_cons by simp
  then show ?thesis by (simp add: lexes_def)
qed

lemma lexes_ident:
  assumes "s \<noteq> []" and "list_all is_ident_char s" shows "lexes idsafe s [TIdent s]"
proof -
  obtain c s' where s: "s = c # s'" "is_ident_char c" "list_all is_ident_char s'"
    using assms by (cases s) auto
  have "lx (s @ k) = map_option (\<lambda>ts. Z [TIdent s] @ ts) (lx k)" if "idsafe k" for k
  proof -
    have "takeWhile is_ident_char (s' @ k) = s'" "dropWhile is_ident_char (s' @ k) = k"
      using s(3) that by (induction s') (auto simp: idsafe_def hd_conv_nth takeWhile_eq_Nil_iff
        dropWhile_eq_self_iff)
    then show ?thesis
      unfolding lx_def [of "s @ k"] using char_classes(2) [OF s(2)] s lx_cons by simp
  qed
  then show ?thesis by (simp add: lexes_def)
qed

lemma scan_digits:
  "\<forall>c \<in> set ds. is_digit c \<Longrightarrow> scan_number b (ds @ k) = (ds @ fst (scan_number b k), snd (scan_number b k))"
  by (induction ds) (auto split: prod.split)

lemma scan_numsafe: "numsafe k \<Longrightarrow> scan_number b k = ([], k)"
  by (cases k) (auto simp: numsafe_def)

lemma lexes_num:
  assumes "num_text t" and v: "parse_f64 t = Some v" shows "lexes numsafe t [TNumber v]"
proof -
  obtain ip fp where t: "t = ip \<or> t = ip @ 46 # fp" "ip \<noteq> []"
      "\<forall>c \<in> set ip. is_digit c" "\<forall>c \<in> set fp. is_digit c"
    using assms(1) by (auto simp: num_text_def)
  then obtain c t' where c: "t = c # t'" "is_digit c" by (cases ip) auto
  have "lx (t @ k) = map_option (\<lambda>ts. Z [TNumber v] @ ts) (lx k)" if "numsafe k" for k
  proof -
    have "scan_number False (t' @ k) = (t', k)"
      using t(1)
    proof
      assume "t = ip"
      then have "\<forall>c \<in> set t'. is_digit c" using t(3) c(1) by auto
      then show ?thesis by (simp add: scan_digits scan_numsafe [OF that])
    next
      assume a: "t = ip @ 46 # fp"
      then obtain i' where "t' = i' @ 46 # fp" "\<forall>c \<in> set i'. is_digit c"
        using t(2,3) c(1) by (cases ip) auto
      then show ?thesis using t(4)
        by (simp add: scan_digits scan_numsafe [OF that])
    qed
    moreover have "c \<noteq> 46" using c(2) by auto
    ultimately show ?thesis
      unfolding lx_def [of "t @ k"] using char_classes(1) [OF c(2)] c v lx_cons by simp
  qed
  then show ?thesis by (simp add: lexes_def)
qed

section \<open>The tokens of a tree\<close>

fun condition_toks :: "condition \<Rightarrow> token list" where
  "condition_toks (CEq n) = [TNumber (f64_of_int n)]"
| "condition_toks (CGt n) = [TGt, TNumber (f64_of_int n)]"
| "condition_toks (CGte n) = [TGt, TEq, TNumber (f64_of_int n)]"
| "condition_toks (CLt n) = [TLt, TNumber (f64_of_int n)]"
| "condition_toks (CLte n) = [TLt, TEq, TNumber (f64_of_int n)]"
| "condition_toks MaxFace = []"

definition modifier_toks :: "modifier \<Rightarrow> token list" where
  "modifier_toks m =
     (case modifier_parts m of (keyword, condition, cnt) \<Rightarrow>
        TIdent keyword
          # (case cnt of Some n \<Rightarrow> [TNumber (f64_of_int n)] | None \<Rightarrow> [])
          @ (case condition of Some c \<Rightarrow> condition_toks c | None \<Rightarrow> []))"

definition modifiers_toks :: "modifier list \<Rightarrow> token list" where
  "modifiers_toks ms = concat (map modifier_toks ms)"

definition wrap_toks :: "bool \<Rightarrow> token list \<Rightarrow> token list" where
  "wrap_toks w ts = (if w then TLParen # ts @ [TRParen] else ts)"

fun op_token :: "binop \<Rightarrow> token" where
  "op_token Add = TPlus"
| "op_token Sub = TMinus"
| "op_token Mul = TStar"
| "op_token Div = TSlash"

fun fn_name :: "mathfn \<Rightarrow> ustring" where
  "fn_name Floor = U ''floor''"
| "fn_name Ceil = U ''ceil''"
| "fn_name Round = U ''round''"
| "fn_name Abs = U ''abs''"

fun expr_toks :: "expr \<Rightarrow> token list"
and sides_toks :: "sides \<Rightarrow> token list"
and term_toks :: "dice_term \<Rightarrow> token list"
and items_toks :: "bool \<Rightarrow> expr list \<Rightarrow> token list" where
  "expr_toks (Number v) = [TNumber v]"
| "expr_toks (Placeholder s) = [TIdent s]"
| "expr_toks (Dice t) = term_toks t"
| "expr_toks (Pool es ms) = TLBrace # items_toks False es @ TRBrace # modifiers_toks ms"
| "expr_toks (Neg e) = TMinus # wrap_toks (precedence e < 3) (expr_toks e)"
| "expr_toks (BinOp l b r) =
     wrap_toks (precedence l < precedence (BinOp l b r)) (expr_toks l)
       @ op_token b # wrap_toks (precedence r \<le> precedence (BinOp l b r)) (expr_toks r)"
| "expr_toks (MathFn k e) = TIdent (fn_name k) # TLParen # expr_toks e @ [TRParen]"
| "sides_toks (SNumeric e) = TIdent (U ''d'') # wrap_toks (\<not> is_bare e) (expr_toks e)"
| "sides_toks SFate = [TIdent (U ''dF'')]"
| "sides_toks SCoin = [TIdent (U ''dc'')]"
| "term_toks (DiceTerm c s ms) =
     wrap_toks (\<not> is_bare c) (expr_toks c) @ sides_toks s @ modifiers_toks ms"
| "items_toks b [] = []"
| "items_toks b (e # es) = (if b then [TComma] else []) @ expr_toks e @ items_toks True es"

text \<open>Every literal of the tree is a finite number.\<close>

fun finite_expr :: "expr \<Rightarrow> bool" and finite_sides :: "sides \<Rightarrow> bool"
and finite_term :: "dice_term \<Rightarrow> bool" where
  "finite_expr (Number v) = is_finite v"
| "finite_expr (Placeholder s) = True"
| "finite_expr (Dice t) = finite_term t"
| "finite_expr (Pool es ms) = (\<forall>e \<in> set es. finite_expr e)"
| "finite_expr (Neg e) = finite_expr e"
| "finite_expr (BinOp l b r) = (finite_expr l \<and> finite_expr r)"
| "finite_expr (MathFn k e) = finite_expr e"
| "finite_sides (SNumeric e) = finite_expr e"
| "finite_sides SFate = True"
| "finite_sides SCoin = True"
| "finite_term (DiceTerm c s ms) = (finite_expr c \<and> finite_sides s)"

section \<open>Printed text reads as those tokens\<close>

lemma representable_fraction:
  assumes "representable binary64 r" and "0 \<le> r"
  shows "representable binary64 (r - of_int \<lfloor>r\<rfloor>)"
proof -
  obtain m q where r: "r = of_int m * 2 powi q" "\<bar>m\<bar> < 2 ^ prec binary64" "qmin binary64 \<le> q"
    using assms(1) by (auto simp: representable_def)
  have small: "0 \<le> r - of_int \<lfloor>r\<rfloor>" "r - of_int \<lfloor>r\<rfloor> < 1" by linarith+
  have big: "(1 :: rat) < 2 powi emax binary64" by (simp add: binary64_def power_int_def)
  show ?thesis
  proof (cases "0 \<le> q")
    case True
    then have "r = of_int (m * 2 ^ nat q)" by (simp add: r(1) power_int_def)
    then have "r - of_int \<lfloor>r\<rfloor> = 0" by simp
    then show ?thesis
      unfolding representable_def using r(3) big by (auto intro!: exI [of _ 0] exI [of _ q] simp: binary64_def)
  next
    case False
    let ?m = "m - \<lfloor>r\<rfloor> * 2 ^ nat (- q)"
    have p: "(2 :: rat) ^ nat (- q) * 2 powi q = 1"
      using False by (simp add: power_int_def field_simps)
    then have eq: "r - of_int \<lfloor>r\<rfloor> = of_int ?m * 2 powi q"
      by (simp add: r(1) left_diff_distrib mult.assoc)
    have "0 \<le> (of_int ?m :: rat)"
      using small(1) zero_le_mult_iff [of "of_int ?m" "2 powi q :: rat"] powi_pos [of q]
      unfolding eq by linarith
    then have "0 \<le> ?m" by (simp only: of_int_0_le_iff)
    moreover have "0 \<le> \<lfloor>r\<rfloor>" using assms(2) by simp
    then have "?m \<le> m" by simp
    ultimately have "\<bar>?m\<bar> < 2 ^ prec binary64" using r(2) by linarith
    then show ?thesis
      unfolding representable_def using eq r(3) small big
      by (intro conjI exI [of _ ?m] exI [of _ q]) auto
  qed
qed

lemma whole_fraction:
  assumes "representable binary64 r" and "0 \<le> r" and "feq (ffract binary64 (Fin r)) (Fin 0)"
  shows "r = of_int \<lfloor>r\<rfloor>"
proof -
  have "rnd binary64 (r - of_int \<lfloor>r\<rfloor>) = Fin (r - of_int \<lfloor>r\<rfloor>)"
    using representable_fraction [OF assms(1,2)] by (rule rnd_representable)
  then have "ffract binary64 (Fin r) = Fin (r - of_int \<lfloor>r\<rfloor>) \<or> r = of_int \<lfloor>r\<rfloor>"
    using assms(2) by (auto simp: ffract_def fsub_def fadd_def ftrunc_def rat_trunc_def
      signed_zero_def split: if_splits)
  with assms(3) show ?thesis by auto
qed

lemma lexes_int:
  assumes "0 \<le> n" shows "lexes numsafe (int_digits n) [TNumber (f64_of_int n)]"
proof -
  have "parse_f64 (nat_digits (nat n)) = Some (f64_of_int n)"
    using assms by (simp add: parse_f64_digits f64_of_int_def)
  then show ?thesis using assms by (simp add: int_digits_def lexes_num)
qed

lemma lexes_number:
  assumes "num_lit v" and "is_finite v"
  shows "lexes numsafe (write_number [] v) [TNumber v] \<and> num_text (write_number [] v)"
proof -
  obtain r where v: "v = Fin r" "0 \<le> r" "representable binary64 r"
    using assms by (auto simp: num_lit_def)
  show ?thesis
  proof (cases "feq (ffract binary64 v) (Fin 0) \<and> flt (fabs v) (Fin 1000000000000000)")
    case True
    then have r: "r = of_int \<lfloor>r\<rfloor>" using whole_fraction [OF v(3,2)] v(1) by simp
    from True v have small: "r < 1000000000000000" by simp
    then have n: "f_to_i64 v = \<lfloor>r\<rfloor>" "0 \<le> \<lfloor>r\<rfloor>"
      using v by (auto simp: f_to_i64_def rat_trunc_def int_limits min_def floor_le_iff)
    have "f64_of_int \<lfloor>r\<rfloor> = v" unfolding f64_of_int_def v(1) using r v(3) rnd_representable by metis
    with lexes_int [OF n(2)] True n show ?thesis
      by (simp add: write_number_def int_digits_def)
  next
    case False
    then have "write_number [] v = display_f64 v" by (auto simp: write_number_def)
    with display_f64_parse [of r] v show ?thesis by (auto intro: lexes_num)
  qed
qed

lemma modifier_text:
  "write_modifier [] m = (case modifier_parts m of (kw, c, n) \<Rightarrow>
     kw @ (case n of Some n \<Rightarrow> int_digits n | None \<Rightarrow> [])
        @ (case c of Some c \<Rightarrow> condition_text c | None \<Rightarrow> []))"
  by (simp add: write_modifier_def split: prod.split)

lemma int_lit_nonneg: "int_lit n \<Longrightarrow> 0 \<le> n"
  by (simp add: int_lit_def)

lemma lexes_sym_cons:
  "symbol_token c = Some t \<Longrightarrow> lexes C s ws \<Longrightarrow> lexes C (c # s) (t # ws)"
  using lexes_comp [OF lexes_sym [where C = "\<lambda>_. True"]] by fastforce

lemma lexes_space_cons: "lexes C s ws \<Longrightarrow> lexes C (32 # s) ws"
  using lexes_comp [OF lexes_space [where C = "\<lambda>_. True"]] by fastforce

lemma lexes_condition:
  "wf_condition c \<Longrightarrow> c \<noteq> MaxFace \<Longrightarrow> lexes numsafe (condition_text c) (condition_toks c)"
  by (cases c) (auto intro!: lexes_sym_cons lexes_int int_lit_nonneg simp: symbol_token_def)

lemma digits_hd: "is_digit (hd (nat_digits n))"
  using nat_digits_digit [of n] hd_in_set [OF nat_digits_nonempty] by blast

lemma digits_last: "is_digit (last (nat_digits n))"
  using nat_digits_digit [of n] last_in_set [OF nat_digits_nonempty] by blast

lemma digit_idsafe: "is_digit c \<Longrightarrow> idsafe (c # k)"
  by (auto simp: idsafe_def is_digit_def is_ident_char_def is_alpha_def)

lemma int_digits_idsafe: "0 \<le> n \<Longrightarrow> idsafe (int_digits n @ k)"
  using digits_hd [of "nat n"] nat_digits_nonempty [of "nat n"]
  by (cases "nat_digits (nat n)") (auto simp: int_digits_def intro: digit_idsafe)

lemma condition_idsafe:
  "wf_condition c \<Longrightarrow> c \<noteq> MaxFace \<Longrightarrow> idsafe (condition_text c @ k)"
proof (cases c)
  case (CEq n)
  assume "wf_condition c"
  with CEq show ?thesis by (simp add: int_digits_idsafe int_lit_nonneg)
qed (auto simp: idsafe_def is_ident_char_def is_alpha_def)

lemma int_digits_last: "0 \<le> n \<Longrightarrow> \<not> is_alpha (last (int_digits n)) \<and> int_digits n \<noteq> []"
  using digits_last [of "nat n"] by (auto simp: int_digits_def is_digit_def is_alpha_def)

lemma condition_last:
  "wf_condition c \<Longrightarrow> c \<noteq> MaxFace \<Longrightarrow>
   condition_text c \<noteq> [] \<and> \<not> is_alpha (last (condition_text c))"
  by (cases c) (auto simp: int_digits_last int_lit_nonneg)

text \<open>A modifier that ends in a letter must not run into a word, one that ends in a digit not
  into a number.\<close>

lemma modifier_shape:
  assumes "wf_modifier m"
  obtains kw arg where "write_modifier [] m = kw @ arg" "kw \<noteq> []" "list_all is_alpha kw"
    "modifier_toks m = TIdent kw # tl (modifier_toks m)"
    "arg = [] \<and> tl (modifier_toks m) = [] \<or>
     arg \<noteq> [] \<and> \<not> is_alpha (last arg) \<and> (\<forall>k. idsafe (arg @ k)) \<and> lexes numsafe arg (tl (modifier_toks m))"
proof -
  obtain kw c n where p: "modifier_parts m = (kw, c, n)" by (cases "modifier_parts m")
  have kw: "kw \<noteq> []" "list_all is_alpha kw" using p by (cases m; auto simp: is_alpha_def)+
  have n: "0 \<le> k" if "n = Some k" for k
    using p that assms by (cases m) (auto simp: int_lit_nonneg)
  have c: "wf_condition d" if "c = Some d" for d using p that assms by (cases m) auto
  have x: "n = None \<or> c = None" using p by (cases m) auto
  let ?arg = "(case n of Some n \<Rightarrow> int_digits n | None \<Rightarrow> [])
        @ (case c of Some c \<Rightarrow> condition_text c | None \<Rightarrow> [])"
  let ?tk = "(case n of Some n \<Rightarrow> [TNumber (f64_of_int n)] | None \<Rightarrow> [])
        @ (case c of Some c \<Rightarrow> condition_toks c | None \<Rightarrow> [])"
  have tk: "modifier_toks m = TIdent kw # ?tk" by (simp add: modifier_toks_def p)
  have tx: "write_modifier [] m = kw @ ?arg" by (simp add: modifier_text p)
  have "?arg = [] \<and> ?tk = [] \<or> ?arg \<noteq> [] \<and> \<not> is_alpha (last ?arg) \<and>
      (\<forall>k. idsafe (?arg @ k)) \<and> lexes numsafe ?arg ?tk"
  proof (cases n)
    case (Some k)
    with x n show ?thesis
      by (auto simp: int_digits_last int_digits_idsafe intro!: lexes_int)
  next
    case None
    show ?thesis
    proof (cases c)
      case (Some d)
      with None c show ?thesis
        by (cases "d = MaxFace") (auto simp: condition_last condition_idsafe intro!: lexes_condition)
    qed (simp add: None)
  qed
  with kw tk tx show thesis by (intro that) auto
qed

fun separated :: "bool \<Rightarrow> modifier list \<Rightarrow> ustring" where
  "separated a [] = []"
| "separated a (m # ms) =
     (if a then [32] else []) @ write_modifier [] m
       @ separated (ends_alpha (write_modifier [] m)) ms"

lemma ends_alpha_modifier: "ends_alpha (x @ write_modifier [] m) = ends_alpha (write_modifier [] m)"
  using write_modifier_nonempty [of "[]" m] by (simp add: ends_alpha_def)

lemma write_modifiers_separated:
  "write_modifiers_from (Suc i) x ms = x @ separated (ends_alpha x) ms"
proof (induction ms arbitrary: i x)
  case (Cons m ms)
  show ?case
    using Cons [of "Suc i" "write_modifier (if ends_alpha x then x @ [32] else x) m"]
      write_modifier_append [of "x @ [32]" m] write_modifier_append [of x m]
      ends_alpha_modifier [of "x @ [32]" m] ends_alpha_modifier [of x m]
    by (auto split: if_splits)
qed simp

lemma write_modifiers_text: "write_modifiers [] ms = separated False ms"
  by (cases ms)
    (simp_all add: write_modifiers_def write_modifiers_separated)

lemma alpha_ident: "list_all is_alpha s \<Longrightarrow> list_all is_ident_char s"
  by (auto simp: list_all_iff is_ident_char_def)

lemma separated_safe:
  assumes "list_all wf_modifier ms" and "safe k"
  shows "numsafe (separated a ms @ k) \<and> (a \<longrightarrow> idsafe (separated a ms @ k))"
proof (cases ms)
  case Nil then show ?thesis using assms by (simp add: safe_def)
next
  case (Cons m ms')
  with assms have "wf_modifier m" by simp
  then obtain kw arg where "write_modifier [] m = kw @ arg" "kw \<noteq> []" "list_all is_alpha kw"
    by (rule modifier_shape)
  then obtain c kw' where "write_modifier [] m = c # kw'" "is_alpha c"
    by (cases kw) auto
  then show ?thesis using Cons
    by (auto simp: numsafe_def idsafe_def is_digit_def is_alpha_def is_ident_char_def)
qed

lemma lexes_separated:
  "list_all wf_modifier ms \<Longrightarrow> lexes safe (separated a ms) (modifiers_toks ms)"
proof (induction ms arbitrary: a)
  case Nil then show ?case by (simp add: modifiers_toks_def lexes_Nil)
next
  case (Cons m ms)
  then have wf: "wf_modifier m" "list_all wf_modifier ms" by auto
  let ?rest = "separated (ends_alpha (write_modifier [] m)) ms"
  have rest: "lexes safe ?rest (modifiers_toks ms)" using Cons.IH wf by simp
  from modifier_shape [OF wf(1)] obtain kw arg where
    m: "write_modifier [] m = kw @ arg" "kw \<noteq> []" "list_all is_alpha kw"
    "modifier_toks m = TIdent kw # tl (modifier_toks m)"
    "arg = [] \<and> tl (modifier_toks m) = [] \<or>
     arg \<noteq> [] \<and> \<not> is_alpha (last arg) \<and> (\<forall>k. idsafe (arg @ k)) \<and> lexes numsafe arg (tl (modifier_toks m))" .
  have kw: "lexes idsafe kw [TIdent kw]" using m(2,3) by (intro lexes_ident alpha_ident)
  have "lexes safe (write_modifier [] m @ ?rest) (modifier_toks m @ modifiers_toks ms)"
    using m(5)
  proof
    assume a: "arg = [] \<and> tl (modifier_toks m) = []"
    then have e: "ends_alpha (write_modifier [] m)"
      using m(1-3) by (simp add: ends_alpha_def list_all_iff)
    have "lexes safe (kw @ ?rest) ([TIdent kw] @ modifiers_toks ms)"
      by (rule lexes_comp [OF kw rest]) (use separated_safe [OF wf(2)] e in blast)
    then show ?thesis using a m(1,4) by simp
  next
    assume a: "arg \<noteq> [] \<and> \<not> is_alpha (last arg) \<and> (\<forall>k. idsafe (arg @ k)) \<and> lexes numsafe arg (tl (modifier_toks m))"
    then have l: "lexes safe (arg @ ?rest) (tl (modifier_toks m) @ modifiers_toks ms)"
      by (intro lexes_comp [OF _ rest]) (use separated_safe [OF wf(2)] in blast)+
    have "lexes safe (kw @ (arg @ ?rest)) ([TIdent kw] @ tl (modifier_toks m) @ modifiers_toks ms)"
      by (rule lexes_comp [OF kw l]) (use a in simp)
    then show ?thesis using m(1,4) by (metis append_Cons append_Nil append_assoc)
  qed
  then show ?case
    by (auto simp: modifiers_toks_def intro: lexes_space_cons)
qed

lemma lexes_modifiers:
  "list_all wf_modifier ms \<Longrightarrow> lexes safe (write_modifiers [] ms) (modifiers_toks ms)"
  by (simp add: write_modifiers_text lexes_separated)

lemma modifiers_numsafe:
  "list_all wf_modifier ms \<Longrightarrow> safe k \<Longrightarrow> numsafe (write_modifiers [] ms @ k)"
  using separated_safe [of ms k False] by (simp add: write_modifiers_text)
text \<open>The text of each tree in terms of its parts.\<close>

definition wrap_text :: "bool \<Rightarrow> ustring \<Rightarrow> ustring" where
  "wrap_text w s = (if w then U ''('' @ s @ U '')'' else s)"

lemma write_wrapped_text: "write_wrapped [] e w = wrap_text w (write_expr [] e)"
  using write_append(1) [of "U ''(''" e] by (simp add: wrap_text_def)

lemma expr_text:
  "write_expr [] (Pool items ms) = U ''{'' @ write_items 0 [] items @ U ''}'' @ write_modifiers [] ms"
  "write_expr [] (Neg e) = U ''-'' @ wrap_text (precedence e < 3) (write_expr [] e)"
  "write_expr [] (BinOp l b r) =
     wrap_text (precedence l < precedence (BinOp l b r)) (write_expr [] l) @ op_text b
       @ wrap_text (precedence r \<le> precedence (BinOp l b r)) (write_expr [] r)"
  "write_expr [] (MathFn k e) = fn_text k @ write_expr [] e @ U '')''"
proof -
  show "write_expr [] (Pool items ms) = U ''{'' @ write_items 0 [] items @ U ''}'' @ write_modifiers [] ms"
    using write_append(2) [of 0 "U ''{''" items]
      write_modifiers_append [of "U ''{'' @ write_items 0 [] items @ U ''}''" ms] by simp
  show "write_expr [] (Neg e) = U ''-'' @ wrap_text (precedence e < 3) (write_expr [] e)"
    using write_append(3) [of "U ''-''" e "precedence e < 3"] write_wrapped_text
    by (simp del: write_wrapped.simps)
  show "write_expr [] (BinOp l b r) =
     wrap_text (precedence l < precedence (BinOp l b r)) (write_expr [] l) @ op_text b
       @ wrap_text (precedence r \<le> precedence (BinOp l b r)) (write_expr [] r)"
    using write_append(3) [of "write_wrapped [] l (precedence l < precedence (BinOp l b r)) @ op_text b"
        r "precedence r \<le> precedence (BinOp l b r)"]
    by (simp add: Let_def write_wrapped_text del: write_wrapped.simps)
  show "write_expr [] (MathFn k e) = fn_text k @ write_expr [] e @ U '')''"
    using write_append(1) [of "fn_text k" e] by simp
qed

lemma items_text:
  "write_items i [] (e # es) =
     (if 0 < i then U '', '' else []) @ write_expr [] e @ write_items (i + 1) [] es"
  using write_append(2) [of "i + 1" "write_expr (if 0 < i then U '', '' else []) e" es]
    write_append(1) [of "U '', ''" e] by (cases "0 < i") simp_all

definition sides_text :: "sides \<Rightarrow> ustring" where
  "sides_text s =
     (case s of SFate \<Rightarrow> U ''dF'' | SCoin \<Rightarrow> U ''dc''
      | SNumeric e \<Rightarrow> U ''d'' @ wrap_text (\<not> is_bare e) (write_expr [] e))"

lemma term_text:
  "write_term [] (DiceTerm c s ms) =
     wrap_text (\<not> is_bare c) (write_expr [] c) @ sides_text s
       @ (if s \<in> {SFate, SCoin} \<and> ms \<noteq> [] then U '' '' else []) @ write_modifiers [] ms"
proof -
  have o: "write_operand x e = x @ wrap_text (\<not> is_bare e) (write_expr [] e)" for x e
    using write_append(4) [of x e] by (simp add: write_wrapped_text del: write_wrapped.simps)
  show ?thesis
    by (cases s; cases "ms = []")
      (simp_all add: Let_def o sides_text_def write_modifiers_append [of "_ @ _"] del: write_operand.simps)
qed

lemma wrap_lexes:
  assumes "lexes safe s ts" shows "lexes safe (wrap_text w s) (wrap_toks w ts)"
proof (cases w)
  case True
  have "lexes safe (s @ [41]) (ts @ [TRParen])"
    by (rule lexes_comp [OF assms lexes_sym])
      (simp_all add: symbol_token_def safe_def numsafe_def idsafe_def is_digit_def is_ident_char_def is_alpha_def)
  then have "lexes safe (40 # s @ [41]) (TLParen # ts @ [TRParen])"
    by (rule lexes_sym_cons [rotated]) (simp add: symbol_token_def)
  then show ?thesis using True by (simp add: wrap_text_def wrap_toks_def)
qed (use assms in \<open>simp add: wrap_text_def wrap_toks_def\<close>)

text \<open>What may follow a printed tree.\<close>

lemma safe_simps [simp]:
  "safe (32 # k)" "safe (41 # k)" "safe (44 # k)" "safe (125 # k)" "safe []"
  by (simp_all add: safe_def numsafe_def idsafe_def is_digit_def is_ident_char_def is_alpha_def)

text \<open>An operand is a bare number, which reads as a number up to any letter, or in parentheses.\<close>

lemma operand_lexes:
  assumes "lexes safe (write_expr [] e) (expr_toks e)" and "wf_expr e" and "finite_expr e"
  shows "lexes numsafe (wrap_text (\<not> is_bare e) (write_expr [] e)) (wrap_toks (\<not> is_bare e) (expr_toks e))
    \<and> idsafe (wrap_text (\<not> is_bare e) (write_expr [] e) @ k)"
proof (cases "is_bare e")
  case True
  then obtain v where e: "e = Number v" by (cases e) auto
  with assms have l: "lexes numsafe (write_number [] v) [TNumber v]" "num_text (write_number [] v)"
    using lexes_number [of v] by auto
  then obtain c t where c: "write_number [] v = c # t" "is_digit c"
    by (auto simp: num_text_def neq_Nil_conv)
  with l True e show ?thesis by (simp add: wrap_text_def wrap_toks_def digit_idsafe)
next
  case False
  have "lexes (\<lambda>_. True) (write_expr [] e @ [41]) (expr_toks e @ [TRParen])"
    by (rule lexes_comp [OF assms(1) lexes_sym]) (simp_all add: symbol_token_def)
  then have "lexes (\<lambda>_. True) (40 # write_expr [] e @ [41]) (TLParen # expr_toks e @ [TRParen])"
    by (rule lexes_sym_cons [rotated]) (simp add: symbol_token_def)
  then have "lexes numsafe (40 # write_expr [] e @ [41]) (TLParen # expr_toks e @ [TRParen])"
    by (rule lexes_weaken) simp
  with False show ?thesis
    by (simp add: wrap_text_def wrap_toks_def idsafe_def is_ident_char_def is_alpha_def)
qed

definition sides_follow :: "sides \<Rightarrow> ustring \<Rightarrow> bool" where
  "sides_follow s k = (case s of SNumeric _ \<Rightarrow> numsafe k | _ \<Rightarrow> idsafe k)"

lemma lexes_op:
  assumes "lexes C s ws" shows "lexes C (op_text b @ s) (op_token b # ws)"
  using assms
  by (cases b) (auto intro!: lexes_space_cons lexes_sym_cons simp: symbol_token_def)

lemma lexes_fn:
  assumes "lexes C s ws" shows "lexes C (fn_text k @ s) (TIdent (fn_name k) # TLParen # ws)"
proof -
  have p: "lexes C (40 # s) (TLParen # ws)"
    using assms by (rule lexes_sym_cons [rotated]) (simp add: symbol_token_def)
  have "lexes C (fn_name k @ (40 # s)) ([TIdent (fn_name k)] @ (TLParen # ws))"
    by (rule lexes_comp [OF lexes_ident p]; cases k)
      (simp_all add: is_ident_char_def is_alpha_def idsafe_def)
  then show ?thesis by (cases k) simp_all
qed

lemma lexes_close:
  assumes "lexes safe s ws" and "symbol_token c = Some t" and "c \<in> {41, 125}"
    and "lexes C s' ws'"
  shows "lexes C (s @ c # s') (ws @ t # ws')"
proof (rule lexes_comp [OF assms(1) lexes_sym_cons [OF assms(2,4)]])
  show "safe ((c # s') @ k)" for k using assms(3) by auto
qed

lemma expr_lexes:
  shows "wf_expr e \<Longrightarrow> finite_expr e \<Longrightarrow> lexes safe (write_expr [] e) (expr_toks e)"
    and "wf_sides s \<Longrightarrow> finite_sides s \<Longrightarrow> lexes (sides_follow s) (sides_text s) (sides_toks s)"
    and "wf_term t \<Longrightarrow> finite_term t \<Longrightarrow> lexes safe (write_term [] t) (term_toks t)"
    and "(\<forall>e \<in> set es. wf_expr e \<and> finite_expr e) \<Longrightarrow> (\<And>i. b = (0 < i) \<Longrightarrow>
      lexes safe (write_items i [] es) (items_toks b es))"
proof (induction e and s and t and b es rule: expr_toks_sides_toks_term_toks_items_toks.induct)
  case (1 v)
  then show ?case using lexes_number [of v] by (auto simp: safe_def intro: lexes_weaken)
next
  case (2 s)
  then show ?case by (auto intro!: lexes_weaken [OF lexes_ident] simp: safe_def)
next
  case (4 es ms)
  then have "lexes safe (write_items 0 [] es) (items_toks False es)" by auto
  moreover have "lexes safe (write_modifiers [] ms) (modifiers_toks ms)"
    using 4 by (intro lexes_modifiers) simp
  ultimately have "lexes safe (write_items 0 [] es @ 125 # write_modifiers [] ms)
      (items_toks False es @ TRBrace # modifiers_toks ms)"
    by (intro lexes_close) (simp_all add: symbol_token_def)
  then show ?case
    unfolding expr_text expr_toks.simps by (simp add: lexes_sym_cons symbol_token_def)
next
  case (5 e)
  then have "lexes safe (wrap_text (precedence e < 3) (write_expr [] e))
      (wrap_toks (precedence e < 3) (expr_toks e))" by (intro wrap_lexes) simp_all
  then show ?case
    unfolding expr_text expr_toks.simps by (simp add: lexes_sym_cons symbol_token_def)
next
  case (6 l b r)
  have r: "lexes safe (op_text b @ wrap_text (precedence r \<le> precedence (BinOp l b r)) (write_expr [] r))
      (op_token b # wrap_toks (precedence r \<le> precedence (BinOp l b r)) (expr_toks r))"
    using 6 by (intro lexes_op wrap_lexes) simp_all
  have l: "lexes safe (wrap_text (precedence l < precedence (BinOp l b r)) (write_expr [] l))
      (wrap_toks (precedence l < precedence (BinOp l b r)) (expr_toks l))"
    using 6 by (intro wrap_lexes) simp_all
  show ?case
    unfolding expr_text expr_toks.simps by (rule lexes_comp [OF l r]) (cases b; simp)
next
  case (7 k e)
  then have "lexes safe (write_expr [] e @ 41 # []) (expr_toks e @ TRParen # [])"
    by (intro lexes_close) (simp_all add: symbol_token_def lexes_Nil)
  then show ?case unfolding expr_text expr_toks.simps by (simp add: lexes_fn)
next
  case (8 e)
  note op = operand_lexes [of e]
  have "lexes idsafe (U ''d'') [TIdent (U ''d'')]"
    by (rule lexes_ident) (simp_all add: is_ident_char_def is_alpha_def)
  from lexes_comp [OF this, of numsafe] op 8
  show ?case
    unfolding sides_text_def sides_toks.simps sides.case
    by (force intro: lexes_weaken simp: sides_follow_def)
next
  case 9
  have "lexes idsafe (U ''dF'') [TIdent (U ''dF'')]"
    by (rule lexes_ident) (simp_all add: is_ident_char_def is_alpha_def)
  then show ?case by (simp add: sides_text_def sides_follow_def)
next
  case 10
  have "lexes idsafe (U ''dc'') [TIdent (U ''dc'')]"
    by (rule lexes_ident) (simp_all add: is_ident_char_def is_alpha_def)
  then show ?case by (simp add: sides_text_def sides_follow_def)
next
  case (11 c s ms)
  let ?mods = "(if s \<in> {SFate, SCoin} \<and> ms \<noteq> [] then U '' '' else []) @ write_modifiers [] ms"
  have m: "lexes safe ?mods (modifiers_toks ms)"
    using 11 by (auto intro!: lexes_space_cons lexes_modifiers)
  have f: "sides_follow s (?mods @ k)" if "safe k" for k
    using modifiers_numsafe [of ms k] 11 that
    by (cases s; cases "ms = []")
      (auto simp: sides_follow_def safe_def numsafe_def idsafe_def is_ident_char_def is_alpha_def
        write_modifiers_def)
  have s: "lexes safe (sides_text s @ ?mods) (sides_toks s @ modifiers_toks ms)"
    by (rule lexes_comp [OF "11.IH"(2) m f]) (use 11 in simp_all)
  have d: "numsafe ((sides_text s @ ?mods) @ k)" for k
    by (cases s) (simp_all add: sides_text_def numsafe_def is_digit_def)
  have c: "lexes numsafe (wrap_text (\<not> is_bare c) (write_expr [] c)) (wrap_toks (\<not> is_bare c) (expr_toks c))"
    using operand_lexes [of c] 11 by simp
  show ?case
    unfolding term_text term_toks.simps by (rule lexes_comp [OF c s d])
next
  case (13 b e es)
  have rest: "lexes safe (write_items (i + 1) [] es) (items_toks True es)" using 13 by simp
  have "lexes safe (write_expr [] e @ write_items (i + 1) [] es) (expr_toks e @ items_toks True es)"
  proof (rule lexes_comp [OF "13.IH"(1) rest])
    show "safe (write_items (i + 1) [] es @ k)" if "safe k" for k
      using that by (cases es) (simp_all add: items_text del: write_items.simps(2))
  qed (use 13 in simp_all)
  then show ?case
    using 13 by (auto simp: items_text symbol_token_def simp del: write_items.simps(2) intro!: lexes_sym_cons lexes_space_cons)
qed (simp_all add: lexes_Nil)

lemma print_lexes:
  assumes "wf_expr e" and "finite_expr e"
  shows "\<exists>ts. tokenize (print_expr e) = Inr ts \<and> erase ts = Z (expr_toks e @ [TEof])"
proof -
  have "lx (print_expr e @ []) = Some (Z (expr_toks e) @ [(TEof, 0)])"
    using expr_lexes(1) [OF assms] by (simp add: lexes_def print_expr_def lx_Nil del: append_Nil2)
  then show ?thesis by (auto simp: lx_def tokenize_def split: sum.splits)
qed

section \<open>The parser builds the tree from its tokens\<close>

text \<open>A parsing function settles on a result when it returns it from some fuel on.\<close>

definition settles :: "(nat \<Rightarrow> 'a parsed) \<Rightarrow> 'a \<times> toks \<Rightarrow> bool" where
  "settles F r \<longleftrightarrow> eventually (\<lambda>n. F n = Inr r) sequentially"

lemma settles_Suc: "settles (\<lambda>n. F (Suc n)) r \<Longrightarrow> settles F r"
  using eventually_sequentially_Suc [of "\<lambda>n. F n = Inr r"] by (simp add: settles_def)

lemma settles_const: "settles (\<lambda>n. Inr r) r"
  by (simp add: settles_def)

lemma settles_bind:
  assumes "settles F (a, ts)" and "settles (\<lambda>n. G n a ts) r"
  shows "settles (\<lambda>n. case F n of Inl e \<Rightarrow> Inl e | Inr (a, ts) \<Rightarrow> G n a ts) r"
  using assms unfolding settles_def by eventually_elim simp

lemma settles_map:
  assumes "settles F (a, ts)" shows "settles (\<lambda>n. map_parsed f (F n)) (f a, ts)"
  using assms unfolding settles_def by eventually_elim (simp add: map_parsed_def)

lemma settles_expect:
  "settles (\<lambda>n. G n) r \<Longrightarrow> peek ts = t \<Longrightarrow>
   settles (\<lambda>n. case expect t ts of Inl e \<Rightarrow> Inl e | Inr (_, ts1) \<Rightarrow> G n) r"
  by (simp add: expect_def)

definition stop :: "toks \<Rightarrow> bool" where
  "stop us \<longleftrightarrow> us \<noteq> [] \<and>
     peek us \<in> {TPlus, TMinus, TStar, TSlash, TRParen, TRBrace, TComma, TEof}"

lemma advance_Z [simp]: "us \<noteq> [] \<Longrightarrow> advance ((t, 0) # us) = us"
  by (cases us) (simp_all add: advance_def)

lemma starts_Cons [simp]:
  "peek_starts_with_d ((TIdent s, p) # ts) = (s \<noteq> [] \<and> is_d (hd s))"
  "peek_starts_with_d ((TNumber v, p) # ts) = False"
  "peek_starts_with_d ((TLParen, p) # ts) = False"
  "peek_starts_with_d ((TLBrace, p) # ts) = False"
  by (auto simp: peek_starts_with_d_def is_d_def)

lemma stop_not_d: "stop us \<Longrightarrow> \<not> peek_starts_with_d us"
  by (auto simp: stop_def peek_starts_with_d_def)

lemma stop_Cons [simp]:
  "stop ((TPlus, p) # us)" "stop ((TMinus, p) # us)" "stop ((TStar, p) # us)"
  "stop ((TSlash, p) # us)" "stop ((TRParen, p) # us)" "stop ((TRBrace, p) # us)"
  "stop ((TComma, p) # us)" "stop ((TEof, p) # us)"
  by (simp_all add: stop_def)

lemma stop_nonempty [simp]: "stop us \<Longrightarrow> us \<noteq> []"
  by (simp add: stop_def)

subsection \<open>Modifiers\<close>

lemma f_to_u32_int: "n \<le> u32_max \<Longrightarrow> f_to_u32 (f64_of_int (int n)) = n"
  by (simp add: f64_of_int_exact f_to_u32_def rat_trunc_def u32_max_def)

lemma whole_u32:
  "n \<le> u32_max \<Longrightarrow> \<not> flt (f64_of_int (int n)) (Fin 0) \<and>
   feq (ffract binary64 (f64_of_int (int n))) (Fin 0)"
  by (simp add: f64_of_int_exact u32_max_def ffract_def fsub_def fadd_def ftrunc_def
      rat_trunc_def signed_zero_def)

lemma f_to_i64_lit: "int_lit n \<Longrightarrow> f_to_i64 (f64_of_int n) = n"
  by (simp add: int_lit_def f64_of_int_def)

text \<open>What may follow a modifier: another one, or the end of the primary.\<close>

definition after_modifier :: "toks \<Rightarrow> bool" where
  "after_modifier us \<longleftrightarrow> us \<noteq> [] \<and> (stop us \<or> (\<exists>s. peek us = TIdent s))"

lemma count_parses:
  "n \<le> u32_max \<Longrightarrow> us \<noteq> [] \<Longrightarrow>
   parse_optional_count d ((TNumber (f64_of_int (int n)), 0) # us) = Inr (n, us)"
  using whole_u32 [of n] by (simp add: parse_optional_count_def f_to_u32_int)

lemma int_parses:
  "int_lit n \<Longrightarrow> us \<noteq> [] \<Longrightarrow> parse_required_int ((TNumber (f64_of_int n), 0) # us) = Inr (n, us)"
  by (simp add: parse_required_int_def f_to_i64_lit)

lemma condition_parses:
  "wf_condition c \<Longrightarrow> after_modifier us \<Longrightarrow>
   parse_condition_or_default (Z (condition_toks c) @ us) = Inr (c, us)"
  by (cases c)
    (auto simp: parse_condition_or_default_def Let_def int_parses map_parsed_def f_to_i64_lit
      after_modifier_def stop_def)

lemma parse_modifier_keywords:
  "parse_modifier (U ''kh'') ts = map_parsed KeepHighest (parse_optional_count 1 ts)"
  "parse_modifier (U ''kl'') ts = map_parsed KeepLowest (parse_optional_count 1 ts)"
  "parse_modifier (U ''dh'') ts = map_parsed DropHighest (parse_optional_count 1 ts)"
  "parse_modifier (U ''dl'') ts = map_parsed DropLowest (parse_optional_count 1 ts)"
  "parse_modifier (U ''r'') ts = map_parsed Reroll (parse_condition_or_default ts)"
  "parse_modifier (U ''rr'') ts = map_parsed RerollRecursive (parse_condition_or_default ts)"
  "parse_modifier (U ''x'') ts = map_parsed Explode (parse_condition_or_default ts)"
  "parse_modifier (U ''xo'') ts = map_parsed ExplodeOnce (parse_condition_or_default ts)"
  "parse_modifier (U ''min'') ts = map_parsed MinMod (parse_required_int ts)"
  "parse_modifier (U ''max'') ts = map_parsed MaxMod (parse_required_int ts)"
  "parse_modifier (U ''cs'') ts = map_parsed CountSuccesses (parse_condition_or_default ts)"
  "parse_modifier (U ''cf'') ts = map_parsed CountFailures (parse_condition_or_default ts)"
  "parse_modifier (U ''sf'') ts = map_parsed SubtractFailureValue (parse_condition_or_default ts)"
  "parse_modifier (U ''eo'') ts = Inr (EvenMod, ts)"
  "parse_modifier (U ''od'') ts = Inr (OddMod, ts)"
  "parse_modifier (U ''ms'') ts = map_parsed MarginOfSuccess (parse_required_int ts)"
  by (simp_all add: parse_modifier_def)

lemma keyword_names:
  "modifier_keyword (U ''kh'') = Some (U ''kh'')"
  "modifier_keyword (U ''kl'') = Some (U ''kl'')"
  "modifier_keyword (U ''dh'') = Some (U ''dh'')"
  "modifier_keyword (U ''dl'') = Some (U ''dl'')"
  "modifier_keyword (U ''r'') = Some (U ''r'')"
  "modifier_keyword (U ''rr'') = Some (U ''rr'')"
  "modifier_keyword (U ''x'') = Some (U ''x'')"
  "modifier_keyword (U ''xo'') = Some (U ''xo'')"
  "modifier_keyword (U ''min'') = Some (U ''min'')"
  "modifier_keyword (U ''max'') = Some (U ''max'')"
  "modifier_keyword (U ''cs'') = Some (U ''cs'')"
  "modifier_keyword (U ''cf'') = Some (U ''cf'')"
  "modifier_keyword (U ''sf'') = Some (U ''sf'')"
  "modifier_keyword (U ''eo'') = Some (U ''eo'')"
  "modifier_keyword (U ''od'') = Some (U ''od'')"
  "modifier_keyword (U ''ms'') = Some (U ''ms'')"
  by (simp_all add: modifier_keyword_def modifier_keywords_def to_lower_def)

lemma modifier_parses:
  assumes "wf_modifier m" and "after_modifier us"
  shows "\<exists>kw. modifier_toks m = TIdent kw # tl (modifier_toks m) \<and> modifier_keyword kw = Some kw \<and>
    parse_modifier kw (Z (tl (modifier_toks m)) @ us) = Inr (m, us)"
proof -
  have us: "us \<noteq> []" using assms(2) by (simp add: after_modifier_def)
  let ?kw = "fst (modifier_parts m)"
  have "modifier_toks m = TIdent ?kw # tl (modifier_toks m)"
    by (simp add: modifier_toks_def split: prod.split)
  moreover have "modifier_keyword ?kw = Some ?kw"
    by (cases m) (simp_all only: modifier_parts.simps fst_conv keyword_names)
  moreover have "parse_modifier ?kw (Z (tl (modifier_toks m)) @ us) = Inr (m, us)"
    using assms(1) us
    by (cases m)
      (simp_all only: modifier_toks_def modifier_parts.simps fst_conv prod.case parse_modifier_keywords
        option.case list.sel append_Nil append_Nil2 count_parses condition_parses [OF _ assms(2)]
        wf_modifier.simps int_parses Z_simps append_Cons map_parsed_def sum.case not_False_eq_True)
  ultimately show ?thesis by blast
qed

lemma modifiers_parse:
  "list_all wf_modifier ms \<Longrightarrow> stop us \<Longrightarrow>
   settles (\<lambda>n. parse_modifiers n (Z (modifiers_toks ms) @ us)) (ms, us)"
proof (induction ms)
  case Nil
  then show ?case
    by - (rule settles_Suc, auto simp: settles_def parse_modifiers.simps modifiers_toks_def stop_def)
next
  case (Cons m ms)
  have after: "after_modifier (Z (modifiers_toks ms) @ us)"
  proof (cases ms)
    case (Cons m' ms')
    obtain kw rest where "modifier_toks m' = TIdent kw # rest"
      by (cases "modifier_parts m'") (auto simp: modifier_toks_def)
    then show ?thesis using Cons
      by (simp add: modifiers_toks_def after_modifier_def)
  qed (use Cons.prems in \<open>simp add: modifiers_toks_def after_modifier_def\<close>)
  from modifier_parses [OF _ after] Cons.prems obtain kw where
    kw: "modifier_toks m = TIdent kw # tl (modifier_toks m)" "modifier_keyword kw = Some kw"
    "parse_modifier kw (Z (tl (modifier_toks m)) @ Z (modifiers_toks ms) @ us)
      = Inr (m, Z (modifiers_toks ms) @ us)" by auto
  have ts: "Z (modifiers_toks (m # ms)) @ us =
      (TIdent kw, 0) # Z (tl (modifier_toks m)) @ Z (modifiers_toks ms) @ us"
    using arg_cong [OF kw(1), of Z] by (simp add: modifiers_toks_def)
  have "settles (\<lambda>n. map_parsed (\<lambda>ms. m # ms) (parse_modifiers n (Z (modifiers_toks ms) @ us))) (m # ms, us)"
    using Cons by (intro settles_map) simp
  moreover have "Z (tl (modifier_toks m)) @ Z (modifiers_toks ms) @ us \<noteq> []"
    using Cons.prems by auto
  ultimately show ?case
    unfolding ts by - (rule settles_Suc, simp add: parse_modifiers.simps kw(2,3))
qed

subsection \<open>The grammar's ranks\<close>

definition times_free :: "toks \<Rightarrow> bool" where
  "times_free us \<longleftrightarrow> peek us \<noteq> TStar \<and> peek us \<noteq> TSlash"

lemma times_free_Cons [simp]:
  "times_free ((t, p) # us) = (t \<noteq> TStar \<and> t \<noteq> TSlash)"
  by (simp add: times_free_def)

lemma settles_primary:
  "settles (\<lambda>n. parse_dice_or_primary n ts) r \<Longrightarrow> peek ts \<noteq> TMinus \<Longrightarrow>
   settles (\<lambda>n. parse_unary n ts) r"
  by (rule settles_Suc) (simp add: parse_unary.simps)

lemma settles_neg:
  "settles (\<lambda>n. parse_unary n ts) (e, us) \<Longrightarrow> ts \<noteq> [] \<Longrightarrow>
   settles (\<lambda>n. parse_unary n ((TMinus, 0) # ts)) (Neg e, us)"
  by (rule settles_Suc) (simp add: parse_unary.simps settles_map [where f = Neg])

lemma settles_term:
  "settles (\<lambda>n. parse_unary n ts) (e, us) \<Longrightarrow> settles (\<lambda>n. parse_term_loop n e us) r \<Longrightarrow>
   settles (\<lambda>n. parse_term n ts) r"
  by (rule settles_Suc) (simp add: parse_term.simps settles_bind)

lemma settles_term_end: "times_free us \<Longrightarrow> settles (\<lambda>n. parse_term_loop n e us) (e, us)"
  by (rule settles_Suc, cases "peek us") (simp_all add: parse_term_loop.simps times_free_def settles_const)

lemma settles_times:
  assumes "settles (\<lambda>n. parse_unary n ts) (r, us)" and "ts \<noteq> []" and "b \<in> {Mul, Div}"
    and "settles (\<lambda>n. parse_term_loop n (BinOp l b r) us) res"
  shows "settles (\<lambda>n. parse_term_loop n l ((op_token b, 0) # ts)) res"
  using assms by - (rule settles_Suc, auto simp: parse_term_loop.simps intro: settles_bind)

lemma settles_expr:
  "settles (\<lambda>n. parse_term n ts) (e, us) \<Longrightarrow> settles (\<lambda>n. parse_expr_loop n e us) r \<Longrightarrow>
   settles (\<lambda>n. parse_expr n ts) r"
  by (rule settles_Suc) (simp add: parse_expr.simps settles_bind)

lemma settles_plus:
  assumes "settles (\<lambda>n. parse_term n ts) (r, us)" and "ts \<noteq> []" and "b \<in> {Add, Sub}"
    and "settles (\<lambda>n. parse_expr_loop n (BinOp l b r) us) res"
  shows "settles (\<lambda>n. parse_expr_loop n l ((op_token b, 0) # ts)) res"
  using assms by - (rule settles_Suc, auto simp: parse_expr_loop.simps intro: settles_bind)

lemma settles_expr_end:
  "peek us \<notin> {TPlus, TMinus} \<Longrightarrow> settles (\<lambda>n. parse_expr_loop n e us) (e, us)"
  by (rule settles_Suc, cases "peek us") (simp_all add: parse_expr_loop.simps settles_const)

text \<open>A tree read where the grammar expects a unary, a term or an expression: its own operators
  are read, and the loops go on from it.\<close>

definition reads_unary :: "token list \<Rightarrow> expr \<Rightarrow> bool" where
  "reads_unary ws e \<longleftrightarrow> (\<forall>us. stop us \<longrightarrow> settles (\<lambda>n. parse_unary n (Z ws @ us)) (e, us))"

definition reads_term :: "token list \<Rightarrow> expr \<Rightarrow> bool" where
  "reads_term ws e \<longleftrightarrow> (\<forall>us r. stop us \<longrightarrow> settles (\<lambda>n. parse_term_loop n e us) r \<longrightarrow>
     settles (\<lambda>n. parse_term n (Z ws @ us)) r)"

definition reads_expr :: "token list \<Rightarrow> expr \<Rightarrow> bool" where
  "reads_expr ws e \<longleftrightarrow> (\<forall>us r. stop us \<longrightarrow> times_free us \<longrightarrow>
     settles (\<lambda>n. parse_expr_loop n e us) r \<longrightarrow> settles (\<lambda>n. parse_expr n (Z ws @ us)) r)"

lemma reads_unaryD: "reads_unary ws e \<Longrightarrow> stop us \<Longrightarrow> settles (\<lambda>n. parse_unary n (Z ws @ us)) (e, us)"
  by (simp add: reads_unary_def)

lemma reads_termD:
  "reads_term ws e \<Longrightarrow> stop us \<Longrightarrow> settles (\<lambda>n. parse_term_loop n e us) r \<Longrightarrow>
   settles (\<lambda>n. parse_term n (Z ws @ us)) r"
  unfolding reads_term_def by blast

lemma reads_exprD:
  "reads_expr ws e \<Longrightarrow> stop us \<Longrightarrow> times_free us \<Longrightarrow> settles (\<lambda>n. parse_expr_loop n e us) r \<Longrightarrow>
   settles (\<lambda>n. parse_expr n (Z ws @ us)) r"
  unfolding reads_expr_def by blast

lemma reads_term_unary: "reads_unary ws e \<Longrightarrow> reads_term ws e"
  unfolding reads_unary_def reads_term_def using settles_term by blast

lemma reads_expr_term: "reads_term ws e \<Longrightarrow> reads_expr ws e"
  unfolding reads_term_def reads_expr_def
  using settles_expr settles_term_end by blast

definition parses :: "expr \<Rightarrow> bool" where
  "parses e \<longleftrightarrow>
     (precedence e = 3 \<longrightarrow> reads_unary (expr_toks e) e) \<and>
     (2 \<le> precedence e \<longrightarrow> reads_term (expr_toks e) e) \<and>
     reads_expr (expr_toks e) e"

lemma parses_unary: "reads_unary (expr_toks e) e \<Longrightarrow> parses e"
  by (simp add: parses_def reads_term_unary reads_expr_term)

lemma parses_parens:
  assumes "parses e" and "us \<noteq> []"
  shows "settles (\<lambda>n. parse_parens n ((TLParen, 0) # Z (expr_toks e) @ (TRParen, 0) # us)) (e, us)"
proof -
  have "settles (\<lambda>n. parse_expr n (Z (expr_toks e) @ (TRParen, 0) # us)) (e, (TRParen, 0) # us)"
  proof -
    have "settles (\<lambda>n. parse_expr_loop n e ((TRParen, 0) # us)) (e, (TRParen, 0) # us)"
      by (rule settles_expr_end) simp
    moreover have "reads_expr (expr_toks e) e" using assms(1) by (simp add: parses_def)
    ultimately show ?thesis by (intro reads_exprD) simp_all
  qed
  moreover have "settles (\<lambda>n. case expect TRParen ((TRParen, 0) # us) of Inl e \<Rightarrow> Inl e
      | Inr (_, ts2) \<Rightarrow> Inr (e, ts2)) (e, us)"
    using assms(2) by (simp add: expect_def settles_const)
  ultimately show ?thesis
    using assms(2) by - (rule settles_Suc, simp add: parse_parens.simps settles_bind)
qed

lemma parses_wrapped:
  assumes "parses e" shows "reads_unary (wrap_toks True (expr_toks e)) e"
  unfolding reads_unary_def
proof (intro allI impI)
  fix us assume us: "stop us"
  let ?ts = "Z (wrap_toks True (expr_toks e)) @ us"
  have "settles (\<lambda>n. case parse_parens n ?ts of Inl e \<Rightarrow> Inl e | Inr (inner, ts1) \<Rightarrow>
      if peek_starts_with_d ts1 then parse_dice_term n inner (consume_leading_d ts1)
      else Inr (inner, ts1)) (e, us)"
  proof (rule settles_bind)
    show "settles (\<lambda>n. parse_parens n ?ts) (e, us)"
      using parses_parens [OF assms stop_nonempty [OF us]] by (simp add: wrap_toks_def)
  qed (simp add: stop_not_d [OF us] settles_const)
  then have "settles (\<lambda>n. parse_dice_or_primary n ?ts) (e, us)"
    by - (rule settles_Suc, simp add: parse_dice_or_primary.simps wrap_toks_def)
  then show "settles (\<lambda>n. parse_unary n ?ts) (e, us)"
    by (rule settles_primary) (simp add: wrap_toks_def)
qed

lemma reads_unary_wrap:
  "parses e \<Longrightarrow> w \<or> precedence e = 3 \<Longrightarrow> reads_unary (wrap_toks w (expr_toks e)) e"
  using parses_wrapped by (cases w) (auto simp: parses_def wrap_toks_def)

lemma reads_term_wrap:
  "parses e \<Longrightarrow> w \<or> 2 \<le> precedence e \<Longrightarrow> reads_term (wrap_toks w (expr_toks e)) e"
  using reads_term_unary [OF parses_wrapped] by (cases w) (auto simp: parses_def wrap_toks_def)

lemma precedence_bounds: "precedence e \<in> {1, 2, 3}"
  by (cases e rule: precedence.cases) auto

lemma parses_binop:
  assumes "parses l" and "parses r" shows "parses (BinOp l b r)"
proof (cases "b \<in> {Add, Sub}")
  case True
  then have p: "precedence (BinOp l b r) = 1" by auto
  have "reads_expr (expr_toks (BinOp l b r)) (BinOp l b r)"
    unfolding reads_expr_def
  proof (intro allI impI)
    fix us res
    let ?r = "Z (wrap_toks (precedence r \<le> 1) (expr_toks r))"
    assume us: "stop us" "times_free us" and loop: "settles (\<lambda>n. parse_expr_loop n (BinOp l b r) us) res"
    have "reads_term (wrap_toks (precedence r \<le> 1) (expr_toks r)) r"
      using precedence_bounds [of r] by (intro reads_term_wrap assms(2)) auto
    then have "settles (\<lambda>n. parse_term n (?r @ us)) (r, us)"
      using us settles_term_end by (intro reads_termD)
    then have "settles (\<lambda>n. parse_expr_loop n l ((op_token b, 0) # ?r @ us)) res"
      by (rule settles_plus [OF _ _ True loop]) (use us(1) in auto)
    moreover have "stop ((op_token b, 0) # ?r @ us)" "times_free ((op_token b, 0) # ?r @ us)"
      using True by auto
    moreover have "reads_expr (expr_toks l) l" using assms(1) by (simp add: parses_def)
    ultimately have "settles (\<lambda>n. parse_expr n (Z (expr_toks l) @ (op_token b, 0) # ?r @ us)) res"
      by (intro reads_exprD)
    moreover have "\<not> precedence l < precedence (BinOp l b r)"
      using p precedence_bounds [of l] by auto
    ultimately show "settles (\<lambda>n. parse_expr n (Z (expr_toks (BinOp l b r)) @ us)) res"
      using p by (simp add: wrap_toks_def)
  qed
  with p show ?thesis by (simp add: parses_def)
next
  case False
  then have b: "b \<in> {Mul, Div}" and p: "precedence (BinOp l b r) = 2" by (cases b; auto)+
  have "reads_term (expr_toks (BinOp l b r)) (BinOp l b r)"
    unfolding reads_term_def
  proof (intro allI impI)
    fix us res
    let ?r = "Z (wrap_toks (precedence r \<le> 2) (expr_toks r))"
    let ?l = "wrap_toks (precedence l < 2) (expr_toks l)"
    assume us: "stop us" and loop: "settles (\<lambda>n. parse_term_loop n (BinOp l b r) us) res"
    have "reads_unary (wrap_toks (precedence r \<le> 2) (expr_toks r)) r"
      using precedence_bounds [of r] by (intro reads_unary_wrap assms(2)) auto
    then have "settles (\<lambda>n. parse_unary n (?r @ us)) (r, us)"
      using us by (intro reads_unaryD)
    then have "settles (\<lambda>n. parse_term_loop n l ((op_token b, 0) # ?r @ us)) res"
      by (rule settles_times [OF _ _ b loop]) (use us in auto)
    moreover have "stop ((op_token b, 0) # ?r @ us)" using b by auto
    moreover have "reads_term ?l l"
      using precedence_bounds [of l] by (intro reads_term_wrap assms(1)) auto
    ultimately have "settles (\<lambda>n. parse_term n (Z ?l @ (op_token b, 0) # ?r @ us)) res"
      by (intro reads_termD)
    then show "settles (\<lambda>n. parse_term n (Z (expr_toks (BinOp l b r)) @ us)) res"
      using p by simp
  qed
  with p show ?thesis by (simp add: parses_def reads_expr_term)
qed
subsection \<open>Every tree\<close>

lemma parses_exprD:
  assumes "parses e" "stop us" "times_free us" "peek us \<notin> {TPlus, TMinus}"
  shows "settles (\<lambda>n. parse_expr n (Z (expr_toks e) @ us)) (e, us)"
proof -
  have "reads_expr (expr_toks e) e" using assms(1) by (simp add: parses_def)
  then show ?thesis by (rule reads_exprD) (use assms settles_expr_end in simp_all)
qed

lemma reads_atom:
  assumes "settles (\<lambda>n. parse_atom n ts) r"
    and "\<not> peek_starts_with_d ts" and "peek ts \<notin> {TMinus, TLParen}" and "\<And>v. peek ts \<noteq> TNumber v"
  shows "settles (\<lambda>n. parse_unary n ts) r"
proof -
  have "settles (\<lambda>n. parse_dice_or_primary n ts) r"
    using assms by - (rule settles_Suc, cases "peek ts"; auto simp: parse_dice_or_primary.simps)
  then show ?thesis using assms(3) by (intro settles_primary) auto
qed

lemma parses_number: "parses (Number v)"
proof (rule parses_unary, unfold reads_unary_def, intro allI impI)
  fix us assume us: "stop us"
  have "settles (\<lambda>n. parse_dice_or_primary n ((TNumber v, 0) # us)) (Number v, us)"
    using stop_not_d [OF us] us
    by - (rule settles_Suc, simp add: parse_dice_or_primary.simps settles_const)
  then show "settles (\<lambda>n. parse_unary n (Z (expr_toks (Number v)) @ us)) (Number v, us)"
    by (simp add: settles_primary)
qed

lemma parses_placeholder:
  assumes "wf_expr (Placeholder s)" shows "parses (Placeholder s)"
proof (rule parses_unary, unfold reads_unary_def, intro allI impI)
  fix us assume us: "stop us"
  have "settles (\<lambda>n. parse_atom n ((TIdent s, 0) # us)) (Placeholder s, us)"
    using assms us
    by - (rule settles_Suc, simp add: parse_atom.simps math_names_def settles_const)
  then show "settles (\<lambda>n. parse_unary n (Z (expr_toks (Placeholder s)) @ us)) (Placeholder s, us)"
    using assms by (simp add: reads_atom)
qed

lemma parses_neg: "parses e \<Longrightarrow> parses (Neg e)"
proof (rule parses_unary, unfold reads_unary_def, intro allI impI)
  fix us assume e: "parses e" and us: "stop us"
  have "reads_unary (wrap_toks (precedence e < 3) (expr_toks e)) e"
    using precedence_bounds [of e] by (intro reads_unary_wrap e) auto
  from reads_unaryD [OF this us] show "settles (\<lambda>n. parse_unary n (Z (expr_toks (Neg e)) @ us)) (Neg e, us)"
    using us by (simp add: settles_neg)
qed

lemma parses_math_fn:
  assumes "parses e" shows "parses (MathFn k e)"
proof (rule parses_unary, unfold reads_unary_def, intro allI impI)
  fix us assume us: "stop us"
  let ?body = "Z (expr_toks e) @ (TRParen, 0) # us"
  have e: "settles (\<lambda>n. parse_expr n ?body) (e, (TRParen, 0) # us)"
    using assms by (intro parses_exprD) simp_all
  have "settles (\<lambda>n. parse_math_fn n k ((TLParen, 0) # ?body)) (MathFn k e, us)"
    using us e
    by - (rule settles_Suc, simp add: parse_math_fn.simps expect_def settles_def,
      erule eventually_mono, simp add: expect_def)
  then have "settles (\<lambda>n. parse_atom n ((TIdent (fn_name k), 0) # (TLParen, 0) # ?body)) (MathFn k e, us)"
    by - (rule settles_Suc, cases k; simp add: parse_atom.simps to_lower_def)
  then show "settles (\<lambda>n. parse_unary n (Z (expr_toks (MathFn k e)) @ us)) (MathFn k e, us)"
    by (simp, rule_tac reads_atom) (simp_all, cases k, simp_all add: is_d_def)
qed

lemma parses_items:
  assumes "\<And>e. e \<in> set es \<Longrightarrow> parses e" and "us \<noteq> []"
  shows "settles (\<lambda>n. parse_pool_items n (Z (items_toks True es) @ (TRBrace, 0) # us)) (es, (TRBrace, 0) # us)"
  using assms(1)
proof (induction es)
  case Nil
  show ?case by (rule settles_Suc) (simp add: parse_pool_items.simps settles_const)
next
  case (Cons e es)
  let ?rest = "Z (items_toks True es) @ (TRBrace, 0) # us"
  have stop: "stop ?rest" "times_free ?rest" "peek ?rest \<notin> {TPlus, TMinus}" by (cases es; simp)+
  have e: "settles (\<lambda>n. parse_expr n (Z (expr_toks e) @ ?rest)) (e, ?rest)"
    using Cons.prems stop by (intro parses_exprD) simp_all
  have "settles (\<lambda>n. map_parsed ((#) e) (parse_pool_items n ?rest)) (e # es, (TRBrace, 0) # us)"
    using Cons by (intro settles_map [where f = "(#) e"]) simp
  from settles_bind [OF e, of "\<lambda>n item ts1. map_parsed ((#) item) (parse_pool_items n ts1)", OF this]
  show ?case
    by - (rule settles_Suc, simp add: parse_pool_items.simps)
qed

lemma parses_pool:
  assumes "\<And>e. e \<in> set es \<Longrightarrow> parses e" and "es \<noteq> []" and "list_all wf_modifier ms"
  shows "parses (Pool es ms)"
proof (rule parses_unary, unfold reads_unary_def, intro allI impI)
  fix us assume us: "stop us"
  obtain e es' where es: "es = e # es'" using assms(2) by (cases es) auto
  let ?mods = "Z (modifiers_toks ms) @ us"
  let ?rest = "Z (items_toks True es') @ (TRBrace, 0) # ?mods"
  have ne: "?mods \<noteq> []" using us by auto
  have stop: "stop ?rest" "times_free ?rest" "peek ?rest \<notin> {TPlus, TMinus}" by (cases es'; simp)+
  have e: "settles (\<lambda>n. parse_expr n (Z (expr_toks e) @ ?rest)) (e, ?rest)"
    using assms(1) es stop by (intro parses_exprD) simp_all
  have i: "settles (\<lambda>n. parse_pool_items n ?rest) (es', (TRBrace, 0) # ?mods)"
    using assms(1) es ne by (intro parses_items) auto
  have m: "settles (\<lambda>n. map_parsed (Pool es) (parse_modifiers n ?mods)) (Pool es ms, us)"
    using modifiers_parse [OF assms(3) us] by (rule settles_map)
  have "settles (\<lambda>n. parse_pool n ((TLBrace, 0) # Z (expr_toks e) @ ?rest)) (Pool es ms, us)"
  proof (rule settles_Suc)
    from e i m show "settles (\<lambda>n. parse_pool (Suc n) ((TLBrace, 0) # Z (expr_toks e) @ ?rest)) (Pool es ms, us)"
      unfolding settles_def
      by eventually_elim (use ne in \<open>simp add: parse_pool.simps expect_def es\<close>)
  qed
  then have "settles (\<lambda>n. parse_atom n ((TLBrace, 0) # Z (expr_toks e) @ ?rest)) (Pool es ms, us)"
    by - (rule settles_Suc, simp add: parse_atom.simps)
  then show "settles (\<lambda>n. parse_unary n (Z (expr_toks (Pool es ms)) @ us)) (Pool es ms, us)"
    using es by (simp add: reads_atom)
qed

text \<open>A dice term: the sides and the modifiers after the count.\<close>

definition sides_parse :: "sides \<Rightarrow> bool" where
  "sides_parse s \<longleftrightarrow> (case s of SNumeric e \<Rightarrow> parses e | _ \<Rightarrow> True)"

lemma settles_sides:
  assumes "sides_parse s" and "us \<noteq> []"
  shows "settles (\<lambda>n. parse_sides n (consume_leading_d (Z (sides_toks s) @ us))) (s, us)
    \<and> peek_starts_with_d (Z (sides_toks s) @ us)"
proof (cases s)
  case (SNumeric e)
  show ?thesis
  proof (cases "is_bare e")
    case True
    then obtain v where "e = Number v" by (cases e) auto
    with True SNumeric assms(2) show ?thesis
      by (auto simp: wrap_toks_def consume_leading_d_def is_d_def parse_sides.simps settles_const
          intro: settles_Suc)
  next
    case False
    have "settles (\<lambda>n. map_parsed SNumeric (parse_parens n ((TLParen, 0) # Z (expr_toks e) @ (TRParen, 0) # us)))
        (SNumeric e, us)"
      using assms SNumeric by (intro settles_map parses_parens) (simp_all add: sides_parse_def)
    with False SNumeric show ?thesis
      by - (rule conjI, rule settles_Suc,
        simp_all add: wrap_toks_def consume_leading_d_def is_d_def parse_sides.simps)
  qed
qed (use assms(2) in \<open>auto simp: consume_leading_d_def is_d_def parse_sides.simps settles_const
    to_lower_def intro: settles_Suc\<close>)

lemma parses_term:
  assumes "parses c" and "sides_parse s" and "list_all wf_modifier ms"
  shows "reads_unary (term_toks (DiceTerm c s ms)) (Dice (DiceTerm c s ms))"
  unfolding reads_unary_def
proof (intro allI impI)
  fix us assume us: "stop us"
  let ?t = "Dice (DiceTerm c s ms)"
  let ?mods = "Z (modifiers_toks ms) @ us"
  let ?sides = "Z (sides_toks s) @ ?mods"
  have ne: "?mods \<noteq> []" "?sides \<noteq> []" using us by auto
  note sd = settles_sides [OF assms(2) ne(1)]
  have "settles (\<lambda>n. map_parsed (\<lambda>mods. Dice (DiceTerm c s mods)) (parse_modifiers n ?mods)) (?t, us)"
    using modifiers_parse [OF assms(3) us] by (rule settles_map)
  then have tm: "settles (\<lambda>n. parse_dice_term n c (consume_leading_d ?sides)) (?t, us)"
    by - (rule settles_Suc, unfold parse_dice_term.simps, rule settles_bind [OF conjunct1 [OF sd]])
  have "settles (\<lambda>n. parse_dice_or_primary n (Z (wrap_toks (\<not> is_bare c) (expr_toks c)) @ ?sides)) (?t, us)"
  proof (cases "is_bare c")
    case True
    then obtain v where "c = Number v" by (cases c) auto
    with True tm sd ne show ?thesis
      by - (rule settles_Suc, simp add: parse_dice_or_primary.simps wrap_toks_def)
  next
    case False
    let ?ts = "(TLParen, 0) # Z (expr_toks c) @ (TRParen, 0) # ?sides"
    from parses_parens [OF assms(1) ne(2)] tm sd
    have "settles (\<lambda>n. case parse_parens n ?ts of Inl e \<Rightarrow> Inl e | Inr (inner, ts1) \<Rightarrow>
        if peek_starts_with_d ts1 then parse_dice_term n inner (consume_leading_d ts1)
        else Inr (inner, ts1)) (?t, us)"
      by - (rule settles_bind, assumption, simp)
    with False show ?thesis
      by - (rule settles_Suc, simp add: parse_dice_or_primary.simps wrap_toks_def)
  qed
  then show "settles (\<lambda>n. parse_unary n (Z (term_toks (DiceTerm c s ms)) @ us)) (?t, us)"
    by (simp add: settles_primary) (rule settles_primary, simp, cases c; simp add: wrap_toks_def)
qed

lemma wf_parses:
  shows "wf_expr e \<Longrightarrow> parses e"
    and "wf_sides s \<Longrightarrow> sides_parse s"
    and "wf_term t \<Longrightarrow> reads_unary (term_toks t) (Dice t)"
proof (induction e and s and t rule: wf_expr_wf_sides_wf_term.induct)
  case (3 t)
  then show ?case by (intro parses_unary) simp
next
  case (4 es ms)
  then show ?case by (intro parses_pool) simp_all
next
  case (11 c s ms)
  then show ?case by (intro parses_term) simp_all
qed (simp_all add: parses_number parses_placeholder parses_neg parses_binop parses_math_fn
    sides_parse_def)

section \<open>The round trip\<close>

lemma parse_print:
  assumes "wf_expr e" and "finite_expr e" shows "parse (print_expr e) = Inr e"
proof -
  obtain ts where ts: "tokenize (print_expr e) = Inr ts" "erase ts = Z (expr_toks e @ [TEof])"
    using print_lexes [OF assms] by blast
  have "settles (\<lambda>n. parse_expr n (erase ts)) (e, [(TEof, 0)])"
    using parses_exprD [OF wf_parses(1) [OF assms(1)], of "[(TEof, 0)]"] by (simp add: ts(2))
  then obtain n where "parse_expr n (erase ts) = Inr (e, [(TEof, 0)])"
    by (auto simp: settles_def eventually_sequentially)
  then obtain vs where n: "parse_expr n ts = Inr (e, vs)" and vs: "[(TEof, 0)] = erase vs"
    using parse_expr_erase by blast
  have "parse_expr (parse_fuel ts) ts = Inr (e, vs)"
    using parse_expr_det [of n ts "parse_fuel ts"] parse_expr_fueled [OF ts(1)] n by simp
  moreover have "peek vs = TEof" using vs by (metis peek_Cons peek_erase)
  ultimately show ?thesis by (simp add: parse_def ts(1))
qed

section \<open>Rewriting\<close>

fun wf_add :: "add_modifier \<Rightarrow> bool" where
  "wf_add (AddKeepHighest n) = (n \<le> u32_max)"
| "wf_add (AddKeepLowest n) = (n \<le> u32_max)"
| "wf_add (AddRerollOnceEq n) = int_lit n"
| "wf_add (AddMin n) = int_lit n"

text \<open>An edit within the types of the code, whose numbers are not negative and survive being read
  back as a float.\<close>

definition wf_edit :: "term_edit \<Rightarrow> bool" where
  "wf_edit ch \<longleftrightarrow> (\<forall>n. te_count ch = Some n \<longrightarrow> n \<le> u32_max) \<and> list_all wf_add (te_add ch)"

definition wf_editor :: "'s editor \<Rightarrow> bool" where
  "wf_editor edit \<longleftrightarrow> (\<forall>s v ch. fst (edit s v) = Some ch \<longrightarrow> wf_edit ch)"

lemma wf_added: "wf_add a \<Longrightarrow> wf_modifier (added a)"
  by (cases a) simp_all

lemma wf_apply_edit:
  assumes "wf_edit ch" and "wf_term t" and "finite_term t"
  shows "wf_term (apply_edit t ch) \<and> finite_term (apply_edit t ch)"
proof -
  obtain c s ms where t: "t = DiceTerm c s ms" by (cases t)
  have num: "num_lit (f64_of_int (int n)) \<and> is_finite (f64_of_int (int n))" if "n \<le> u32_max" for n
    using that representable_of_int [of "int n" binary64]
    by (simp add: num_lit_def u32_max_def f64_of_int_exact binary64_def)
  show ?thesis
    using assms num
    by (auto simp: t apply_edit_def wf_edit_def list_all_iff wf_added split: option.split)
qed

declare visit_terms.simps [simp] visit_items.simps [simp]

text \<open>An edited tree is still one the printer round-trips.\<close>

lemma visit_term_wf:
  assumes "wf_editor edit" and "wf_term t" and "finite_term t" and "visit_term edit st t = (st1, t1)"
  shows "wf_expr (t_count t1) \<and> finite_expr (t_count t1) \<and> list_all wf_modifier (t_mods t1)
    \<and> t_sides t1 = t_sides t"
proof -
  obtain a s where a: "edit (v_edit st) (view_of t (v_index st)) = (a, s)"
    by (cases "edit (v_edit st) (view_of t (v_index st))")
  have sides: "t_sides t1 = t_sides t" using visit_term_shape [OF assms(4)] by simp
  have "wf_term t1 \<and> finite_term t1"
  proof (cases a)
    case None
    with a assms show ?thesis by (simp add: visit_term_def Let_def)
  next
    case (Some ch)
    with assms(1) a have "wf_edit ch" unfolding wf_editor_def by (metis fst_conv)
    with Some a assms show ?thesis by (auto simp: visit_term_def Let_def wf_apply_edit)
  qed
  with sides show ?thesis by (cases t1) auto
qed

lemma visit_wf:
  shows "wf_editor edit \<Longrightarrow> wf_expr e \<Longrightarrow> finite_expr e \<Longrightarrow>
      wf_expr (snd (visit_terms edit st e)) \<and> finite_expr (snd (visit_terms edit st e))"
    and "wf_editor edit \<Longrightarrow> (\<forall>e \<in> set es. wf_expr e \<and> finite_expr e) \<Longrightarrow>
      (\<forall>e \<in> set (snd (visit_items edit st es)). wf_expr e \<and> finite_expr e)
        \<and> (snd (visit_items edit st es) = [] \<longleftrightarrow> es = [])"
proof (induction edit st e and edit st es rule: visit_terms_visit_items.induct)
  case (1 edit st t)
  obtain st1 t1 where v: "visit_term edit st t = (st1, t1)" by (cases "visit_term edit st t")
  obtain st2 c where c: "visit_terms edit st1 (t_count t1) = (st2, c)"
    by (cases "visit_terms edit st1 (t_count t1)")
  have t: "wf_term t" "finite_term t" using "1.prems" by auto
  note w = visit_term_wf [OF "1.prems"(1) t v]
  have wc: "wf_expr c \<and> finite_expr c" using "1.IH"(1) [OF v [symmetric] "1.prems"(1)] w c by simp
  show ?case
  proof (cases "t_sides t1")
    case (SNumeric s)
    obtain st3 s1 where s1: "visit_terms edit st2 s = (st3, s1)" by (cases "visit_terms edit st2 s")
    have "wf_expr s \<and> finite_expr s" using w SNumeric t by (cases t) auto
    then have "wf_expr s1 \<and> finite_expr s1"
      using "1.IH"(2) [OF v [symmetric] c [symmetric] SNumeric "1.prems"(1)] s1 by simp
    moreover have "snd (visit_terms edit st (Dice t)) = Dice (DiceTerm c (SNumeric s1) (t_mods t1))"
      using v c s1 SNumeric by simp
    ultimately show ?thesis using wc w by simp
  next
    case SFate
    then have "snd (visit_terms edit st (Dice t)) = Dice (DiceTerm c SFate (t_mods t1))" using v c by simp
    then show ?thesis using wc w by simp
  next
    case SCoin
    then have "snd (visit_terms edit st (Dice t)) = Dice (DiceTerm c SCoin (t_mods t1))" using v c by simp
    then show ?thesis using wc w by simp
  qed
next
  case (5 edit st l b r)
  obtain st1 l1 where l: "visit_terms edit st l = (st1, l1)" by (cases "visit_terms edit st l")
  obtain st2 r1 where r: "visit_terms edit st1 r = (st2, r1)" by (cases "visit_terms edit st1 r")
  show ?case using "5.prems" "5.IH"(1) "5.IH"(2) [OF l [symmetric]] l r by simp
next
  case (8 edit st e es)
  obtain st1 e1 where e: "visit_terms edit st e = (st1, e1)" by (cases "visit_terms edit st e")
  obtain st2 es1 where es: "visit_items edit st1 es = (st2, es1)" by (cases "visit_items edit st1 es")
  have "wf_expr e1 \<and> finite_expr e1" using "8.IH"(1) [OF "8.prems"(1)] "8.prems"(2) e by simp
  moreover have "(\<forall>e \<in> set es1. wf_expr e \<and> finite_expr e)"
    using "8.IH"(2) [OF e [symmetric] "8.prems"(1)] "8.prems"(2) es by simp
  moreover have "snd (visit_items edit st (e # es)) = e1 # es1" using e es by simp
  ultimately show ?case by simp
qed (simp_all add: prod.case_eq_if)

lemma visit_term_unedited:
  "(\<forall>s v. fst (edit s v) = None) \<Longrightarrow>
   v_changed (fst (visit_term edit st t)) = v_changed st \<and> snd (visit_term edit st t) = t"
proof -
  assume "\<forall>s v. fst (edit s v) = None"
  then obtain s where "edit (v_edit st) (view_of t (v_index st)) = (None, s)"
    by (metis prod.collapse)
  then show ?thesis by (simp add: visit_term_def Let_def)
qed

lemma visit_keeps:
  shows "(\<forall>s v. fst (edit s v) = None) \<Longrightarrow>
      v_changed (fst (visit_terms edit st e)) = v_changed st \<and> snd (visit_terms edit st e) = e"
    and "(\<forall>s v. fst (edit s v) = None) \<Longrightarrow>
      v_changed (fst (visit_items edit st es)) = v_changed st \<and> snd (visit_items edit st es) = es"
proof (induction edit st e and edit st es rule: visit_terms_visit_items.induct)
  case (1 edit st t)
  obtain st1 t1 where v: "visit_term edit st t = (st1, t1)" by (cases "visit_term edit st t")
  with visit_term_unedited [OF "1.prems", of st t] have t1: "v_changed st1 = v_changed st" "t1 = t" by auto
  obtain st2 c where c: "visit_terms edit st1 (t_count t1) = (st2, c)"
    by (cases "visit_terms edit st1 (t_count t1)")
  have c1: "v_changed st2 = v_changed st" "c = t_count t"
    using "1.IH"(1) [OF v [symmetric] "1.prems"] c t1 by auto
  show ?case
  proof (cases "t_sides t1")
    case (SNumeric s)
    with "1.IH"(2) [OF v [symmetric] c [symmetric] SNumeric "1.prems"] show ?thesis
      using v c t1 c1 by (cases t) (simp add: prod.case_eq_if)
  qed (use v c t1 c1 in \<open>cases t; simp\<close>)+
qed (simp_all add: prod.case_eq_if, (metis prod.collapse)+)

text \<open>C32: what the parser returns is always a well-formed tree, whatever the source text: literals are
  numbers a text can spell and never negative, counts of kept and dropped dice fit \<open>u32\<close>, thresholds fit
  \<open>i64\<close>, a pool is not empty, and a placeholder is a word that is neither a function nor begins as the dice
  operator does.\<close>

theorem parsed_trees_are_formed:
  assumes "parse s = Inr e"
  shows "wf_expr e"
  using assms by (rule parse_wf)

lemma parsed_trees_are_formed_witness:
  "wf_expr (Neg (Dice (DiceTerm (Number (Fin 2)) (SNumeric (Number (Fin 6))) [KeepHighest 1])))"
proof -
  have "parse (U ''-2d6kh1'') =
      Inr (Neg (Dice (DiceTerm (Number (Fin 2)) (SNumeric (Number (Fin 6))) [KeepHighest 1])))"
    by (simp add: parse_eval)
  then show ?thesis by (rule parsed_trees_are_formed)
qed

text \<open>C2: printing a parsed formula and parsing the text gives the same tree, for every source text
  whose literals are all finite. (A literal of more than 308 digits overflows to infinity, which
  prints as a word.)\<close>

theorem print_round_trip:
  assumes "parse s = Inr e" and "finite_expr e"
  shows "parse (print_expr e) = Inr e"
  using parse_wf [OF assms(1)] assms(2) by (rule parse_print)

lemma print_round_trip_witness:
  "\<exists>e. parse (U ''-2d6kh1'') = Inr e \<and> parse (print_expr e) = Inr e"
proof -
  have p: "parse (U ''-2d6kh1'') =
      Inr (Neg (Dice (DiceTerm (Number (Fin 2)) (SNumeric (Number (Fin 6))) [KeepHighest 1])))"
    by (simp add: parse_eval)
  show ?thesis using print_round_trip [OF p] p by simp
qed

text \<open>A rewrite in which every term keeps its dice gives the formula back byte for byte.\<close>

theorem rewrite_unedited:
  assumes "\<forall>s v. fst (edit s v) = None" and "parse f = Inr e"
  shows "rewrite_dice_terms edit s0 f = Inr f"
  using visit_keeps(1) [OF assms(1), of "\<lparr>v_index = 0, v_changed = False, v_edit = s0\<rparr>" e] assms(2)
  by (simp add: rewrite_dice_terms_def prod.case_eq_if)

text \<open>C28: what a rewrite returns is a formula, and it reads as the edited tree. The formula's own literals
  are taken to be finite, and the numbers an edit adds not negative and exact as 64-bit floats: then no edit
  produces text that means something else.\<close>

theorem rewrite_reads_back:
  assumes "wf_editor edit" and "parse f = Inr e" and "finite_expr e"
    and "visit_terms edit \<lparr>v_index = 0, v_changed = False, v_edit = s0\<rparr> e = (st, e1)"
    and "v_changed st"
  shows "\<exists>g. rewrite_dice_terms edit s0 f = Inr g \<and> parse g = Inr e1"
proof -
  have "wf_expr e1 \<and> finite_expr e1"
    using visit_wf(1) [OF assms(1) parse_wf [OF assms(2)] assms(3)] assms(4) by (metis snd_conv)
  then have "parse (print_expr e1) = Inr e1" by (intro parse_print) simp_all
  with assms show ?thesis by (simp add: rewrite_dice_terms_def)
qed

text \<open>A pack's edit for advantage on every die, as a witness.\<close>

definition advantage_edit :: "unit editor" where
  "advantage_edit s v =
     (if tv_sides v = Some 20 then (Some \<lparr>te_count = Some 2, te_add = [AddKeepHighest 1]\<rparr>, s) else (None, s))"

lemma rewrite_unedited_witness:
  "rewrite_dice_terms (\<lambda>s v. (None, s)) () (U ''2D6  + 1'') = Inr (U ''2D6  + 1'')"
  by (rule rewrite_unedited [where e = "BinOp (Dice (DiceTerm (Number (Fin 2))
      (SNumeric (Number (Fin 6))) [])) Add (Number (Fin 1))"]) (simp_all add: parse_eval)

lemma rewrite_reads_back_witness:
  "\<exists>g. rewrite_dice_terms advantage_edit () (U ''1d20 + 5'') = Inr g \<and>
     parse g = Inr (BinOp (Dice (DiceTerm (Number (Fin 2)) (SNumeric (Number (Fin 20))) [KeepHighest 1]))
       Add (Number (Fin 5)))"
proof (rule rewrite_reads_back)
  show "wf_editor advantage_edit"
    by (simp add: wf_editor_def advantage_edit_def wf_edit_def u32_max_def)
  show "parse (U ''1d20 + 5'') = Inr (BinOp (Dice (DiceTerm (Number (Fin 1)) (SNumeric (Number (Fin 20))) []))
      Add (Number (Fin 5)))"
    by (simp add: parse_eval)
  show "visit_terms advantage_edit \<lparr>v_index = 0, v_changed = False, v_edit = ()\<rparr>
      (BinOp (Dice (DiceTerm (Number (Fin 1)) (SNumeric (Number (Fin 20))) [])) Add (Number (Fin 5)))
    = (\<lparr>v_index = 1, v_changed = True, v_edit = ()\<rparr>,
       BinOp (Dice (DiceTerm (Number (Fin 2)) (SNumeric (Number (Fin 20))) [KeepHighest 1])) Add (Number (Fin 5)))"
    by (simp add: visit_term_def Let_def view_of_def literal_def advantage_edit_def apply_edit_def
        ffract_def fsub_def fadd_def ftrunc_def rat_trunc_def signed_zero_def f_to_u32_def
        fle_def f64_of_int_exact)
qed simp_all

end
