(* ===== verification/Dice_Eval.thy ===== *)
theory Dice_Eval
  imports Dice_Ast "HOL-Library.Product_Lexorder"
begin

text \<open>
  Resolving a formula (crates/thunderforge-dice/src/eval.rs). The random number generator is the
  caller's: a state and the function \<open>next_u32\<close> on it, with no law assumed of either. The evaluator
  threads its context through every call and hands it back on errors too, because the generator
  and the recorded dice live on outside it. \<open>DrawSource\<close> is a state with the two operations of
  the trait; \<open>no_source\<close> is the \<open>None\<close> of a plain resolve.
\<close>

section \<open>The context\<close>

definition max_total_dice :: nat where "max_total_dice = 1000"
definition max_iterations_per_die :: nat where "max_iterations_per_die = 100"

type_synonym bindings = "ustring \<Rightarrow> f64 option"

record ('r, 's) eval_env =
  next_u32 :: "'r \<Rightarrow> u32 \<times> 'r"
  bound :: bindings
  begin_term :: "nat \<Rightarrow> die_sides \<Rightarrow> 's \<Rightarrow> formula_error + 's"
  next_die :: "'s \<Rightarrow> die_outcome option \<times> 's"

record ('r, 's) eval_ctx =
  c_rng :: 'r
  c_dice :: "die_outcome list"
  c_total :: nat
  c_source :: 's

text \<open>A call returns its value, an error of the crate, or panics (only the pool's sort can).\<close>

datatype eval_failure = Refused formula_error | Panicked

type_synonym ('r, 's, 'a) outcome = "(eval_failure + 'a) \<times> ('r, 's) eval_ctx"

definition take_dice_budget :: "nat \<Rightarrow> ('r, 's) eval_ctx \<Rightarrow> ('r, 's, unit) outcome" where
  "take_dice_budget n c =
     (if u32_max < c_total c + n then (Inl (Refused DiceCountExceeded), c)
      else let c1 = c\<lparr>c_total := c_total c + n\<rparr> in
        if max_total_dice < c_total c1 then (Inl (Refused DiceCountExceeded), c1) else (Inr (), c1))"

definition roll_face :: "('r, 's) eval_env \<Rightarrow> die_sides \<Rightarrow> ('r, 's) eval_ctx \<Rightarrow> int \<times> ('r, 's) eval_ctx" where
  "roll_face env sd c =
     (case next_u32 env (c_rng c) of (w, r) \<Rightarrow>
        ((case sd of
            Numeric n \<Rightarrow> 1 + int (unat w mod max n 1)
          | Fate \<Rightarrow> int (unat w mod 3) - 1
          | Coin \<Rightarrow> int (unat w mod 2)),
         c\<lparr>c_rng := r\<rparr>))"

definition max_face :: "die_sides \<Rightarrow> int" where
  "max_face sd = (case sd of Numeric n \<Rightarrow> int n | Fate \<Rightarrow> 1 | Coin \<Rightarrow> 1)"

record expr_value =
  ev_value :: f64
  ev_success :: "int option"

definition total_value :: "f64 \<Rightarrow> expr_value" where
  "total_value v = \<lparr>ev_value = v, ev_success = None\<rparr>"

fun condition_matches :: "condition \<Rightarrow> int \<Rightarrow> int \<Rightarrow> bool" where
  "condition_matches (CEq n) v mf = (v = n)"
| "condition_matches (CGt n) v mf = (v > n)"
| "condition_matches (CGte n) v mf = (v \<ge> n)"
| "condition_matches (CLt n) v mf = (v < n)"
| "condition_matches (CLte n) v mf = (v \<le> n)"
| "condition_matches MaxFace v mf = (v = mf)"

section \<open>One die\<close>

text \<open>The faces and the steps of a die's chain so far, the last face last.\<close>

type_synonym chain = "int list \<times> chain_step list"

text \<open>One more face, paid from the budget.\<close>

definition roll_again ::
    "('r, 's) eval_env \<Rightarrow> die_sides \<Rightarrow> chain_step \<Rightarrow> chain \<Rightarrow> ('r, 's) eval_ctx \<Rightarrow> ('r, 's, chain) outcome" where
  "roll_again env sd step ch c =
     (case take_dice_budget 1 c of
        (Inl e, c1) \<Rightarrow> (Inl e, c1)
      | (Inr _, c1) \<Rightarrow>
          (case roll_face env sd c1 of (f, c2) \<Rightarrow> (Inr (fst ch @ [f], snd ch @ [step]), c2)))"

text \<open>\<open>if let Some(cond) = ... && condition_matches(...)\<close>.\<close>

definition roll_once_if ::
    "('r, 's) eval_env \<Rightarrow> die_sides \<Rightarrow> chain_step \<Rightarrow> condition option \<Rightarrow> chain \<Rightarrow> ('r, 's) eval_ctx
      \<Rightarrow> ('r, 's, chain) outcome" where
  "roll_once_if env sd step cond ch c =
     (case cond of
        Some cd \<Rightarrow> if condition_matches cd (last (fst ch)) (max_face sd)
          then roll_again env sd step ch c else (Inr ch, c)
      | None \<Rightarrow> (Inr ch, c))"

text \<open>The \<open>while\<close> loops, which share the counter of the die.\<close>

function roll_while ::
    "('r, 's) eval_env \<Rightarrow> die_sides \<Rightarrow> chain_step \<Rightarrow> condition \<Rightarrow> nat \<Rightarrow> chain \<Rightarrow> ('r, 's) eval_ctx
      \<Rightarrow> ('r, 's, nat \<times> chain) outcome" where
  "roll_while env sd step cd iterations ch c =
     (if condition_matches cd (last (fst ch)) (max_face sd) then
        (if max_iterations_per_die < iterations + 1 then (Inl (Refused IterationCapExceeded), c)
         else case roll_again env sd step ch c of
             (Inl e, c1) \<Rightarrow> (Inl e, c1)
           | (Inr ch1, c1) \<Rightarrow> roll_while env sd step cd (iterations + 1) ch1 c1)
      else (Inr (iterations, ch), c))"
  by pat_completeness auto
termination
  by (relation "measure (\<lambda>(_, _, _, _, iterations, _, _). Suc max_iterations_per_die - iterations)") auto

declare roll_while.simps [simp del]

definition roll_while_if ::
    "('r, 's) eval_env \<Rightarrow> die_sides \<Rightarrow> chain_step \<Rightarrow> condition option \<Rightarrow> nat \<Rightarrow> chain \<Rightarrow> ('r, 's) eval_ctx
      \<Rightarrow> ('r, 's, nat \<times> chain) outcome" where
  "roll_while_if env sd step cond iterations ch c =
     (case cond of
        Some cd \<Rightarrow> roll_while env sd step cd iterations ch c
      | None \<Rightarrow> (Inr (iterations, ch), c))"

definition find_condition :: "modifier list \<Rightarrow> (modifier \<Rightarrow> condition option) \<Rightarrow> condition option" where
  "find_condition ms f = find_map f ms"

fun reroll_of :: "modifier \<Rightarrow> condition option" where
  "reroll_of (Reroll c) = Some c" | "reroll_of _ = None"
fun reroll_recursive_of :: "modifier \<Rightarrow> condition option" where
  "reroll_recursive_of (RerollRecursive c) = Some c" | "reroll_recursive_of _ = None"
fun explode_of :: "modifier \<Rightarrow> condition option" where
  "explode_of (Explode c) = Some c" | "explode_of _ = None"
fun explode_once_of :: "modifier \<Rightarrow> condition option" where
  "explode_once_of (ExplodeOnce c) = Some c" | "explode_once_of _ = None"
fun successes_of :: "modifier \<Rightarrow> condition option" where
  "successes_of (CountSuccesses c) = Some c" | "successes_of _ = None"
fun failures_of :: "modifier \<Rightarrow> condition option" where
  "failures_of (CountFailures c) = Some c" | "failures_of _ = None"
fun subtract_failure_of :: "modifier \<Rightarrow> condition option" where
  "subtract_failure_of (SubtractFailureValue c) = Some c" | "subtract_failure_of _ = None"
fun margin_of :: "modifier \<Rightarrow> int option" where
  "margin_of (MarginOfSuccess n) = Some n" | "margin_of _ = None"

definition roll_die ::
    "('r, 's) eval_env \<Rightarrow> die_sides \<Rightarrow> modifier list \<Rightarrow> ('r, 's) eval_ctx \<Rightarrow> ('r, 's, die_outcome) outcome" where
  "roll_die env sd ms c0 =
     (case roll_face env sd c0 of (f, c) \<Rightarrow>
      case roll_once_if env sd StepReroll (find_condition ms reroll_of) ([f], []) c of
        (Inl e, c1) \<Rightarrow> (Inl e, c1)
      | (Inr ch1, c1) \<Rightarrow>
      case roll_while_if env sd StepReroll (find_condition ms reroll_recursive_of) 0 ch1 c1 of
        (Inl e, c2) \<Rightarrow> (Inl e, c2)
      | (Inr (it, ch2), c2) \<Rightarrow>
      case roll_once_if env sd StepExplode (find_condition ms explode_once_of) ch2 c2 of
        (Inl e, c3) \<Rightarrow> (Inl e, c3)
      | (Inr ch3, c3) \<Rightarrow>
      case roll_while_if env sd StepExplode (find_condition ms explode_of) it ch3 c3 of
        (Inl e, c4) \<Rightarrow> (Inl e, c4)
      | (Inr (_, (rolls, steps)), c4) \<Rightarrow>
        (Inr \<lparr>d_sides = sd, d_rolls = rolls, d_steps = steps, d_kept = True, d_final = last rolls\<rparr>, c4))"

text \<open>The \<open>for\<close> loop over a term's dice: a recorded die first, if the source has one.\<close>

fun roll_dice ::
    "('r, 's) eval_env \<Rightarrow> die_sides \<Rightarrow> modifier list \<Rightarrow> nat \<Rightarrow> ('r, 's) eval_ctx
      \<Rightarrow> ('r, 's, die_outcome list) outcome" where
  "roll_dice env sd ms 0 c = (Inr [], c)"
| "roll_dice env sd ms (Suc n) c =
     (case next_die env (c_source c) of (recorded, s) \<Rightarrow>
      let c1 = c\<lparr>c_source := s\<rparr> in
      case (case recorded of Some d \<Rightarrow> (Inr d, c1) | None \<Rightarrow> roll_die env sd ms c1) of
        (Inl e, c2) \<Rightarrow> (Inl e, c2)
      | (Inr d, c2) \<Rightarrow>
          (case roll_dice env sd ms n c2 of
             (Inl e, c3) \<Rightarrow> (Inl e, c3)
           | (Inr ds, c3) \<Rightarrow> (Inr (d # ds), c3)))"

section \<open>Keeping, dropping, clamping, counting\<close>

definition unkeep :: "die_outcome list \<Rightarrow> nat list \<Rightarrow> die_outcome list" where
  "unkeep = foldl (\<lambda>os i. os[i := (os ! i)\<lparr>d_kept := False\<rparr>])"

definition mark_drop_after :: "die_outcome list \<Rightarrow> nat list \<Rightarrow> nat \<Rightarrow> die_outcome list" where
  "mark_drop_after os sorted_indices keep_n = unkeep os (drop keep_n sorted_indices)"

definition mark_drop_first :: "die_outcome list \<Rightarrow> nat list \<Rightarrow> nat \<Rightarrow> die_outcome list" where
  "mark_drop_first os sorted_indices drop_n = unkeep os (take drop_n sorted_indices)"

text \<open>The \<open>indices\<close> stay sorted from one modifier to the next; marking changes no face.\<close>

fun keep_drop_from :: "nat list \<Rightarrow> die_outcome list \<Rightarrow> modifier list \<Rightarrow> die_outcome list" where
  "keep_drop_from indices os [] = os"
| "keep_drop_from indices os (KeepHighest n # ms) =
     (let ix = sort_key (\<lambda>i. - d_final (os ! i)) indices in
      keep_drop_from ix (mark_drop_after os ix n) ms)"
| "keep_drop_from indices os (KeepLowest n # ms) =
     (let ix = sort_key (\<lambda>i. d_final (os ! i)) indices in
      keep_drop_from ix (mark_drop_after os ix n) ms)"
| "keep_drop_from indices os (DropHighest n # ms) =
     (let ix = sort_key (\<lambda>i. - d_final (os ! i)) indices in
      keep_drop_from ix (mark_drop_first os ix n) ms)"
| "keep_drop_from indices os (DropLowest n # ms) =
     (let ix = sort_key (\<lambda>i. d_final (os ! i)) indices in
      keep_drop_from ix (mark_drop_first os ix n) ms)"
| "keep_drop_from indices os (_ # ms) = keep_drop_from indices os ms"

definition apply_keep_drop :: "die_outcome list \<Rightarrow> modifier list \<Rightarrow> die_outcome list" where
  "apply_keep_drop os ms = keep_drop_from [0..<length os] os ms"

fun clamp_die :: "modifier \<Rightarrow> die_outcome \<Rightarrow> die_outcome" where
  "clamp_die (MinMod n) d = (if d_final d < n then d\<lparr>d_final := n\<rparr> else d)"
| "clamp_die (MaxMod n) d = (if n < d_final d then d\<lparr>d_final := n\<rparr> else d)"
| "clamp_die _ d = d"

definition apply_clamp :: "die_outcome list \<Rightarrow> modifier list \<Rightarrow> die_outcome list" where
  "apply_clamp os ms = foldl (\<lambda>os m. map (clamp_die m) os) os ms"

text \<open>\<open>sum::<i64>()\<close> wraps in a release build.\<close>

definition i64_sum :: "int list \<Rightarrow> int" where
  "i64_sum xs = foldl (\<lambda>a x. wrap_i64 (a + x)) 0 xs"

definition count_matching :: "condition \<Rightarrow> int \<Rightarrow> die_outcome list \<Rightarrow> int" where
  "count_matching cd mf ds = int (length (filter (\<lambda>d. condition_matches cd (d_final d) mf) ds))"

definition compute_success_count :: "die_outcome list \<Rightarrow> modifier list \<Rightarrow> int \<Rightarrow> int option" where
  "compute_success_count os ms mf =
     (let kept = filter d_kept os;
          successes = find_condition ms successes_of;
          failures = find_condition ms failures_of;
          subtract_failure_value = find_condition ms subtract_failure_of;
          even_wanted = EvenMod \<in> set ms;
          odd_wanted = OddMod \<in> set ms in
      case find_map margin_of ms of
        Some n \<Rightarrow> Some (wrap_i64 (i64_sum (map d_final kept) - n))
      | None \<Rightarrow>
          if even_wanted \<or> odd_wanted
          then Some (int (length (filter (\<lambda>d. (d_final d mod 2 = 0) = even_wanted) kept)))
          else if successes = None \<and> failures = None \<and> subtract_failure_value = None then None
          else
            let t1 = (case successes of Some cd \<Rightarrow> count_matching cd mf kept | None \<Rightarrow> 0);
                t2 = (case failures of Some cd \<Rightarrow> wrap_i64 (t1 - count_matching cd mf kept) | None \<Rightarrow> t1);
                t3 = (case subtract_failure_value of
                        Some cd \<Rightarrow> wrap_i64 (t2 - i64_sum (map d_final
                          (filter (\<lambda>d. condition_matches cd (d_final d) mf) kept)))
                      | None \<Rightarrow> t2) in
            Some t3)"

section \<open>Pools\<close>

text \<open>The order of \<open>partial_cmp\<close> on numbers that are not NaN.\<close>

fun float_rank :: "f64 \<Rightarrow> int \<times> rat" where
  "float_rank (Inf s) = (if s then -1 else 1, 0)"
| "float_rank (Fin r) = (0, r)"
| "float_rank _ = (0, 0)"

definition rank_reversed :: "f64 \<Rightarrow> int \<times> rat" where
  "rank_reversed v = (- fst (float_rank v), - snd (float_rank v))"

definition unkeep_at :: "bool list \<Rightarrow> nat list \<Rightarrow> bool list" where
  "unkeep_at = foldl (\<lambda>ks i. ks[i := False])"

text \<open>\<open>sort_by\<close> with \<open>partial_cmp(..).unwrap()\<close> compares every element of a list of two or more,
  so a NaN among them panics.\<close>

definition sort_panics :: "f64 list \<Rightarrow> bool" where
  "sort_panics totals \<longleftrightarrow> 2 \<le> length totals \<and> NaN \<in> set totals"

fun pool_keep_drop :: "f64 list \<Rightarrow> nat list \<Rightarrow> bool list \<Rightarrow> modifier list \<Rightarrow> bool list option" where
  "pool_keep_drop totals indices kept [] = Some kept"
| "pool_keep_drop totals indices kept (KeepHighest n # ms) =
     (if sort_panics totals then None else
      let ix = sort_key (\<lambda>i. rank_reversed (totals ! i)) indices in
      pool_keep_drop totals ix (unkeep_at kept (drop n ix)) ms)"
| "pool_keep_drop totals indices kept (KeepLowest n # ms) =
     (if sort_panics totals then None else
      let ix = sort_key (\<lambda>i. float_rank (totals ! i)) indices in
      pool_keep_drop totals ix (unkeep_at kept (drop n ix)) ms)"
| "pool_keep_drop totals indices kept (DropHighest n # ms) =
     (if sort_panics totals then None else
      let ix = sort_key (\<lambda>i. rank_reversed (totals ! i)) indices in
      pool_keep_drop totals ix (unkeep_at kept (take n ix)) ms)"
| "pool_keep_drop totals indices kept (DropLowest n # ms) =
     (if sort_panics totals then None else
      let ix = sort_key (\<lambda>i. float_rank (totals ! i)) indices in
      pool_keep_drop totals ix (unkeep_at kept (take n ix)) ms)"
| "pool_keep_drop totals indices kept (_ # ms) = pool_keep_drop totals indices kept ms"

text \<open>\<open>f64::sum\<close> starts from negative zero.\<close>

definition f64_sum :: "f64 list \<Rightarrow> f64" where
  "f64_sum = foldl (fadd binary64) NegZero"

definition pool_value :: "f64 list \<Rightarrow> modifier list \<Rightarrow> f64 option" where
  "pool_value totals ms =
     map_option (\<lambda>kept. f64_sum (map fst (filter snd (zip totals kept))))
       (pool_keep_drop totals [0..<length totals] (replicate (length totals) True) ms)"

section \<open>Expressions\<close>

definition eval_binop :: "binop \<Rightarrow> expr_value \<Rightarrow> expr_value \<Rightarrow> formula_error + expr_value" where
  "eval_binop b l r =
     (let x = ev_value l; y = ev_value r in
      if b = Div \<and> feq y (Fin 0) then Inl DivisionByZero
      else
        let v = (case b of Add \<Rightarrow> fadd binary64 x y | Sub \<Rightarrow> fsub binary64 x y
                  | Mul \<Rightarrow> fmul binary64 x y | Div \<Rightarrow> fdiv binary64 x y) in
        if \<not> is_finite v then Inl NonFiniteResult
        else Inr \<lparr>ev_value = v,
          ev_success = (if b = Add then
             (case (ev_success l, ev_success r) of
                (Some a, Some c) \<Rightarrow> Some (wrap_i64 (a + c))
              | (Some a, None) \<Rightarrow> Some a
              | (None, Some c) \<Rightarrow> Some c
              | (None, None) \<Rightarrow> None)
             else None)\<rparr>)"

definition eval_math :: "mathfn \<Rightarrow> f64 \<Rightarrow> formula_error + expr_value" where
  "eval_math k v =
     (let w = (case k of Floor \<Rightarrow> ffloor v | Ceil \<Rightarrow> fceil v | Round \<Rightarrow> fround v | Abs \<Rightarrow> fabs v) in
      if \<not> is_finite w then Inl NonFiniteResult else Inr (total_value w))"

text \<open>The last step of \<open>eval_int_expr\<close>.\<close>

definition to_whole :: "f64 \<Rightarrow> formula_error + int" where
  "to_whole v = (if \<not> is_finite v then Inl NonFiniteResult else Inr (f_to_i64 (fround v)))"

definition negative_count :: formula_error where
  "negative_count = ParseError (U ''dice count must not be negative'') 0"

definition small_die :: formula_error where
  "small_die = ParseError (U ''die size must be at least 1'') 0"

text \<open>A term once its count and its sides are known.\<close>

definition roll_term ::
    "('r, 's) eval_env \<Rightarrow> modifier list \<Rightarrow> nat \<Rightarrow> die_sides \<Rightarrow> ('r, 's) eval_ctx
      \<Rightarrow> ('r, 's, expr_value) outcome" where
  "roll_term env ms n sd c =
     (case take_dice_budget n c of
        (Inl e, c1) \<Rightarrow> (Inl e, c1)
      | (Inr _, c1) \<Rightarrow>
      case begin_term env n sd (c_source c1) of
        Inl e \<Rightarrow> (Inl (Refused e), c1)
      | Inr s \<Rightarrow>
      case roll_dice env sd ms n (c1\<lparr>c_source := s\<rparr>) of
        (Inl e, c2) \<Rightarrow> (Inl e, c2)
      | (Inr ds, c2) \<Rightarrow>
        let os = apply_clamp (apply_keep_drop ds ms) ms;
            success = compute_success_count os ms (max_face sd);
            v = (case success of Some k \<Rightarrow> f64_of_int k
                 | None \<Rightarrow> f64_of_int (i64_sum (map d_final (filter d_kept os)))) in
        (Inr \<lparr>ev_value = v, ev_success = success\<rparr>, c2\<lparr>c_dice := c_dice c2 @ os\<rparr>))"

fun eval_expr :: "('r, 's) eval_env \<Rightarrow> expr \<Rightarrow> ('r, 's) eval_ctx \<Rightarrow> ('r, 's, expr_value) outcome"
and eval_sides :: "('r, 's) eval_env \<Rightarrow> sides \<Rightarrow> ('r, 's) eval_ctx \<Rightarrow> ('r, 's, die_sides) outcome"
and eval_dice_term :: "('r, 's) eval_env \<Rightarrow> dice_term \<Rightarrow> ('r, 's) eval_ctx \<Rightarrow> ('r, 's, expr_value) outcome"
and eval_items :: "('r, 's) eval_env \<Rightarrow> expr list \<Rightarrow> ('r, 's) eval_ctx \<Rightarrow> ('r, 's, f64 list) outcome" where
  "eval_expr env (Number n) c = (Inr (total_value n), c)"
| "eval_expr env (Placeholder name) c =
     (case bound env name of
        Some v \<Rightarrow> (Inr (total_value v), c)
      | None \<Rightarrow> (Inl (Refused (MissingPlaceholder name)), c))"
| "eval_expr env (Neg e) c =
     (case eval_expr env e c of
        (Inl x, c1) \<Rightarrow> (Inl x, c1)
      | (Inr v, c1) \<Rightarrow> (Inr (total_value (fneg (ev_value v))), c1))"
| "eval_expr env (BinOp l b r) c =
     (case eval_expr env l c of
        (Inl x, c1) \<Rightarrow> (Inl x, c1)
      | (Inr lv, c1) \<Rightarrow>
          (case eval_expr env r c1 of
             (Inl x, c2) \<Rightarrow> (Inl x, c2)
           | (Inr rv, c2) \<Rightarrow> (map_sum Refused id (eval_binop b lv rv), c2)))"
| "eval_expr env (MathFn k e) c =
     (case eval_expr env e c of
        (Inl x, c1) \<Rightarrow> (Inl x, c1)
      | (Inr v, c1) \<Rightarrow> (map_sum Refused id (eval_math k (ev_value v)), c1))"
| "eval_expr env (Dice t) c = eval_dice_term env t c"
| "eval_expr env (Pool items ms) c =
     (case eval_items env items c of
        (Inl x, c1) \<Rightarrow> (Inl x, c1)
      | (Inr totals, c1) \<Rightarrow>
          (case pool_value totals ms of
             None \<Rightarrow> (Inl Panicked, c1)
           | Some v \<Rightarrow> (Inr (total_value v), c1)))"
| "eval_sides env SFate c = (Inr Fate, c)"
| "eval_sides env SCoin c = (Inr Coin, c)"
| "eval_sides env (SNumeric e) c =
     (case eval_expr env e c of
        (Inl x, c1) \<Rightarrow> (Inl x, c1)
      | (Inr v, c1) \<Rightarrow>
          (case to_whole (ev_value v) of
             Inl x \<Rightarrow> (Inl (Refused x), c1)
           | Inr n \<Rightarrow> if n < 1 then (Inl (Refused small_die), c1) else (Inr (Numeric (as_u32 n)), c1)))"
| "eval_dice_term env (DiceTerm cnt s ms) c =
     (case eval_expr env cnt c of
        (Inl x, c1) \<Rightarrow> (Inl x, c1)
      | (Inr v, c1) \<Rightarrow>
          (case to_whole (ev_value v) of
             Inl x \<Rightarrow> (Inl (Refused x), c1)
           | Inr n \<Rightarrow>
               if n < 0 then (Inl (Refused negative_count), c1)
               else case eval_sides env s c1 of
                   (Inl x, c2) \<Rightarrow> (Inl x, c2)
                 | (Inr sd, c2) \<Rightarrow> roll_term env ms (as_u32 n) sd c2))"
| "eval_items env [] c = (Inr [], c)"
| "eval_items env (e # es) c =
     (case eval_expr env e c of
        (Inl x, c1) \<Rightarrow> (Inl x, c1)
      | (Inr v, c1) \<Rightarrow>
          (case eval_items env es c1 of
             (Inl x, c2) \<Rightarrow> (Inl x, c2)
           | (Inr vs, c2) \<Rightarrow> (Inr (ev_value v # vs), c2)))"

section \<open>Resolving\<close>

definition resolve_with ::
    "('r, 's) eval_env \<Rightarrow> dice_formula \<Rightarrow> 'r \<Rightarrow> 's
      \<Rightarrow> (eval_failure + roll_resolution) \<times> ('r, 's) eval_ctx" where
  "resolve_with env formula rng source =
     (case eval_expr env (f_ast formula)
         \<lparr>c_rng = rng, c_dice = [], c_total = 0, c_source = source\<rparr> of
        (Inl e, c) \<Rightarrow> (Inl e, c)
      | (Inr result, c) \<Rightarrow>
          if \<not> is_finite (ev_value result) then (Inl (Refused NonFiniteResult), c)
          else (Inr \<lparr>r_formula = f_source formula, r_dice = c_dice c,
                  r_kind = (case ev_success result of
                      Some n \<Rightarrow> SuccessCount n | None \<Rightarrow> Total (ev_value result))\<rparr>, c))"

definition plain_env :: "('r \<Rightarrow> u32 \<times> 'r) \<Rightarrow> bindings \<Rightarrow> ('r, unit) eval_env" where
  "plain_env draw b =
     \<lparr>next_u32 = draw, bound = b, begin_term = (\<lambda>n sd s. Inr s), next_die = (\<lambda>s. (None, s))\<rparr>"

definition resolve ::
    "('r \<Rightarrow> u32 \<times> 'r) \<Rightarrow> dice_formula \<Rightarrow> bindings \<Rightarrow> 'r \<Rightarrow> (eval_failure + roll_resolution) \<times> 'r" where
  "resolve draw formula b rng =
     (case resolve_with (plain_env draw b) formula rng () of (r, c) \<Rightarrow> (r, c_rng c))"

lemma bind_Inr:
  assumes "(case p of (Inl e, c1) \<Rightarrow> (Inl e, c1) | (Inr a, c1) \<Rightarrow> f a c1) = (Inr v, c')"
  obtains a c1 where "p = (Inr a, c1)" and "f a c1 = (Inr v, c')"
  using assms by (cases p; cases "fst p") auto

section \<open>What a die records\<close>

definition rng_next :: "('r, 's) eval_env \<Rightarrow> 'r \<Rightarrow> 'r" where
  "rng_next env r = snd (next_u32 env r)"

fun face_ok :: "die_sides \<Rightarrow> int \<Rightarrow> bool" where
  "face_ok (Numeric n) f = (1 \<le> f \<and> f \<le> int (max n 1))"
| "face_ok Fate f = (-1 \<le> f \<and> f \<le> 1)"
| "face_ok Coin f = (0 \<le> f \<and> f \<le> 1)"

definition chain_ok :: "die_sides \<Rightarrow> chain \<Rightarrow> bool" where
  "chain_ok sd ch \<longleftrightarrow> fst ch \<noteq> [] \<and> length (fst ch) = length (snd ch) + 1 \<and>
     (\<forall>f \<in> set (fst ch). face_ok sd f)"

text \<open>A record of a die: its faces are faces of the die, each after the first is explained, and the
  chain is bounded: a first roll, one reroll, one explosion and the looped iterations.\<close>

definition die_ok :: "die_outcome \<Rightarrow> bool" where
  "die_ok d \<longleftrightarrow> chain_ok (d_sides d) (d_rolls d, d_steps d) \<and>
     length (d_rolls d) \<le> max_iterations_per_die + 3"

definition rolls_in :: "die_outcome list \<Rightarrow> nat" where
  "rolls_in ds = sum_list (map (\<lambda>d. length (d_rolls d)) ds)"

lemma rolls_in_simps [simp]:
  "rolls_in [] = 0" "rolls_in (d # ds) = length (d_rolls d) + rolls_in ds"
  "rolls_in (ds @ es) = rolls_in ds + rolls_in es"
  by (simp_all add: rolls_in_def)

text \<open>What rolling does to the context: it draws and it pays, and touches nothing else.\<close>

definition drew :: "('r, 's) eval_env \<Rightarrow> nat \<Rightarrow> ('r, 's) eval_ctx \<Rightarrow> ('r, 's) eval_ctx \<Rightarrow> bool" where
  "drew env k c c' \<longleftrightarrow> c_rng c' = (rng_next env ^^ k) (c_rng c) \<and> c_dice c' = c_dice c \<and>
     c_source c' = c_source c"

definition paid :: "nat \<Rightarrow> ('r, 's) eval_ctx \<Rightarrow> ('r, 's) eval_ctx \<Rightarrow> bool" where
  "paid k c c' \<longleftrightarrow> c_total c' = c_total c + k \<and> (c_total c \<le> max_total_dice \<longrightarrow> c_total c' \<le> max_total_dice)"

lemma drew_0: "drew env 0 c c" and paid_0: "paid 0 c c"
  by (simp_all add: drew_def paid_def)

lemma drew_trans: "drew env j c c1 \<Longrightarrow> drew env k c1 c2 \<Longrightarrow> drew env (j + k) c c2"
  using funpow_add [of k j "rng_next env"] by (auto simp: drew_def add.commute [of j k])

lemma paid_trans: "paid j c c1 \<Longrightarrow> paid k c1 c2 \<Longrightarrow> paid (j + k) c c2"
  by (auto simp: paid_def)

lemma take_budget:
  "take_dice_budget n c = (Inr (), c1) \<Longrightarrow> paid n c c1 \<and> drew env 0 c c1 \<and> c_total c1 \<le> max_total_dice"
  by (auto simp: take_dice_budget_def paid_def drew_def Let_def split: if_splits)

lemma roll_face_ok:
  assumes "roll_face env sd c = (f, c1)"
  shows "face_ok sd f \<and> drew env 1 c c1 \<and> paid 0 c c1"
proof -
  obtain w r where w: "next_u32 env (c_rng c) = (w, r)" by (cases "next_u32 env (c_rng c)")
  have c1: "c1 = c\<lparr>c_rng := r\<rparr>" using assms w by (simp add: roll_face_def)
  have d: "drew env 1 c c1 \<and> paid 0 c c1" by (simp add: c1 drew_def paid_def rng_next_def w)
  have "face_ok sd f"
  proof (cases sd)
    case (Numeric n)
    have "unat w mod max n 1 < max n 1" by simp
    then have "int (unat w mod max n 1) + 1 \<le> int (max n 1)" by linarith
    moreover have "f = 1 + int (unat w mod max n 1)" using assms w Numeric by (simp add: roll_face_def)
    ultimately show ?thesis unfolding Numeric face_ok.simps by linarith
  next
    case Fate
    have "unat w mod 3 < 3" by simp
    moreover have "f = int (unat w mod 3) - 1" using assms w Fate by (simp add: roll_face_def)
    ultimately show ?thesis unfolding Fate face_ok.simps by linarith
  next
    case Coin
    have "unat w mod 2 < 2" by simp
    moreover have "f = int (unat w mod 2)" using assms w Coin by (simp add: roll_face_def)
    ultimately show ?thesis unfolding Coin face_ok.simps by linarith
  qed
  with d show ?thesis by blast
qed

lemma roll_again_ok:
  assumes "roll_again env sd step ch c = (Inr ch1, c1)" and "chain_ok sd ch"
  shows "chain_ok sd ch1 \<and> length (fst ch1) = length (fst ch) + 1 \<and> drew env 1 c c1 \<and> paid 1 c c1"
proof -
  obtain x c2 where x: "take_dice_budget 1 c = (x, c2)" by (cases "take_dice_budget 1 c")
  with assms(1) have b: "take_dice_budget 1 c = (Inr (), c2)"
    by (cases x) (simp_all add: roll_again_def)
  obtain f c3 where f0: "roll_face env sd c2 = (f, c3)" by (cases "roll_face env sd c2")
  with assms(1) b have f: "roll_face env sd c2 = (f, c1)" and ch1: "ch1 = (fst ch @ [f], snd ch @ [step])"
    by (simp_all add: roll_again_def)
  note b' = take_budget [OF b, of env] and f' = roll_face_ok [OF f]
  show ?thesis
    using drew_trans [of env 0 c c2 1 c1] paid_trans [of 1 c c2 0 c1] b' f' assms(2)
    by (auto simp: ch1 chain_ok_def)
qed

text \<open>One step of a chain adds \<open>k\<close> faces, each drawn and paid.\<close>

definition extends_chain ::
    "('r, 's) eval_env \<Rightarrow> die_sides \<Rightarrow> chain \<Rightarrow> ('r, 's) eval_ctx \<Rightarrow> chain \<Rightarrow> ('r, 's) eval_ctx \<Rightarrow> nat \<Rightarrow> bool" where
  "extends_chain env sd ch c ch1 c1 k \<longleftrightarrow>
     chain_ok sd ch1 \<and> length (fst ch1) = length (fst ch) + k \<and> drew env k c c1 \<and> paid k c c1"

lemma extends_chain_trans:
  "extends_chain env sd ch c ch1 c1 j \<Longrightarrow> extends_chain env sd ch1 c1 ch2 c2 k \<Longrightarrow>
   extends_chain env sd ch c ch2 c2 (j + k)"
  unfolding extends_chain_def using drew_trans paid_trans by fastforce

lemma roll_once_ok:
  assumes "roll_once_if env sd step cond ch c = (Inr ch1, c1)" and "chain_ok sd ch"
  shows "\<exists>k \<le> 1. extends_chain env sd ch c ch1 c1 k"
proof (cases "ch1 = ch \<and> c1 = c")
  case True
  then show ?thesis using assms(2) by (intro exI [of _ 0]) (simp add: extends_chain_def drew_0 paid_0)
next
  case False
  then have "roll_again env sd step ch c = (Inr ch1, c1)"
    using assms(1) by (auto simp: roll_once_if_def split: option.splits if_splits)
  from roll_again_ok [OF this assms(2)] show ?thesis
    by (intro exI [of _ 1]) (simp add: extends_chain_def)
qed

lemma roll_while_ok:
  assumes "roll_while env sd step cd it ch c = (Inr (it1, ch1), c1)" and "chain_ok sd ch"
    and "it \<le> max_iterations_per_die"
  shows "it \<le> it1 \<and> it1 \<le> max_iterations_per_die \<and> extends_chain env sd ch c ch1 c1 (it1 - it)"
  using assms
proof (induction env sd step cd it ch c arbitrary: it1 ch1 c1 rule: roll_while.induct)
  case (1 env sd step cd it ch c)
  show ?case
  proof (cases "condition_matches cd (last (fst ch)) (max_face sd)")
    case False
    with "1.prems" show ?thesis
      by (simp add: roll_while.simps [of env sd step cd it] extends_chain_def drew_0 paid_0)
  next
    case True
    with "1.prems"(1) obtain ch2 c2 where it: "\<not> max_iterations_per_die < it + 1"
        and a: "roll_again env sd step ch c = (Inr ch2, c2)"
        and w: "roll_while env sd step cd (it + 1) ch2 c2 = (Inr (it1, ch1), c1)"
      by (auto simp: roll_while.simps [of env sd step cd it] split: if_splits prod.splits sum.splits)
    note a' = roll_again_ok [OF a "1.prems"(2)]
    have "it + 1 \<le> it1 \<and> it1 \<le> max_iterations_per_die \<and> extends_chain env sd ch2 c2 ch1 c1 (it1 - (it + 1))"
      using "1.IH" [OF True it a [symmetric] refl w] a' it by simp
    moreover have "extends_chain env sd ch c ch2 c2 1" using a' by (simp add: extends_chain_def)
    ultimately show ?thesis using extends_chain_trans [of env sd ch c ch2 c2 1 ch1 c1 "it1 - (it + 1)"]
      by (auto simp: Suc_diff_Suc)
  qed
qed

lemma roll_while_if_ok:
  assumes "roll_while_if env sd step cond it ch c = (Inr (it1, ch1), c1)" and "chain_ok sd ch"
    and "it \<le> max_iterations_per_die"
  shows "it \<le> it1 \<and> it1 \<le> max_iterations_per_die \<and> extends_chain env sd ch c ch1 c1 (it1 - it)"
  using assms roll_while_ok [of env sd step _ it ch c it1 ch1 c1]
  by (auto simp: roll_while_if_def extends_chain_def drew_0 paid_0 split: option.splits)

lemma roll_die_ok:
  assumes "roll_die env sd ms c = (Inr d, c')"
  shows "die_ok d \<and> d_sides d = sd \<and> d_kept d \<and> d_final d = last (d_rolls d) \<and>
    drew env (length (d_rolls d)) c c' \<and> paid (length (d_rolls d) - 1) c c'"
proof -
  obtain f c0 where f: "roll_face env sd c = (f, c0)" by (cases "roll_face env sd c")
  obtain ch1 c1 ch2 it2 c2 ch3 c3 it4 where
    r1: "roll_once_if env sd StepReroll (find_condition ms reroll_of) ([f], []) c0 = (Inr ch1, c1)" and
    r2: "roll_while_if env sd StepReroll (find_condition ms reroll_recursive_of) 0 ch1 c1 = (Inr (it2, ch2), c2)" and
    r3: "roll_once_if env sd StepExplode (find_condition ms explode_once_of) ch2 c2 = (Inr ch3, c3)" and
    r4: "roll_while_if env sd StepExplode (find_condition ms explode_of) it2 ch3 c3
           = (Inr (it4, (d_rolls d, d_steps d)), c')" and
    d: "d_sides d = sd" "d_kept d" "d_final d = last (d_rolls d)"
    using assms f
    by (auto simp: roll_die_def split: prod.splits sum.splits)
  note f' = roll_face_ok [OF f]
  have ok0: "chain_ok sd ([f], [])" using f' by (simp add: chain_ok_def)
  from roll_once_ok [OF r1 ok0] obtain k1 where k1: "k1 \<le> 1" "extends_chain env sd ([f], []) c0 ch1 c1 k1" by blast
  then have ok1: "chain_ok sd ch1" by (simp add: extends_chain_def)
  note k2 = roll_while_if_ok [OF r2 ok1]
  then have ok2: "chain_ok sd ch2" by (simp add: extends_chain_def)
  from roll_once_ok [OF r3 ok2] obtain k3 where k3: "k3 \<le> 1" "extends_chain env sd ch2 c2 ch3 c3 k3" by blast
  then have ok3: "chain_ok sd ch3" by (simp add: extends_chain_def)
  note k4 = roll_while_if_ok [OF r4 ok3]
  let ?ch = "(d_rolls d, d_steps d)"
  have e: "extends_chain env sd ([f], []) c0 ?ch c' (k1 + (it2 - 0) + k3 + (it4 - it2))"
    using k1(2) k2 k3(2) k4 extends_chain_trans by (metis zero_le)
  have len: "length (d_rolls d) = Suc (k1 + it2 + k3 + (it4 - it2))" using e by (simp add: extends_chain_def)
  have "length (d_rolls d) \<le> max_iterations_per_die + 3"
    using len k1(1) k3(1) k2 k4 by simp
  moreover have "drew env (length (d_rolls d)) c c'"
    using e f' drew_trans [of env 1 c c0 _ c'] len by (simp add: extends_chain_def)
  moreover have "paid (length (d_rolls d) - 1) c c'"
    using e f' paid_trans [of 0 c c0 _ c'] len by (simp add: extends_chain_def)
  ultimately show ?thesis using e d by (simp add: die_ok_def extends_chain_def)
qed

section \<open>What a resolution records\<close>

definition plain :: "('r, 's) eval_env \<Rightarrow> bool" where
  "plain env \<longleftrightarrow> (\<forall>s. next_die env s = (None, s))"

lemma roll_dice_ok:
  assumes "plain env" and "roll_dice env sd ms n c = (Inr ds, c')"
  shows "length ds = n \<and> (\<forall>d \<in> set ds. die_ok d \<and> d_sides d = sd \<and> d_kept d \<and> d_final d = last (d_rolls d)) \<and>
    drew env (rolls_in ds) c c' \<and> paid (rolls_in ds - n) c c' \<and> n \<le> rolls_in ds"
  using assms(2)
proof (induction n arbitrary: c ds)
  case 0
  then show ?case by (simp add: drew_0 paid_0)
next
  case (Suc n)
  obtain x c1 where x: "roll_die env sd ms c = (x, c1)" by (cases "roll_die env sd ms c")
  with Suc.prems assms(1) obtain d where d: "roll_die env sd ms c = (Inr d, c1)"
    by (cases x) (simp_all add: plain_def)
  obtain y c2 where y: "roll_dice env sd ms n c1 = (y, c2)" by (cases "roll_dice env sd ms n c1")
  with Suc.prems d assms(1) obtain ds1 where ds1: "roll_dice env sd ms n c1 = (Inr ds1, c')" "ds = d # ds1"
    by (cases y) (simp_all add: plain_def)
  note d' = roll_die_ok [OF d] and r = Suc.IH [OF ds1(1)]
  have ne: "1 \<le> length (d_rolls d)" using d' by (cases "d_rolls d") (auto simp: die_ok_def chain_ok_def)
  have "drew env (rolls_in ds) c c'"
    using drew_trans [of env _ c c1 _ c'] d' r by (simp add: ds1)
  moreover have "paid ((length (d_rolls d) - 1) + (rolls_in ds1 - n)) c c'"
    using paid_trans [of _ c c1 _ c'] d' r by blast
  moreover have "(length (d_rolls d) - 1) + (rolls_in ds1 - n) = rolls_in ds - Suc n" using ne r ds1 by simp
  ultimately show ?case using d' r ne by (auto simp: ds1)
qed

definition face_record :: "die_outcome \<Rightarrow> die_sides \<times> int list \<times> chain_step list" where
  "face_record d = (d_sides d, d_rolls d, d_steps d)"

lemma face_record_update [simp]:
  "face_record (d\<lparr>d_kept := b\<rparr>) = face_record d" "face_record (d\<lparr>d_final := f\<rparr>) = face_record d"
  by (simp_all add: face_record_def)

lemma unkeep_record: "(\<forall>i \<in> set ix. i < length os) \<Longrightarrow> map face_record (unkeep os ix) = map face_record os"
proof (induction ix arbitrary: os)
  case (Cons i ix)
  then have "map face_record (unkeep os (i # ix)) = map face_record (os[i := (os ! i)\<lparr>d_kept := False\<rparr>])"
    by (simp add: unkeep_def)
  also have "\<dots> = map face_record os" using Cons.prems
    by (simp add: map_update) (metis length_map list_update_id nth_map)
  finally show ?case .
qed (simp add: unkeep_def)

lemma length_unkeep [simp]: "length (unkeep os ix) = length os"
  by (induction ix arbitrary: os) (simp_all add: unkeep_def)

lemma mark_record:
  assumes "\<forall>i \<in> set ix. i < length os"
  shows "map face_record (mark_drop_after os (sort_key f ix) n) = map face_record os"
    and "map face_record (mark_drop_first os (sort_key f ix) n) = map face_record os"
    and "length (mark_drop_after os (sort_key f ix) n) = length os"
    and "length (mark_drop_first os (sort_key f ix) n) = length os"
  using assms by (auto simp: mark_drop_after_def mark_drop_first_def intro!: unkeep_record
      dest: in_set_dropD in_set_takeD)

lemma keep_drop_record:
  "(\<forall>i \<in> set ix. i < length os) \<Longrightarrow> map face_record (keep_drop_from ix os ms) = map face_record os"
  by (induction ix os ms rule: keep_drop_from.induct)
    (simp_all add: Let_def mark_record)

lemma clamp_record: "map face_record (apply_clamp os ms) = map face_record os"
  unfolding apply_clamp_def
proof (induction ms arbitrary: os)
  case (Cons m ms)
  have "face_record (clamp_die m d) = face_record d" for d by (cases m) auto
  with Cons show ?case by (simp add: comp_def)
qed simp

lemma keep_clamp_record:
  "map face_record (apply_clamp (apply_keep_drop os ms) ms) = map face_record os"
  by (simp add: clamp_record apply_keep_drop_def keep_drop_record)

lemma record_rolls: "map face_record xs = map face_record ys \<Longrightarrow> rolls_in xs = rolls_in ys"
  unfolding rolls_in_def by (drule arg_cong [where f = "map (\<lambda>(_, r, _). length r)"]) (simp add: face_record_def comp_def)

lemma record_ok:
  "map face_record xs = map face_record ys \<Longrightarrow> (\<forall>d \<in> set xs. die_ok d) = (\<forall>d \<in> set ys. die_ok d)"
proof -
  assume eq: "map face_record xs = map face_record ys"
  have "die_ok d = (case face_record d of (sd, r, st) \<Rightarrow>
      chain_ok sd (r, st) \<and> length r \<le> max_iterations_per_die + 3)" for d
    by (simp add: die_ok_def face_record_def)
  then show ?thesis using eq by (metis (no_types, lifting) image_eqI image_iff list.set_map)
qed

text \<open>Evaluation appends records to the context and draws exactly their faces.\<close>

definition evaluates :: "('r, 's) eval_env \<Rightarrow> ('r, 's) eval_ctx \<Rightarrow> ('r, 's) eval_ctx \<Rightarrow> bool" where
  "evaluates env c c' \<longleftrightarrow>
     (\<exists>ds. c_dice c' = c_dice c @ ds \<and> (\<forall>d \<in> set ds. die_ok d) \<and>
       c_rng c' = (rng_next env ^^ rolls_in ds) (c_rng c) \<and> paid (rolls_in ds) c c')"

lemma evaluates_refl: "evaluates env c c"
  unfolding evaluates_def by (intro exI [of _ "[]"]) (simp add: paid_0)

lemma evaluates_trans: "evaluates env c c1 \<Longrightarrow> evaluates env c1 c2 \<Longrightarrow> evaluates env c c2"
  unfolding evaluates_def
proof (elim exE conjE)
  fix ds es
  assume a: "c_dice c1 = c_dice c @ ds" "\<forall>d\<in>set ds. die_ok d"
      "c_rng c1 = (rng_next env ^^ rolls_in ds) (c_rng c)" "paid (rolls_in ds) c c1"
    and b: "c_dice c2 = c_dice c1 @ es" "\<forall>d\<in>set es. die_ok d"
      "c_rng c2 = (rng_next env ^^ rolls_in es) (c_rng c1)" "paid (rolls_in es) c1 c2"
  have "c_rng c2 = (rng_next env ^^ rolls_in (ds @ es)) (c_rng c)"
    using a(3) b(3) funpow_add [of "rolls_in es" "rolls_in ds" "rng_next env"] by (simp add: add.commute)
  then show "\<exists>ds. c_dice c2 = c_dice c @ ds \<and> (\<forall>d\<in>set ds. die_ok d) \<and>
      c_rng c2 = (rng_next env ^^ rolls_in ds) (c_rng c) \<and> paid (rolls_in ds) c c2"
    using a b paid_trans [OF a(4) b(4)] by (intro exI [of _ "ds @ es"]) auto
qed

lemma roll_term_ok:
  assumes "plain env" and "roll_term env ms n sd c = (Inr v, c')"
  shows "evaluates env c c'"
proof -
  obtain x c1 where x: "take_dice_budget n c = (x, c1)" by (cases "take_dice_budget n c")
  with assms(2) have b: "take_dice_budget n c = (Inr (), c1)" by (cases x) (simp_all add: roll_term_def)
  with assms(2) obtain s where s: "begin_term env n sd (c_source c1) = Inr s"
    by (cases "begin_term env n sd (c_source c1)") (simp_all add: roll_term_def)
  obtain y c2 where y: "roll_dice env sd ms n (c1\<lparr>c_source := s\<rparr>) = (y, c2)"
    by (cases "roll_dice env sd ms n (c1\<lparr>c_source := s\<rparr>)")
  with assms(2) b s obtain ds where ds: "roll_dice env sd ms n (c1\<lparr>c_source := s\<rparr>) = (Inr ds, c2)"
    by (cases y) (simp_all add: roll_term_def)
  let ?os = "apply_clamp (apply_keep_drop ds ms) ms"
  have c': "c' = c2\<lparr>c_dice := c_dice c2 @ ?os\<rparr>"
    using assms(2) b s ds by (simp add: roll_term_def Let_def)
  note r = roll_dice_ok [OF assms(1) ds] and t = take_budget [OF b, of env]
  have "c_total c2 = c_total c + rolls_in ds" "c_total c2 \<le> max_total_dice"
    using t r by (auto simp: paid_def)
  then have "paid (rolls_in ?os) c c'"
    using record_rolls [OF keep_clamp_record, of ds ms] by (simp add: paid_def c')
  moreover have "\<forall>d \<in> set ?os. die_ok d" using r record_ok [OF keep_clamp_record, of ds ms] by blast
  ultimately show ?thesis
    unfolding evaluates_def using r t record_rolls [OF keep_clamp_record, of ds ms]
    by (intro exI [of _ ?os]) (simp add: c' drew_def)
qed

lemma eval_ok:
  shows "plain env \<Longrightarrow> eval_expr env e c = (Inr v, c') \<Longrightarrow> evaluates env c c'"
    and "plain env \<Longrightarrow> eval_sides env s c = (Inr sd, c') \<Longrightarrow> evaluates env c c'"
    and "plain env \<Longrightarrow> eval_dice_term env t c = (Inr v, c') \<Longrightarrow> evaluates env c c'"
    and "plain env \<Longrightarrow> eval_items env es c = (Inr vs, c') \<Longrightarrow> evaluates env c c'"
proof (induction env e c and env s c and env t c and env es c arbitrary: v c' and sd c' and v c' and vs c'
    rule: eval_expr_eval_sides_eval_dice_term_eval_items.induct)
  case (11 env cnt s ms c)
  then show ?case
    by (auto split: prod.splits sum.splits if_splits dest!: roll_term_ok [OF "11.prems"(1)])
      (meson evaluates_trans)
next
  case (4 env l b r c)
  then show ?case by (auto split: prod.splits sum.splits intro: evaluates_trans)
next
  case (13 env e es c)
  then show ?case by (auto split: prod.splits sum.splits intro: evaluates_trans)
qed (auto split: prod.splits sum.splits option.splits if_splits intro: evaluates_refl)

section \<open>Placeholders\<close>

fun placeholders :: "expr \<Rightarrow> ustring set" and sides_placeholders :: "sides \<Rightarrow> ustring set"
and term_placeholders :: "dice_term \<Rightarrow> ustring set" where
  "placeholders (Number v) = {}"
| "placeholders (Placeholder s) = {s}"
| "placeholders (Dice t) = term_placeholders t"
| "placeholders (Pool es ms) = (\<Union>e \<in> set es. placeholders e)"
| "placeholders (Neg e) = placeholders e"
| "placeholders (BinOp l b r) = placeholders l \<union> placeholders r"
| "placeholders (MathFn k e) = placeholders e"
| "sides_placeholders (SNumeric e) = placeholders e"
| "sides_placeholders SFate = {}"
| "sides_placeholders SCoin = {}"
| "term_placeholders (DiceTerm c s ms) = placeholders c \<union> sides_placeholders s"

lemma roll_face_bound [simp]: "roll_face (env\<lparr>bound := b\<rparr>) = roll_face env"
  by (intro ext) (simp add: roll_face_def)

lemma roll_again_bound [simp]: "roll_again (env\<lparr>bound := b\<rparr>) = roll_again env"
  by (intro ext) (simp add: roll_again_def cong: prod.case_cong sum.case_cong)

lemma roll_while_bound [simp]: "roll_while (env\<lparr>bound := b\<rparr>) sd st cd it ch c = roll_while env sd st cd it ch c"
proof (induction env sd st cd it ch c rule: roll_while.induct)
  case (1 env sd st cd it ch c)
  then show ?case
    by (subst (1 2) roll_while.simps) (auto split: prod.split sum.split)
qed

lemma roll_once_if_bound [simp]: "roll_once_if (env\<lparr>bound := b\<rparr>) = roll_once_if env"
  by (intro ext) (simp add: roll_once_if_def cong: option.case_cong if_cong)

lemma roll_while_if_bound [simp]: "roll_while_if (env\<lparr>bound := b\<rparr>) = roll_while_if env"
  by (intro ext) (simp add: roll_while_if_def cong: option.case_cong)

lemma roll_die_bound [simp]: "roll_die (env\<lparr>bound := b\<rparr>) sd ms = roll_die env sd ms"
  by (intro ext) (simp add: roll_die_def cong: prod.case_cong sum.case_cong)

lemma roll_dice_bound [simp]: "roll_dice (env\<lparr>bound := b\<rparr>) sd ms n c = roll_dice env sd ms n c"
  by (induction n arbitrary: c) (simp_all add: Let_def cong: option.case_cong prod.case_cong sum.case_cong)

lemma roll_term_bound [simp]: "roll_term (env\<lparr>bound := b\<rparr>) ms n sd c = roll_term env ms n sd c"
  by (simp add: roll_term_def cong: prod.case_cong sum.case_cong)

lemma eval_bound:
  shows "(\<forall>x \<in> placeholders e. bound env x = b x) \<Longrightarrow>
      eval_expr (env\<lparr>bound := b\<rparr>) e c = eval_expr env e c"
    and "(\<forall>x \<in> sides_placeholders s. bound env x = b x) \<Longrightarrow>
      eval_sides (env\<lparr>bound := b\<rparr>) s c = eval_sides env s c"
    and "(\<forall>x \<in> term_placeholders t. bound env x = b x) \<Longrightarrow>
      eval_dice_term (env\<lparr>bound := b\<rparr>) t c = eval_dice_term env t c"
    and "(\<forall>e \<in> set es. \<forall>x \<in> placeholders e. bound env x = b x) \<Longrightarrow>
      eval_items (env\<lparr>bound := b\<rparr>) es c = eval_items env es c"
  by (induction env e c and env s c and env t c and env es c
      rule: eval_expr_eval_sides_eval_dice_term_eval_items.induct)
    (simp_all split: prod.split sum.split option.split)

lemma eval_bound_dom:
  shows "eval_expr env e c = (Inr v, c') \<Longrightarrow> placeholders e \<subseteq> dom (bound env)"
    and "eval_sides env s c = (Inr sd, c') \<Longrightarrow> sides_placeholders s \<subseteq> dom (bound env)"
    and "eval_dice_term env t c = (Inr v, c') \<Longrightarrow> term_placeholders t \<subseteq> dom (bound env)"
    and "eval_items env es c = (Inr vs, c') \<Longrightarrow> (\<Union>e \<in> set es. placeholders e) \<subseteq> dom (bound env)"
  by (induction env e c and env s c and env t c and env es c arbitrary: v c' and sd c' and v c' and vs c'
      rule: eval_expr_eval_sides_eval_dice_term_eval_items.induct)
    (auto split: prod.splits sum.splits option.splits if_splits; blast)+

section \<open>Keeping the highest\<close>

lemma unkeep_nth:
  "(\<forall>i \<in> set ix. i < length os) \<Longrightarrow> i < length os \<Longrightarrow>
   unkeep os ix ! i = (if i \<in> set ix then (os ! i)\<lparr>d_kept := False\<rparr> else os ! i)"
proof (induction ix arbitrary: os)
  case (Cons j ix)
  have "unkeep os (j # ix) = unkeep (os[j := (os ! j)\<lparr>d_kept := False\<rparr>]) ix" by (simp add: unkeep_def)
  with Cons show ?case by (auto simp: nth_list_update)
qed (simp add: unkeep_def)

lemma filter_index: "filter P xs = map ((!) xs) (filter (\<lambda>i. P (xs ! i)) [0..<length xs])"
proof -
  have "filter P xs = filter P (map ((!) xs) [0..<length xs])" by (simp add: map_nth)
  then show ?thesis by (simp add: filter_map comp_def)
qed

text \<open>Marking some of the indices leaves exactly the others.\<close>

lemma kept_after_mark:
  assumes "mset (ks @ xs) = mset [0..<length os]" and "\<forall>d \<in> set os. d_kept d"
  shows "mset (map d_final (filter d_kept (unkeep os xs))) = mset (map (\<lambda>i. d_final (os ! i)) ks)"
proof -
  let ?un = "unkeep os xs"
  have "distinct (ks @ xs)" using assms(1) by (metis distinct_upt mset_eq_imp_distinct_iff)
  then have d: "set ks \<inter> set xs = {}" by simp
  have s: "set ks \<union> set xs = {0..<length os}" using assms(1) by (metis set_append set_mset_mset set_upt)
  have kept: "d_kept (?un ! i) = (i \<in> set ks)" "d_final (?un ! i) = d_final (os ! i)"
    if "i < length os" for i
  proof -
    have "(i \<in> set ks) = (i \<notin> set xs)" using d s that by auto
    moreover have "\<forall>i \<in> set xs. i < length os" using s by auto
    ultimately show "d_kept (?un ! i) = (i \<in> set ks)" "d_final (?un ! i) = d_final (os ! i)"
      using assms(2) that by (auto simp: unkeep_nth)
  qed
  have "filter_mset (\<lambda>i. i \<in> set ks) (mset (ks @ xs)) = mset (filter (\<lambda>i. i \<in> set ks) (ks @ xs))"
    by (simp only: mset_filter)
  also have "filter (\<lambda>i. i \<in> set ks) (ks @ xs) = ks"
    using d by (auto simp: filter_id_conv filter_empty_conv)
  finally have ks: "filter_mset (\<lambda>i. i \<in> set ks) (mset [0..<length os]) = mset ks"
    by (simp only: assms(1))
  have "map d_final (filter d_kept ?un) =
      map (\<lambda>i. d_final (?un ! i)) (filter (\<lambda>i. d_kept (?un ! i)) [0..<length os])"
    by (simp add: filter_index [of d_kept ?un])
  also have "\<dots> = map (\<lambda>i. d_final (os ! i)) (filter (\<lambda>i. i \<in> set ks) [0..<length os])"
    using kept by (intro map_cong filter_cong) auto
  finally show ?thesis using ks by (metis mset_filter mset_map)
qed

lemma map_sort_key: "map f (sort_key (\<lambda>x. g (f x)) xs) = sort_key g (map f xs)"
proof -
  have i: "map f (insort_key (\<lambda>x. g (f x)) x ys) = insort_key g (f x) (map f ys)" for x ys
    by (induction ys) auto
  show ?thesis by (induction xs) (simp_all add: i)
qed

lemma finals_by_index: "map (\<lambda>i. d_final (os ! i)) [0..<length os] = map d_final os"
  by (metis (no_types, lifting) map_map map_nth comp_def map_eq_conv)
lemma sorted_by_index:
  "map (\<lambda>i. d_final (os ! i)) (sort_key (\<lambda>i. d_final (os ! i)) [0..<length os]) = sort (map d_final os)"
  "map (\<lambda>i. d_final (os ! i)) (sort_key (\<lambda>i. - d_final (os ! i)) [0..<length os]) = rev (sort (map d_final os))"
proof -
  have "map (\<lambda>i. d_final (os ! i)) (sort_key (\<lambda>i. id (d_final (os ! i))) [0..<length os]) = sort_key id (map d_final os)"
    using map_sort_key [of "\<lambda>i. d_final (os ! i)" id] by (simp only: finals_by_index)
  then show "map (\<lambda>i. d_final (os ! i)) (sort_key (\<lambda>i. d_final (os ! i)) [0..<length os]) = sort (map d_final os)"
    by (simp add: id_def)
  have "map (\<lambda>i. d_final (os ! i)) (sort_key (\<lambda>i. uminus (d_final (os ! i))) [0..<length os])
      = sort_key uminus (map d_final os)"
    using map_sort_key [of "\<lambda>i. d_final (os ! i)" uminus] by (simp only: finals_by_index)
  also have "\<dots> = rev (sort (map d_final os))"
  proof (rule sort_key_inj_key_eq)
    have "sorted_wrt (\<ge>) (rev (sort (map d_final os)))" by (simp add: sorted_wrt_rev)
    then show "sorted (map uminus (rev (sort (map d_final os))))" by (simp add: sorted_map)
  qed simp_all
  finally show "map (\<lambda>i. d_final (os ! i)) (sort_key (\<lambda>i. - d_final (os ! i)) [0..<length os])
      = rev (sort (map d_final os))" .
qed

lemma mark_lemmas:
  assumes "\<forall>d \<in> set os. d_kept d"
  shows "mset (map d_final (filter d_kept (mark_drop_after os (sort_key f [0..<length os]) n))) =
      mset (take n (map (\<lambda>i. d_final (os ! i)) (sort_key f [0..<length os])))"
    and "mset (map d_final (filter d_kept (mark_drop_first os (sort_key f [0..<length os]) n))) =
      mset (drop n (map (\<lambda>i. d_final (os ! i)) (sort_key f [0..<length os])))"
proof -
  let ?ix = "sort_key f [0..<length os]"
  have a: "mset (take n ?ix @ drop n ?ix) = mset [0..<length os]" by simp
  have "mset (drop n ?ix @ take n ?ix) = mset (take n ?ix @ drop n ?ix)" by (metis mset_append union_commute)
  then have b: "mset (drop n ?ix @ take n ?ix) = mset [0..<length os]" by simp
  show "mset (map d_final (filter d_kept (mark_drop_after os ?ix n))) =
      mset (take n (map (\<lambda>i. d_final (os ! i)) ?ix))"
    using kept_after_mark [OF a assms] by (simp add: mark_drop_after_def take_map)
  show "mset (map d_final (filter d_kept (mark_drop_first os ?ix n))) =
      mset (drop n (map (\<lambda>i. d_final (os ! i)) ?ix))"
    using kept_after_mark [OF b assms] by (simp add: mark_drop_first_def drop_map)
qed

text \<open>Marking changes nothing of a die but whether it is kept.\<close>

lemma unkeep_frame: "map (d_kept_update (\<lambda>_. True)) (unkeep os ix) = map (d_kept_update (\<lambda>_. True)) os"
proof (induction ix arbitrary: os)
  case (Cons i ix)
  have "map (d_kept_update (\<lambda>_. True)) (os[i := (os ! i)\<lparr>d_kept := False\<rparr>]) = map (d_kept_update (\<lambda>_. True)) os"
    by (cases "i < length os") (simp_all add: map_update list_eq_iff_nth_eq nth_list_update)
  with Cons.IH show ?case by (simp add: unkeep_def)
qed (simp add: unkeep_def)

lemma keep_drop_frame: "map (d_kept_update (\<lambda>_. True)) (keep_drop_from ix os ms) = map (d_kept_update (\<lambda>_. True)) os"
  by (induction ix os ms rule: keep_drop_from.induct) (simp_all add: Let_def mark_drop_after_def mark_drop_first_def unkeep_frame)

text \<open>C30: a keep or drop modifier on freshly rolled dice keeps exactly the highest or lowest values,
  whatever their order and ties, and changes nothing but which dice are kept: with the marks put back, whatever
  modifiers were applied, the dice are the dice that were rolled.\<close>

theorem keep_drop_spec:
  assumes "\<forall>d \<in> set ds. d_kept d"
  shows "mset (map d_final (filter d_kept (apply_keep_drop ds [KeepHighest n]))) =
           mset (take n (rev (sort (map d_final ds))))
       \<and> mset (map d_final (filter d_kept (apply_keep_drop ds [KeepLowest n]))) =
           mset (take n (sort (map d_final ds)))
       \<and> mset (map d_final (filter d_kept (apply_keep_drop ds [DropHighest n]))) =
           mset (drop n (rev (sort (map d_final ds))))
       \<and> mset (map d_final (filter d_kept (apply_keep_drop ds [DropLowest n]))) =
           mset (drop n (sort (map d_final ds)))
       \<and> map (\<lambda>d. d\<lparr>d_kept := True\<rparr>) (apply_keep_drop ds ms) = ds"
proof -
  have "map (\<lambda>d. d\<lparr>d_kept := True\<rparr>) (apply_keep_drop ds ms) = map (\<lambda>d. d\<lparr>d_kept := True\<rparr>) ds"
    using keep_drop_frame [of "[0..<length ds]" ds ms] by (simp add: apply_keep_drop_def)
  also have "\<dots> = ds" using assms by (intro map_idI) simp
  finally have r: "map (\<lambda>d. d\<lparr>d_kept := True\<rparr>) (apply_keep_drop ds ms) = ds" .
  show ?thesis
    unfolding r unfolding apply_keep_drop_def keep_drop_from.simps Let_def mark_lemmas [OF assms] sorted_by_index
    by simp
qed

lemma keep_drop_spec_witness:
  "mset (map d_final (filter d_kept (apply_keep_drop
     [\<lparr>d_sides = Numeric 6, d_rolls = [2], d_steps = [], d_kept = True, d_final = 2\<rparr>,
      \<lparr>d_sides = Numeric 6, d_rolls = [5], d_steps = [], d_kept = True, d_final = 5\<rparr>,
      \<lparr>d_sides = Numeric 6, d_rolls = [4], d_steps = [], d_kept = True, d_final = 4\<rparr>] [KeepHighest 2]))) = {#5, 4#}"
  using keep_drop_spec [of "[\<lparr>d_sides = Numeric 6, d_rolls = [2], d_steps = [], d_kept = True, d_final = 2\<rparr>,
      \<lparr>d_sides = Numeric 6, d_rolls = [5], d_steps = [], d_kept = True, d_final = 5\<rparr>,
      \<lparr>d_sides = Numeric 6, d_rolls = [4], d_steps = [], d_kept = True, d_final = 4\<rparr>]" 2 "[]"]
  by (simp add: add_mset_commute)

section \<open>Guarantees of \<open>resolve\<close>\<close>

lemma resolve_cases:
  assumes "resolve draw f b rng = (Inr res, rng')"
  obtains v c where "eval_expr (plain_env draw b) (f_ast f)
      \<lparr>c_rng = rng, c_dice = [], c_total = 0, c_source = ()\<rparr> = (Inr v, c)"
    "is_finite (ev_value v)" "c_rng c = rng'"
    "res = \<lparr>r_formula = f_source f, r_dice = c_dice c,
       r_kind = (case ev_success v of Some n \<Rightarrow> SuccessCount n | None \<Rightarrow> Total (ev_value v))\<rparr>"
  using assms by (auto simp: resolve_def resolve_with_def split: prod.splits sum.splits if_splits)

lemma resolve_recorded:
  assumes "resolve draw f b rng = (Inr res, rng')"
  shows "(\<forall>d \<in> set (r_dice res). die_ok d) \<and> rolls_in (r_dice res) \<le> max_total_dice \<and>
    rng' = ((\<lambda>r. snd (draw r)) ^^ rolls_in (r_dice res)) rng"
proof -
  let ?env = "plain_env draw b" and ?c0 = "\<lparr>c_rng = rng, c_dice = [], c_total = 0, c_source = ()\<rparr>"
  obtain v c where e: "eval_expr ?env (f_ast f) ?c0 = (Inr v, c)" "c_rng c = rng'" "r_dice res = c_dice c"
    using assms by (rule resolve_cases) auto
  have "plain ?env" by (simp add: plain_def plain_env_def)
  from eval_ok(1) [OF this e(1)] have "evaluates ?env ?c0 c" .
  moreover have "rng_next ?env = (\<lambda>r. snd (draw r))" by (rule ext) (simp add: rng_next_def plain_env_def)
  ultimately show ?thesis using e by (auto simp: evaluates_def paid_def)
qed

text \<open>C5: a resolution records at most a thousand faces, every one of them a face of its die; each
  chain is bounded and every face after the first is explained; and the generator was asked for
  exactly one number per recorded face.\<close>

theorem resolve_records:
  assumes "resolve draw f b rng = (Inr res, rng')"
  shows "(\<forall>d \<in> set (r_dice res). die_ok d) \<and> rolls_in (r_dice res) \<le> max_total_dice \<and>
    rng' = ((\<lambda>r. snd (draw r)) ^^ rolls_in (r_dice res)) rng"
  by (rule resolve_recorded [OF assms])

text \<open>A generator for the witnesses: it returns its counter and counts up.\<close>

definition counting_rng :: "nat \<Rightarrow> u32 \<times> nat" where
  "counting_rng n = (of_nat n, n + 1)"

text \<open>C40: only the placeholders a formula names matter, and each of them must be bound: with any one
  missing the resolution is refused, never defaulted.\<close>

theorem resolve_placeholders:
  assumes "\<forall>x \<in> placeholders (f_ast f). b x = b' x"
  shows "resolve draw f b' rng = resolve draw f b rng \<and>
    (isl (fst (resolve draw f b rng)) \<or> placeholders (f_ast f) \<subseteq> dom b)"
proof -
  let ?c0 = "\<lparr>c_rng = rng, c_dice = [], c_total = 0, c_source = ()\<rparr>"
  have env: "plain_env draw b' = (plain_env draw b)\<lparr>bound := b'\<rparr>" by (simp add: plain_env_def)
  have "eval_expr (plain_env draw b') (f_ast f) ?c0 = eval_expr (plain_env draw b) (f_ast f) ?c0"
    unfolding env using assms by (intro eval_bound(1)) (simp add: plain_env_def)
  then have "resolve draw f b' rng = resolve draw f b rng" by (simp add: resolve_def resolve_with_def)
  moreover have "isl (fst (resolve draw f b rng)) \<or> placeholders (f_ast f) \<subseteq> dom b"
  proof (cases "resolve draw f b rng")
    case (Pair x rng')
    show ?thesis
    proof (cases x)
      case (Inr res)
      with Pair obtain v c where "eval_expr (plain_env draw b) (f_ast f) ?c0 = (Inr v, c)"
        by (blast elim: resolve_cases)
      from eval_bound_dom(1) [OF this] show ?thesis by (simp add: plain_env_def)
    qed (simp add: Pair)
  qed
  ultimately show ?thesis by blast
qed

lemma resolve_placeholders_witness:
  "resolve counting_rng \<lparr>f_source = U ''STR'', f_ast = Placeholder (U ''STR'')\<rparr>
     [U ''STR'' \<mapsto> Fin 3, U ''DEX'' \<mapsto> Fin 1] 0 =
   resolve counting_rng \<lparr>f_source = U ''STR'', f_ast = Placeholder (U ''STR'')\<rparr> [U ''STR'' \<mapsto> Fin 3] 0"
  using resolve_placeholders [of "\<lparr>f_source = U ''STR'', f_ast = Placeholder (U ''STR'')\<rparr>" "[U ''STR'' \<mapsto> Fin 3]"
      "[U ''STR'' \<mapsto> Fin 3, U ''DEX'' \<mapsto> Fin 1]" counting_rng 0]
  by simp

section \<open>The iteration cap\<close>

lemma plain_env_sel [simp]:
  "next_u32 (plain_env draw b) = draw" "bound (plain_env draw b) = b"
  "begin_term (plain_env draw b) n sd u = Inr u" "next_die (plain_env draw b) u = (None, u)"
  by (simp_all add: plain_env_def)

lemma take_one: "c_total c < max_total_dice \<Longrightarrow>
  take_dice_budget 1 c = (Inr (), c\<lparr>c_total := c_total c + 1\<rparr>)"
  by (simp add: take_dice_budget_def max_total_dice_def u32_max_def)

lemma roll_while_capped:
  assumes "\<And>f. face_ok sd f \<Longrightarrow> condition_matches cd f (max_face sd)"
    and "face_ok sd (last (fst ch))" and "it + k = max_iterations_per_die"
    and "c_total c + k \<le> max_total_dice"
  shows "fst (roll_while env sd step cd it ch c) = Inl (Refused IterationCapExceeded)"
  using assms(2-4)
proof (induction k arbitrary: it ch c)
  case 0
  then show ?case using assms(1) by (subst roll_while.simps) simp
next
  case (Suc k)
  then have lt: "it + 1 \<le> max_iterations_per_die" "c_total c < max_total_dice" by simp_all
  obtain f c2 where f: "roll_face env sd (c\<lparr>c_total := c_total c + 1\<rparr>) = (f, c2)"
    by (cases "roll_face env sd (c\<lparr>c_total := c_total c + 1\<rparr>)")
  have a: "roll_again env sd step ch c = (Inr (fst ch @ [f], snd ch @ [step]), c2)"
    using take_one [OF lt(2)] f by (simp add: roll_again_def)
  have m: "condition_matches cd (last (fst ch)) (max_face sd)" using assms(1) Suc.prems by simp
  have "c_total c2 = c_total c + 1" using roll_face_ok [OF f] by (simp add: paid_def)
  then have "fst (roll_while env sd step cd (it + 1) (fst ch @ [f], snd ch @ [step]) c2)
      = Inl (Refused IterationCapExceeded)"
    using Suc.prems roll_face_ok [OF f] by (intro Suc.IH) simp_all
  then show ?case using m a lt by (subst roll_while.simps) simp
qed

lemma rat_round_of_nat [simp]: "rat_round (of_nat n) = int n"
  by (simp add: rat_round_def floor_eq_iff)

lemma to_whole_nat: "n \<le> u32_max \<Longrightarrow> to_whole (Fin (of_nat n)) = Inr (int n)"
  by (auto simp: to_whole_def fround_def f_to_i64_def rat_trunc_def int_limits signed_zero_def)

text \<open>The same loop with the dice of the whole formula nearly used up.\<close>

lemma roll_while_exhausted:
  assumes "\<And>f. face_ok sd f \<Longrightarrow> condition_matches cd f (max_face sd)"
    and "face_ok sd (last (fst ch))" and "c_total c + k = max_total_dice" and "it + k < max_iterations_per_die"
  shows "fst (roll_while env sd step cd it ch c) = Inl (Refused DiceCountExceeded)"
  using assms(2-4)
proof (induction k arbitrary: it ch c)
  case 0
  then have "take_dice_budget 1 c = (Inl (Refused DiceCountExceeded), c\<lparr>c_total := c_total c + 1\<rparr>)"
    by (simp add: take_dice_budget_def max_total_dice_def u32_max_def)
  then have "roll_again env sd step ch c = (Inl (Refused DiceCountExceeded), c\<lparr>c_total := c_total c + 1\<rparr>)"
    by (simp add: roll_again_def)
  then show ?case using assms(1) 0 by (subst roll_while.simps) simp
next
  case (Suc k)
  then have lt: "it + 1 \<le> max_iterations_per_die" "c_total c < max_total_dice" by simp_all
  obtain f c2 where f: "roll_face env sd (c\<lparr>c_total := c_total c + 1\<rparr>) = (f, c2)"
    by (cases "roll_face env sd (c\<lparr>c_total := c_total c + 1\<rparr>)")
  have a: "roll_again env sd step ch c = (Inr (fst ch @ [f], snd ch @ [step]), c2)"
    using take_one [OF lt(2)] f by (simp add: roll_again_def)
  have m: "condition_matches cd (last (fst ch)) (max_face sd)" using assms(1) Suc.prems by simp
  have "c_total c2 = c_total c + 1" using roll_face_ok [OF f] by (simp add: paid_def)
  then have "fst (roll_while env sd step cd (it + 1) (fst ch @ [f], snd ch @ [step]) c2)
      = Inl (Refused DiceCountExceeded)"
    using Suc.prems roll_face_ok [OF f] by (intro Suc.IH) simp_all
  then show ?case using m a lt by (subst roll_while.simps) simp
qed

text \<open>C6: a term of \<open>m\<close> dice whose explosion matches every face does not hang and does not overrun the budget:
  with any modifiers beside it that neither reroll nor explode once, and whatever the generator draws, it is
  refused, with the iteration cap of one die where the budget of dice leaves room to reach it, and with
  the count of dice otherwise.\<close>

theorem unbounded_explosion_refused:
  assumes "1 \<le> n" and "n \<le> u32_max" and "1 \<le> m" and "m \<le> u32_max"
    and "find_condition ms explode_of = Some cd" and every: "\<forall>face \<in> {1..int n}. condition_matches cd face (int n)"
    and "find_condition ms reroll_of = None" and "find_condition ms reroll_recursive_of = None"
    and "find_condition ms explode_once_of = None"
  shows "fst (resolve draw \<lparr>f_source = src, f_ast =
      Dice (DiceTerm (Number (Fin (of_nat m))) (SNumeric (Number (Fin (of_nat n)))) ms)\<rparr> b rng)
    = Inl (Refused (if m + max_iterations_per_die \<le> max_total_dice then IterationCapExceeded else DiceCountExceeded))"
proof -
  let ?env = "plain_env draw b" and ?sd = "Numeric n"
  let ?e = "if m + max_iterations_per_die \<le> max_total_dice then IterationCapExceeded else DiceCountExceeded"
  let ?c0 = "\<lparr>c_rng = rng, c_dice = [], c_total = 0, c_source = ()\<rparr>"
  have all: "condition_matches cd f (max_face ?sd)" if "face_ok ?sd f" for f
    using that every assms(1) by (simp add: max_face_def)
  have "fst (roll_term ?env ms m ?sd ?c0) = Inl (Refused ?e)"
  proof (cases "m \<le> max_total_dice")
    case False
    then show ?thesis using assms(4) by (simp add: roll_term_def take_dice_budget_def max_total_dice_def)
  next
    case True
    let ?c1 = "\<lparr>c_rng = rng, c_dice = [], c_total = m, c_source = ()\<rparr>"
    have took: "take_dice_budget m ?c0 = (Inr (), ?c1)"
      using True assms(4) by (simp add: take_dice_budget_def)
    obtain k where m: "m = Suc k" using assms(3) by (cases m) auto
    obtain f c2 where f: "roll_face ?env ?sd ?c1 = (f, c2)" by (cases "roll_face ?env ?sd ?c1")
    have c2: "face_ok ?sd f" "c_total c2 = m" using roll_face_ok [OF f] by (simp_all add: paid_def)
    have "fst (roll_while ?env ?sd StepExplode cd 0 ([f], []) c2) = Inl (Refused ?e)"
    proof (cases "m + max_iterations_per_die \<le> max_total_dice")
      case True
      then show ?thesis
        using roll_while_capped [OF all, of "([f], [])" 0 max_iterations_per_die c2 ?env StepExplode] c2 by simp
    next
      case False
      then show ?thesis
        using roll_while_exhausted [OF all, of "([f], [])" c2 "max_total_dice - m" 0 ?env StepExplode] c2 True by simp
    qed
    then obtain c3 where w: "roll_while ?env ?sd StepExplode cd 0 ([f], []) c2 = (Inl (Refused ?e), c3)" by (metis prod.collapse)
    have d: "roll_die ?env ?sd ms ?c1 = (Inl (Refused ?e), c3)"
      using f w assms(5,7-9) by (simp add: roll_die_def roll_once_if_def roll_while_if_def)
    have "roll_dice ?env ?sd ms m ?c1 = (Inl (Refused ?e), c3)" using d by (simp add: m Let_def)
    then show ?thesis using took by (simp add: roll_term_def)
  qed
  then obtain c4 where "roll_term ?env ms m ?sd ?c0 = (Inl (Refused ?e), c4)" by (metis prod.collapse)
  moreover have "as_u32 (int m) = m" "as_u32 (int n) = n" using assms(2,4) by (simp_all add: as_u32_id u32_max_def)
  ultimately show ?thesis
    using assms(1-4) to_whole_nat [OF assms(2)] to_whole_nat [OF assms(4)]
    by (simp add: resolve_def resolve_with_def total_value_def)
qed

lemma unbounded_explosion_refused_witness:
  "fst (resolve counting_rng \<lparr>f_source = U ''3d6x>=1kh1'', f_ast =
      Dice (DiceTerm (Number (Fin (of_nat 3))) (SNumeric (Number (Fin (of_nat 6)))) [Explode (CGte 1), KeepHighest 1])\<rparr> Map.empty 0)
    = Inl (Refused IterationCapExceeded)"
  using unbounded_explosion_refused [of 6 3 "[Explode (CGte 1), KeepHighest 1]" "CGte 1" counting_rng "U ''3d6x>=1kh1''" Map.empty 0]
  by (simp add: u32_max_def find_condition_def max_iterations_per_die_def max_total_dice_def del: U_simps)

lemma resolve_2d6:
  "resolve counting_rng \<lparr>f_source = U ''2d6'', f_ast = Dice (DiceTerm (Number (Fin 2)) (SNumeric (Number (Fin 6))) [])\<rparr>
     Map.empty 4 =
   (Inr \<lparr>r_formula = U ''2d6'', r_dice =
      [\<lparr>d_sides = Numeric 6, d_rolls = [5], d_steps = [], d_kept = True, d_final = 5\<rparr>,
       \<lparr>d_sides = Numeric 6, d_rolls = [6], d_steps = [], d_kept = True, d_final = 6\<rparr>], r_kind = Total (Fin 11)\<rparr>, 6)"
proof -
  have w: "to_whole (Fin 2) = Inr 2" "to_whole (Fin 6) = Inr 6"
    using to_whole_nat [of 2] to_whole_nat [of 6] by (simp_all add: u32_max_def)
  have a: "as_u32 2 = 2" "as_u32 6 = 6" by (simp_all add: as_u32_def u32_max_def)
  have two: "roll_dice e sd ms 2 c = roll_dice e sd ms (Suc (Suc 0)) c" for e :: "(nat, unit) eval_env" and sd ms c
    by (simp only: numeral_2_eq_2)
  show ?thesis
    by (simp add: resolve_def resolve_with_def total_value_def w a roll_term_def take_dice_budget_def
      max_total_dice_def u32_max_def two roll_die_def roll_face_def counting_rng_def roll_once_if_def
      roll_while_if_def find_condition_def apply_clamp_def apply_keep_drop_def compute_success_count_def
      i64_sum_def f64_of_int_exact wrap_i64_def)
qed

lemma resolve_records_witness:
  "rolls_in [\<lparr>d_sides = Numeric 6, d_rolls = [5], d_steps = [], d_kept = True, d_final = 5\<rparr>,
       \<lparr>d_sides = Numeric 6, d_rolls = [6], d_steps = [], d_kept = True, d_final = 6\<rparr>] \<le> max_total_dice"
  using resolve_records [OF resolve_2d6] by simp

end
