(* ===== verification/Dice_Meaning.thy ===== *)
theory Dice_Meaning
  imports Dice_Print Dice_Eval
begin

text \<open>
  The canonical print order changes nothing about what a formula means: the evaluator applies each
  family of modifiers at its own stage (the claim at the head of rewrite.rs). The stages read the
  modifiers only through their families, and the sort that orders the families is stable.
\<close>

definition of_family :: "nat \<Rightarrow> modifier list \<Rightarrow> modifier list" where
  "of_family k ms = filter (\<lambda>m. family m = k) ms"

definition same_families :: "modifier list \<Rightarrow> modifier list \<Rightarrow> bool" where
  "same_families ms ns \<longleftrightarrow> set ms = set ns \<and> (\<forall>k. of_family k ms = of_family k ns)"

lemma same_families_sort: "same_families (sort_key family ms) ms"
  by (simp add: same_families_def of_family_def sort_key_stable)

lemma find_same:
  assumes "same_families ms ns" and "\<And>m. f m \<noteq> None \<Longrightarrow> family m = k"
  shows "find_map f ms = find_map f ns"
proof -
  have "find_map f (of_family k ms) = find_map f ms" for ms
    unfolding of_family_def by (rule find_map_filter) (rule assms(2))
  moreover have "of_family k ms = of_family k ns" using assms(1) by (simp add: same_families_def)
  ultimately show ?thesis by metis
qed

lemma find_condition_same:
  assumes "same_families ms ns"
  shows "find_condition ms reroll_of = find_condition ns reroll_of"
    and "find_condition ms reroll_recursive_of = find_condition ns reroll_recursive_of"
    and "find_condition ms explode_of = find_condition ns explode_of"
    and "find_condition ms explode_once_of = find_condition ns explode_once_of"
    and "find_condition ms successes_of = find_condition ns successes_of"
    and "find_condition ms failures_of = find_condition ns failures_of"
    and "find_condition ms subtract_failure_of = find_condition ns subtract_failure_of"
    and "find_map margin_of ms = find_map margin_of ns"
proof -
  show "find_condition ms reroll_of = find_condition ns reroll_of"
    unfolding find_condition_def by (rule find_same [OF assms, of _ 0]) (auto elim: reroll_of.elims)
  show "find_condition ms reroll_recursive_of = find_condition ns reroll_recursive_of"
    unfolding find_condition_def by (rule find_same [OF assms, of _ 0]) (auto elim: reroll_recursive_of.elims)
  show "find_condition ms explode_of = find_condition ns explode_of"
    unfolding find_condition_def by (rule find_same [OF assms, of _ 1]) (auto elim: explode_of.elims)
  show "find_condition ms explode_once_of = find_condition ns explode_once_of"
    unfolding find_condition_def by (rule find_same [OF assms, of _ 1]) (auto elim: explode_once_of.elims)
  show "find_condition ms successes_of = find_condition ns successes_of"
    unfolding find_condition_def by (rule find_same [OF assms, of _ 4]) (auto elim: successes_of.elims)
  show "find_condition ms failures_of = find_condition ns failures_of"
    unfolding find_condition_def by (rule find_same [OF assms, of _ 4]) (auto elim: failures_of.elims)
  show "find_condition ms subtract_failure_of = find_condition ns subtract_failure_of"
    unfolding find_condition_def by (rule find_same [OF assms, of _ 4]) (auto elim: subtract_failure_of.elims)
  show "find_map margin_of ms = find_map margin_of ns"
    by (rule find_same [OF assms, of _ 4]) (auto elim: margin_of.elims)
qed

text \<open>Each pass skips what is not its own.\<close>

lemma keep_drop_family: "keep_drop_from ix os ms = keep_drop_from ix os (of_family 2 ms)"
  by (induction ix os ms rule: keep_drop_from.induct) (simp_all add: of_family_def Let_def)

lemma clamp_family: "apply_clamp os ms = apply_clamp os (of_family 3 ms)"
  unfolding apply_clamp_def of_family_def
proof (induction ms arbitrary: os)
  case (Cons m ms)
  have "family m \<noteq> 3 \<Longrightarrow> clamp_die m = id" by (rule ext) (cases m; simp)
  with Cons show ?case by simp
qed simp

lemma roll_dice_same:
  assumes "same_families ms ns" shows "roll_dice env sd ms n c = roll_dice env sd ns n c"
proof -
  have "roll_die env sd ms = roll_die env sd ns"
    by (intro ext) (simp only: roll_die_def find_condition_same [OF assms])
  then show ?thesis
    by (induction n arbitrary: c) (simp_all add: Let_def cong: option.case_cong prod.case_cong sum.case_cong)
qed

lemma roll_term_same:
  assumes "same_families ms ns" shows "roll_term env ms n sd c = roll_term env ns n sd c"
proof -
  have "apply_keep_drop os ms = apply_keep_drop os ns" for os
    unfolding apply_keep_drop_def
    using assms keep_drop_family [of _ os ms] keep_drop_family [of _ os ns] by (simp add: same_families_def)
  moreover have "apply_clamp os ms = apply_clamp os ns" for os
    using assms clamp_family [of os ms] clamp_family [of os ns] by (simp add: same_families_def)
  moreover have "compute_success_count os ms mf = compute_success_count os ns mf" for os mf
    using assms by (simp only: compute_success_count_def find_condition_same [OF assms] same_families_def)
  ultimately show ?thesis by (simp only: roll_term_def roll_dice_same [OF assms])
qed

text \<open>Two trees that differ only in the order of modifiers of different families.\<close>

fun alike :: "expr \<Rightarrow> expr \<Rightarrow> bool" and alike_sides :: "sides \<Rightarrow> sides \<Rightarrow> bool"
and alike_term :: "dice_term \<Rightarrow> dice_term \<Rightarrow> bool" where
  "alike (Number v) e = (e = Number v)"
| "alike (Placeholder s) e = (e = Placeholder s)"
| "alike (Dice t) e = (case e of Dice t' \<Rightarrow> alike_term t t' | _ \<Rightarrow> False)"
| "alike (Pool es ms) e = (case e of Pool es' ms' \<Rightarrow> ms' = ms \<and> list_all2 alike es es' | _ \<Rightarrow> False)"
| "alike (Neg a) e = (case e of Neg a' \<Rightarrow> alike a a' | _ \<Rightarrow> False)"
| "alike (BinOp l b r) e = (case e of BinOp l' b' r' \<Rightarrow> b' = b \<and> alike l l' \<and> alike r r' | _ \<Rightarrow> False)"
| "alike (MathFn k a) e = (case e of MathFn k' a' \<Rightarrow> k' = k \<and> alike a a' | _ \<Rightarrow> False)"
| "alike_sides (SNumeric a) s = (case s of SNumeric a' \<Rightarrow> alike a a' | _ \<Rightarrow> False)"
| "alike_sides SFate s = (s = SFate)"
| "alike_sides SCoin s = (s = SCoin)"
| "alike_term (DiceTerm c s ms) t =
     (case t of DiceTerm c' s' ms' \<Rightarrow> alike c c' \<and> alike_sides s s' \<and> same_families ms ms')"

lemma eval_alike:
  shows "alike e e' \<Longrightarrow> eval_expr env e' c = eval_expr env e c"
    and "alike_sides s s' \<Longrightarrow> eval_sides env s' c = eval_sides env s c"
    and "alike_term t t' \<Longrightarrow> eval_dice_term env t' c = eval_dice_term env t c"
    and "list_all2 alike es es' \<Longrightarrow> eval_items env es' c = eval_items env es c"
proof (induction env e c and env s c and env t c and env es c arbitrary: e' and s' and t' and es'
    rule: eval_expr_eval_sides_eval_dice_term_eval_items.induct)
  case (11 env cnt s ms c)
  then obtain cnt' s' ms' where t': "t' = DiceTerm cnt' s' ms'" and al: "alike cnt cnt'" "alike_sides s s'"
      and sf: "same_families ms ms'" by (cases t') auto
  have "eval_expr env cnt' c = eval_expr env cnt c" using "11.IH"(1) al by blast
  moreover have "eval_sides env s' c1 = eval_sides env s c1"
    if "eval_expr env cnt c = (Inr v, c1)" "to_whole (ev_value v) = Inr n" "\<not> n < 0" for v c1 n
    using "11.IH"(2) that al by (metis)
  ultimately show ?case
    by (auto simp: t' roll_term_same [OF sf] split: prod.split sum.split)
qed (auto simp: list_all2_Cons1 split: expr.splits sides.splits prod.split sum.split)

text \<open>Reordering a formula's modifiers across families, as the canonical printer does, changes
  neither the dice rolled nor the result, for any generator and any bindings.\<close>

theorem family_order_irrelevant:
  assumes "alike e e'"
  shows "fst (resolve draw \<lparr>f_source = s, f_ast = e'\<rparr> b rng) = fst (resolve draw \<lparr>f_source = s, f_ast = e\<rparr> b rng)"
  by (simp add: resolve_def resolve_with_def eval_alike(1) [OF assms] prod.case_eq_if split: sum.split)

lemma family_order_irrelevant_witness:
  "fst (resolve counting_rng \<lparr>f_source = [], f_ast = Dice (DiceTerm (Number (Fin 2)) (SNumeric (Number (Fin 6)))
      [Reroll (CEq 1), KeepHighest 1])\<rparr> Map.empty 0) =
   fst (resolve counting_rng \<lparr>f_source = [], f_ast = Dice (DiceTerm (Number (Fin 2)) (SNumeric (Number (Fin 6)))
      [KeepHighest 1, Reroll (CEq 1)])\<rparr> Map.empty 0)"
  by (rule family_order_irrelevant) (auto simp: same_families_def of_family_def)

text \<open>An edit that touches every term and changes none: the tree it leaves is alike.\<close>

definition touch :: "unit editor" where
  "touch u v = (Some \<lparr>te_count = None, te_add = []\<rparr>, u)"

lemma visit_term_touch:
  "snd (visit_term touch st (DiceTerm c s ms)) = DiceTerm c s (sort_key family ms)"
  "v_changed (fst (visit_term touch st t))"
  by (simp_all add: visit_term_def touch_def apply_edit_def Let_def)

lemma visit_touch:
  shows "alike e (snd (visit_terms touch st e))"
    and "list_all2 alike es (snd (visit_items touch st es))"
proof (induction touch st e and touch st es rule: visit_terms_visit_items.induct)
  case (1 st t)
  obtain c s ms where t: "t = DiceTerm c s ms" by (cases t)
  obtain st1 t1 where v: "visit_term touch st t = (st1, t1)" by (cases "visit_term touch st t")
  with visit_term_touch(1) [of st c s ms] have t1: "t1 = DiceTerm c s (sort_key family ms)" by (simp add: t)
  obtain st2 c2 where c: "visit_terms touch st1 c = (st2, c2)" by (cases "visit_terms touch st1 c")
  have c2: "alike c c2" using 1(1) [OF v [symmetric]] c t1 by simp
  have sf: "same_families ms (sort_key family ms)"
    using same_families_sort [of ms] by (simp add: same_families_def)
  show ?case
  proof (cases s)
    case (SNumeric e)
    obtain st3 e2 where e: "visit_terms touch st2 e = (st3, e2)" by (cases "visit_terms touch st2 e")
    have "alike e e2" using 1(2) [OF v [symmetric], of st2 c2 e] c t1 e SNumeric by simp
    then show ?thesis using v c e c2 sf SNumeric by (simp add: t t1)
  qed (use v c c2 sf in \<open>simp_all add: t t1\<close>)
qed (simp_all add: prod.case_eq_if, (metis prod.collapse)+)

text \<open>C29: a rewrite that touches the dice terms of a formula without changing any reprints the formula in
  canonical order, and the printed formula resolves exactly as the original does, for every formula that has
  a dice term to touch and whose literals are finite.\<close>

theorem canonical_print_keeps_meaning:
  assumes "parse f = Inr e" and "finite_expr e"
    and "v_changed (fst (visit_terms touch \<lparr>v_index = 0, v_changed = False, v_edit = ()\<rparr> e))"
  shows "\<exists>g e'. rewrite_dice_terms touch () f = Inr g \<and> parse g = Inr e' \<and>
    (\<forall>draw b (rng :: 'r) s. fst (resolve draw \<lparr>f_source = s, f_ast = e'\<rparr> b rng) =
      fst (resolve draw \<lparr>f_source = s, f_ast = e\<rparr> b rng))"
proof -
  let ?st = "\<lparr>v_index = 0, v_changed = False, v_edit = ()\<rparr>"
  obtain st1 e1 where v: "visit_terms touch ?st e = (st1, e1)" by (cases "visit_terms touch ?st e")
  have "wf_editor touch" by (simp add: wf_editor_def touch_def wf_edit_def)
  then have "wf_expr e1 \<and> finite_expr e1"
    using visit_wf(1) [OF _ parse_wf [OF assms(1)] assms(2), of touch ?st] v by simp
  then have "parse (print_expr e1) = Inr e1" by (intro parse_print) simp_all
  moreover have "rewrite_dice_terms touch () f = Inr (print_expr e1)"
    using assms(1,3) v by (simp add: rewrite_dice_terms_def)
  moreover have "alike e e1" using visit_touch(1) [of e ?st] v by simp
  then have "fst (resolve draw \<lparr>f_source = s, f_ast = e1\<rparr> b (rng :: 'r))
      = fst (resolve draw \<lparr>f_source = s, f_ast = e\<rparr> b rng)" for draw b rng s
    by (simp add: resolve_def resolve_with_def eval_alike(1) prod.case_eq_if split: sum.split)
  ultimately show ?thesis by blast
qed

lemma canonical_print_keeps_meaning_witness:
  "\<exists>g e'. rewrite_dice_terms touch () (U ''2d6kh1r1'') = Inr g \<and> parse g = Inr e' \<and>
    (\<forall>draw b (rng :: nat) s. fst (resolve draw \<lparr>f_source = s, f_ast = e'\<rparr> b rng) =
      fst (resolve draw \<lparr>f_source = s, f_ast = Dice (DiceTerm (Number (Fin 2)) (SNumeric (Number (Fin 6)))
        [KeepHighest 1, Reroll (CEq 1)])\<rparr> b rng))"
  by (rule canonical_print_keeps_meaning)
    (simp_all add: parse_eval visit_term_def touch_def apply_edit_def Let_def)

end
