(* ===== verification/Dice_Replay.thy ===== *)
theory Dice_Replay
  imports Dice_Parser Dice_Eval
begin

text \<open>
  Rolling a recorded roll again while keeping its dice (crates/thunderforge-dice/src/replay.rs). The
  trait \<open>DrawSource\<close> is the locale \<open>recorded_source\<close>: what the evaluator relies on when it takes a
  term's dice from a recording. Both implementations, the flat line of pass one and the groups of
  pass two, are interpretations, and the main result, that a replay without an edit reproduces
  the resolution, is the locale's simulation applied to each in turn.
\<close>

section \<open>The two sources\<close>

definition mismatch :: "ustring \<Rightarrow> formula_error" where
  "mismatch why = ReplayMismatch why"

record flat_source =
  fl_dice :: "die_outcome list"
  fl_sizes :: "nat list"
  fl_left :: nat

definition flat_begin :: "nat \<Rightarrow> die_sides \<Rightarrow> flat_source \<Rightarrow> formula_error + flat_source" where
  "flat_begin n sd s =
     (if length (fl_dice s) < n
      then Inl (mismatch (U ''fewer dice were recorded than the formula rolls''))
      else if \<exists>d \<in> set (take n (fl_dice s)). d_sides d \<noteq> sd
      then Inl (mismatch (U ''a recorded die has the wrong number of sides''))
      else Inr (s\<lparr>fl_sizes := fl_sizes s @ [n], fl_left := n\<rparr>))"

definition flat_next :: "flat_source \<Rightarrow> die_outcome option \<times> flat_source" where
  "flat_next s =
     (if fl_left s = 0 then (None, s)
      else let s1 = s\<lparr>fl_left := fl_left s - 1\<rparr> in
        case fl_dice s1 of
          [] \<Rightarrow> (None, s1)
        | d # ds \<Rightarrow> (Some d, s1\<lparr>fl_dice := ds\<rparr>))"

record grouped_source =
  gr_groups :: "die_outcome list list"
  gr_next :: nat
  gr_current :: "nat option"

definition grouped_begin :: "nat \<Rightarrow> die_sides \<Rightarrow> grouped_source \<Rightarrow> formula_error + grouped_source" where
  "grouped_begin n sd s =
     (if length (gr_groups s) \<le> gr_next s
      then Inl (mismatch (U ''the formula has more dice terms than were recorded''))
      else let group = gr_groups s ! gr_next s in
        if n < length group then Inl (mismatch (U ''a term rolls fewer dice than were recorded''))
        else if \<exists>d \<in> set group. d_sides d \<noteq> sd
        then Inl (mismatch (U ''a term'' @ [39] @ U ''s die has changed its sides''))
        else Inr (s\<lparr>gr_current := Some (gr_next s), gr_next := gr_next s + 1\<rparr>))"

definition grouped_next :: "grouped_source \<Rightarrow> die_outcome option \<times> grouped_source" where
  "grouped_next s =
     (case gr_current s of
        None \<Rightarrow> (None, s)
      | Some i \<Rightarrow>
          (case gr_groups s ! i of
             [] \<Rightarrow> (None, s)
           | d # ds \<Rightarrow> (Some d, s\<lparr>gr_groups := (gr_groups s)[i := ds]\<rparr>)))"

section \<open>Replaying\<close>

record recorded =
  rc_formula :: ustring
  rc_bindings :: bindings
  rc_resolution :: roll_resolution

datatype replay_edit = NoEdit | RerollDie nat

definition lowest_die :: "roll_resolution \<Rightarrow> nat \<Rightarrow> nat option" where
  "lowest_die res n =
     (case filter (\<lambda>(i, d). d_sides d = Numeric n) (List.enumerate 0 (r_dice res)) of
        [] \<Rightarrow> None
      | xs \<Rightarrow> Some (fst (arg_min_list (\<lambda>(i, d). (d_final d, i)) xs)))"

definition fresh :: "die_outcome \<Rightarrow> die_outcome" where
  "fresh d = d\<lparr>d_kept := True, d_final := (if d_rolls d = [] then d_final d else last (d_rolls d))\<rparr>"

definition reroll :: "('r \<Rightarrow> u32 \<times> 'r) \<Rightarrow> die_outcome \<Rightarrow> 'r \<Rightarrow> die_outcome \<times> 'r" where
  "reroll draw d rng =
     (case draw rng of (w, rng1) \<Rightarrow>
      let face = (case d_sides d of
            Numeric n \<Rightarrow> 1 + int (unat w mod max n 1)
          | Fate \<Rightarrow> int (unat w mod 3) - 1
          | Coin \<Rightarrow> int (unat w mod 2));
          d1 = (if length (d_steps d) + 1 = length (d_rolls d)
                then d\<lparr>d_steps := d_steps d @ [StepReroll]\<rparr> else d) in
      (d1\<lparr>d_rolls := d_rolls d1 @ [face], d_final := face\<rparr>, rng1))"

fun split_sizes :: "nat list \<Rightarrow> 'a list \<Rightarrow> 'a list list" where
  "split_sizes [] xs = []"
| "split_sizes (n # ns) xs = take n xs # split_sizes ns (drop n xs)"

definition flat_env :: "('r \<Rightarrow> u32 \<times> 'r) \<Rightarrow> bindings \<Rightarrow> ('r, flat_source) eval_env" where
  "flat_env draw b = \<lparr>next_u32 = draw, bound = b, begin_term = flat_begin, next_die = flat_next\<rparr>"

definition grouped_env :: "('r \<Rightarrow> u32 \<times> 'r) \<Rightarrow> bindings \<Rightarrow> ('r, grouped_source) eval_env" where
  "grouped_env draw b = \<lparr>next_u32 = draw, bound = b, begin_term = grouped_begin, next_die = grouped_next\<rparr>"

text \<open>The second pass, once the dice and their groups are known.\<close>

definition replay_grouped ::
    "('r \<Rightarrow> u32 \<times> 'r) \<Rightarrow> bindings \<Rightarrow> dice_formula \<Rightarrow> nat list \<Rightarrow> die_outcome list \<Rightarrow> 'r
      \<Rightarrow> (eval_failure + roll_resolution) \<times> 'r" where
  "replay_grouped draw b target sizes dice rng =
     (case resolve_with (grouped_env draw b) target rng
         \<lparr>gr_groups = split_sizes sizes dice, gr_next = 0, gr_current = None\<rparr> of
        (Inl e, c) \<Rightarrow> (Inl e, c_rng c)
      | (Inr res, c) \<Rightarrow>
          if gr_next (c_source c) \<noteq> length (gr_groups (c_source c))
          then (Inl (Refused (mismatch (U ''the formula has fewer dice terms than were recorded''))), c_rng c)
          else (Inr res, c_rng c))"

definition replay ::
    "('r \<Rightarrow> u32 \<times> 'r) \<Rightarrow> recorded \<Rightarrow> ustring option \<Rightarrow> replay_edit \<Rightarrow> 'r
      \<Rightarrow> (eval_failure + roll_resolution) \<times> 'r" where
  "replay draw original reshaped edit rng =
     (case parse_formula (rc_formula original) of
        Inl e \<Rightarrow> (Inl (Refused e), rng)
      | Inr source \<Rightarrow>
      let b = rc_bindings original; recorded_dice = map fresh (r_dice (rc_resolution original)) in
      case resolve_with (flat_env draw b) source rng
          \<lparr>fl_dice = recorded_dice, fl_sizes = [], fl_left = 0\<rparr> of
        (Inl e, c) \<Rightarrow> (Inl e, c_rng c)
      | (Inr _, c) \<Rightarrow>
      let flat = c_source c; rng1 = c_rng c in
      if fl_dice flat \<noteq> []
      then (Inl (Refused (mismatch (U ''more dice were recorded than the formula rolls''))), rng1)
      else
        let edited = (case edit of
              NoEdit \<Rightarrow> Inr (recorded_dice, rng1)
            | RerollDie i \<Rightarrow>
                if i < length recorded_dice
                then (case reroll draw (recorded_dice ! i) rng1 of (d, rng2) \<Rightarrow> Inr (recorded_dice[i := d], rng2))
                else Inl (mismatch (U ''there is no such die to reroll''))) in
        case edited of
          Inl e \<Rightarrow> (Inl (Refused e), rng1)
        | Inr (dice, rng2) \<Rightarrow>
            (case (case reshaped of Some formula \<Rightarrow> parse_formula formula | None \<Rightarrow> Inr source) of
               Inl e \<Rightarrow> (Inl (Refused e), rng2)
             | Inr target \<Rightarrow> replay_grouped draw b target (fl_sizes flat) dice rng2))"

section \<open>Following a recording\<close>

text \<open>What a source promises: it is \<open>ready\<close> to serve the dice of the terms to come, one group per
  term; a term of the right size and sides opens its group, and the group's dice come in order.\<close>

locale recorded_source =
  fixes begin_op :: "nat \<Rightarrow> die_sides \<Rightarrow> 's \<Rightarrow> formula_error + 's"
    and next_op :: "'s \<Rightarrow> die_outcome option \<times> 's"
    and ready :: "'s \<Rightarrow> die_outcome list list \<Rightarrow> bool"
    and serving :: "'s \<Rightarrow> die_outcome list \<Rightarrow> die_outcome list list \<Rightarrow> bool"
  assumes begin_group: "ready s (g # gs) \<Longrightarrow> (\<forall>d \<in> set g. d_sides d = sd) \<Longrightarrow>
      \<exists>s1. begin_op (length g) sd s = Inr s1 \<and> serving s1 g gs"
    and next_in_group: "serving s (d # g) gs \<Longrightarrow> \<exists>s1. next_op s = (Some d, s1) \<and> serving s1 g gs"
    and group_done: "serving s [] gs \<Longrightarrow> ready s gs"
begin

lemma roll_dice_serves:
  assumes "next_die env = next_op" and "serving (c_source c) g gs"
  shows "\<exists>s. roll_dice env sd ms (length g) c = (Inr g, c\<lparr>c_source := s\<rparr>) \<and> ready s gs"
  using assms(2)
proof (induction g arbitrary: c)
  case Nil
  then show ?case using group_done by (intro exI [of _ "c_source c"]) simp
next
  case (Cons d g)
  obtain s1 where s1: "next_op (c_source c) = (Some d, s1)" "serving s1 g gs"
    using next_in_group [OF Cons.prems] by blast
  obtain s where "roll_dice env sd ms (length g) (c\<lparr>c_source := s1\<rparr>)
      = (Inr g, c\<lparr>c_source := s1\<rparr>\<lparr>c_source := s\<rparr>)" "ready s gs"
    using Cons.IH [of "c\<lparr>c_source := s1\<rparr>"] s1 by auto
  then show ?case using s1 assms(1) by (intro exI [of _ s]) (simp add: Let_def)
qed

end

section \<open>A plain resolve does not look at its source\<close>

definition sourceless :: "('r, 's) eval_env \<Rightarrow> bool" where
  "sourceless env \<longleftrightarrow> (\<forall>s. next_die env s = (None, s)) \<and> (\<forall>n sd s. \<exists>s1. begin_term env n sd s = Inr s1)"

definition core :: "('r, 's) eval_ctx \<Rightarrow> 'r \<times> die_outcome list \<times> nat" where
  "core c = (c_rng c, c_dice c, c_total c)"

definition agree :: "('r, 's, 'a) outcome \<Rightarrow> ('r, 't, 'a) outcome \<Rightarrow> bool" where
  "agree p q \<longleftrightarrow> fst p = fst q \<and> core (snd p) = core (snd q)"

lemma agree_pair: "core c = core d \<Longrightarrow> agree (r, c) (r, d)"
  by (simp add: agree_def)

lemma agree_bind:
  assumes "agree p q" and "\<And>a c d. core c = core d \<Longrightarrow> agree (f a c) (g a d)"
  shows "agree (case p of (Inl e, c) \<Rightarrow> (Inl e, c) | (Inr a, c) \<Rightarrow> f a c)
               (case q of (Inl e, c) \<Rightarrow> (Inl e, c) | (Inr a, c) \<Rightarrow> g a c)"
  using assms by (cases p; cases q; cases "fst p"; cases "fst q") (auto simp: agree_def)

lemma core_update [simp]:
  "core (c\<lparr>c_source := s\<rparr>) = core c"
  by (simp add: core_def)

lemma agree_budget: "core c = core d \<Longrightarrow> agree (take_dice_budget n c) (take_dice_budget n d)"
  by (auto simp: take_dice_budget_def core_def agree_def Let_def)

lemma agree_face:
  assumes "core c = core d" and "next_u32 env' = next_u32 env"
  shows "\<exists>f c1 d1. roll_face env sd c = (f, c1) \<and> roll_face env' sd d = (f, d1) \<and> core c1 = core d1"
  using assms by (cases "next_u32 env (c_rng c)") (auto simp: roll_face_def core_def)

lemma agree_again:
  assumes "core c = core d" and "next_u32 env' = next_u32 env"
  shows "agree (roll_again env sd st ch c) (roll_again env' sd st ch d)"
  unfolding roll_again_def
proof (rule agree_bind [OF agree_budget [OF assms(1)]])
  fix a :: unit and c d :: "('a, 'b) eval_ctx" and d' :: "('a, 'c) eval_ctx"
  show "agree (case roll_face env sd c of (f, c2) \<Rightarrow> (Inr (fst ch @ [f], snd ch @ [st]), c2))
      (case roll_face env' sd d' of (f, c2) \<Rightarrow> (Inr (fst ch @ [f], snd ch @ [st]), c2))"
    if "core c = core d'"
    using agree_face [OF that assms(2), of sd] by (auto intro: agree_pair)
qed

lemma agree_once:
  assumes "core c = core d" and "next_u32 env' = next_u32 env"
  shows "agree (roll_once_if env sd st cond ch c) (roll_once_if env' sd st cond ch d)"
  using assms by (auto simp: roll_once_if_def intro: agree_again agree_pair split: option.split)

lemma agree_while:
  assumes "core c = core d" and "next_u32 env' = next_u32 env"
  shows "agree (roll_while env sd st cd it ch c) (roll_while env' sd st cd it ch d)"
  using assms
proof (induction env sd st cd it ch c arbitrary: d rule: roll_while.induct)
  case (1 env sd st cd it ch c)
  show ?case
  proof (cases "condition_matches cd (last (fst ch)) (max_face sd) \<and> \<not> max_iterations_per_die < it + 1")
    case False
    with 1 show ?thesis
      by (subst (1 2) roll_while.simps) (auto intro: agree_pair)
  next
    case True
    have a: "agree (roll_again env sd st ch c) (roll_again env' sd st ch d)"
      using 1 by (intro agree_again)
    show ?thesis
    proof (cases "roll_again env sd st ch c")
      case (Pair x c1)
      obtain d1 where d1: "roll_again env' sd st ch d = (x, d1)" "core c1 = core d1"
        using a Pair by (cases "roll_again env' sd st ch d") (auto simp: agree_def)
      show ?thesis
      proof (cases x)
        case (Inl e)
        with True Pair d1 show ?thesis by (subst (1 2) roll_while.simps) (simp add: agree_def)
      next
        case (Inr ch1)
        have "agree (roll_while env sd st cd (it + 1) ch1 c1) (roll_while env' sd st cd (it + 1) ch1 d1)"
          using True by (intro "1.IH" [OF _ _ Pair [symmetric] Inr d1(2) "1.prems"(2)]) simp_all
        with True Pair d1 Inr show ?thesis by (subst (1 2) roll_while.simps) simp
      qed
    qed
  qed
qed

lemma agree_while_if:
  assumes "core c = core d" and "next_u32 env' = next_u32 env"
  shows "agree (roll_while_if env sd st cond it ch c) (roll_while_if env' sd st cond it ch d)"
  using assms by (auto simp: roll_while_if_def intro: agree_while agree_pair split: option.split)

lemma agree_die:
  assumes "core c = core d" and "next_u32 env' = next_u32 env"
  shows "agree (roll_die env sd ms c) (roll_die env' sd ms d)"
proof -
  obtain f c1 d1 where f: "roll_face env sd c = (f, c1)" "roll_face env' sd d = (f, d1)" "core c1 = core d1"
    using agree_face [OF assms] by blast
  show ?thesis
    unfolding roll_die_def f prod.case
    apply (rule agree_bind [OF agree_once [OF f(3) assms(2)]])
    apply (rule agree_bind [OF agree_while_if [OF _ assms(2)]], assumption)
    subgoal for a c d p c' d'
      apply (cases p)
      apply (simp only: prod.case)
      apply (rule agree_bind [OF agree_once [OF _ assms(2)]], assumption)
      apply (rule agree_bind [OF agree_while_if [OF _ assms(2)]], assumption)
      apply (auto intro: agree_pair split: prod.split)
      done
    done
qed

lemma agree_dice:
  assumes "core c = core d" and "next_u32 env' = next_u32 env" and "sourceless env" and "sourceless env'"
  shows "agree (roll_dice env sd ms n c) (roll_dice env' sd ms n d)"
  using assms(1)
proof (induction n arbitrary: c d)
  case 0
  then show ?case by (simp add: agree_pair)
next
  case (Suc n)
  have "agree (roll_die env sd ms c) (roll_die env' sd ms d)" by (rule agree_die [OF Suc.prems assms(2)])
  then show ?case
    using assms(3,4)
    apply (simp add: sourceless_def)
    apply (erule agree_bind)
    apply (rule agree_bind [OF Suc.IH], assumption)
    apply (erule agree_pair)
    done
qed

lemma agree_term:
  assumes "core c = core d" and "next_u32 env' = next_u32 env" and "sourceless env" and "sourceless env'"
  shows "agree (roll_term env ms n sd c) (roll_term env' ms n sd d)"
  unfolding roll_term_def
  apply (rule agree_bind [OF agree_budget [OF assms(1)]])
  subgoal for u c1 d1
  proof -
    assume c1: "core c1 = core d1"
    obtain s s' where s: "begin_term env n sd (c_source c1) = Inr s" "begin_term env' n sd (c_source d1) = Inr s'"
      using assms(3,4) by (meson sourceless_def)
    have "agree (roll_dice env sd ms n (c1\<lparr>c_source := s\<rparr>)) (roll_dice env' sd ms n (d1\<lparr>c_source := s'\<rparr>))"
      using c1 assms(2-4) by (intro agree_dice) simp_all
    then show ?thesis
      unfolding s sum.case
      by (rule agree_bind) (auto simp: Let_def core_def intro!: agree_pair)
  qed
  done

lemma agree_eval:
  assumes "next_u32 env' = next_u32 env" and "bound env' = bound env" and "sourceless env" and "sourceless env'"
  shows "core c = core d \<Longrightarrow> agree (eval_expr env e c) (eval_expr env' e d)"
    and "core c = core d \<Longrightarrow> agree (eval_dice_term env t c) (eval_dice_term env' t d)"
    and "core c = core d \<Longrightarrow> agree (eval_sides env s c) (eval_sides env' s d)"
proof (induction e and t and s arbitrary: c d and c d and c d)
  case (Pool es ms)
  have items: "agree (eval_items env es' c) (eval_items env' es' d)" if "core c = core d" "set es' \<subseteq> set es" for es' c d
    using that
  proof (induction es' arbitrary: c d)
    case (Cons e es')
    have "agree (eval_expr env e c) (eval_expr env' e d)" using Pool.IH Cons.prems by auto
    then show ?case
      unfolding eval_items.simps
      apply (rule agree_bind)
      apply (rule agree_bind [OF Cons.IH], assumption)
      using Cons.prems apply simp
      apply (erule agree_pair)
      done
  qed (simp add: agree_pair)
  show ?case
    unfolding eval_expr.simps
    by (rule agree_bind [OF items [OF Pool.prems order_refl]]) (auto intro: agree_pair split: option.split)
next
  case (BinOp l b r)
  show ?case
    unfolding eval_expr.simps
    by (rule agree_bind [OF BinOp.IH(1) [OF BinOp.prems]], rule agree_bind [OF BinOp.IH(2)], assumption,
      erule agree_pair)
next
  case (DiceTerm cnt s ms)
  show ?case
    unfolding eval_dice_term.simps
    apply (rule agree_bind [OF DiceTerm.IH(1) [OF DiceTerm.prems]])
    subgoal for v c d
      apply (cases "to_whole (ev_value v)"; simp add: agree_pair)
      apply (rule impI)
      apply (rule agree_bind [OF DiceTerm.IH(2)], assumption)
      apply (rule agree_term [OF _ assms(1,3,4)], assumption)
      done
    done
next
  case (SNumeric e)
  show ?case
    unfolding eval_sides.simps
    by (rule agree_bind [OF SNumeric.IH [OF SNumeric.prems]])
      (auto intro: agree_pair split: sum.split)
next
  case (Neg e)
  show ?case
    unfolding eval_expr.simps by (rule agree_bind [OF Neg.IH [OF Neg.prems]]) (erule agree_pair)
next
  case (MathFn k e)
  show ?case
    unfolding eval_expr.simps by (rule agree_bind [OF MathFn.IH [OF MathFn.prems]]) (erule agree_pair)
qed (auto simp: assms(2) intro: agree_pair split: option.split)

section \<open>Recording the terms\<close>

text \<open>The run that is recorded, watched by a source that only writes down each term's size.\<close>

definition logging_env :: "('r \<Rightarrow> u32 \<times> 'r) \<Rightarrow> bindings \<Rightarrow> ('r, nat list) eval_env" where
  "logging_env draw b =
     \<lparr>next_u32 = draw, bound = b, begin_term = (\<lambda>n sd s. Inr (s @ [n])), next_die = (\<lambda>s. (None, s))\<rparr>"

lemma logging_sel [simp]:
  "next_u32 (logging_env draw b) = draw" "bound (logging_env draw b) = b"
  "begin_term (logging_env draw b) n sd u = Inr (u @ [n])" "next_die (logging_env draw b) u = (None, u)"
  by (simp_all add: logging_env_def)

lemma logging_plain: "plain (logging_env draw b)" "sourceless (logging_env draw b)"
  by (simp_all add: plain_def sourceless_def)

lemma fresh_record: "map face_record os = map face_record ds \<Longrightarrow>
  (\<forall>d \<in> set ds. d_kept d \<and> d_final d = last (d_rolls d) \<and> d_rolls d \<noteq> []) \<Longrightarrow> map fresh os = ds"
proof (induction os arbitrary: ds)
  case (Cons x os)
  then obtain d ds' where ds: "ds = d # ds'" by (cases ds) auto
  have "fresh x = d"
    using Cons.prems by (auto simp: ds fresh_def face_record_def)
  with Cons ds show ?case by auto
qed simp

context recorded_source begin

text \<open>A step of the recorded run from \<open>c\<close> to \<open>c'\<close> with value \<open>v\<close> is tracked by the replayed step \<open>F\<close>
  when some groups of dice, recorded by it, make \<open>F\<close> return \<open>v\<close> with the same dice, draw nothing,
  and leave the source ready for what comes after them.\<close>

definition tracked ::
    "('r, nat list) eval_ctx \<Rightarrow> ('r, nat list) eval_ctx \<Rightarrow> (('q, 's) eval_ctx \<Rightarrow> ('q, 's, 'a) outcome) \<Rightarrow> 'a
      \<Rightarrow> bool" where
  "tracked c c' F v \<longleftrightarrow>
     (\<exists>os gs. c_dice c' = c_dice c @ os \<and> map fresh os = concat gs \<and>
       c_source c' = c_source c @ map length gs \<and> c_total c \<le> c_total c' \<and>
       (\<forall>c2 rest. ready (c_source c2) (gs @ rest) \<and> c_total c2 \<le> c_total c \<longrightarrow>
         (\<exists>c2'. F c2 = (Inr v, c2') \<and> c_dice c2' = c_dice c2 @ os \<and> c_rng c2' = c_rng c2 \<and>
           c_total c2' \<le> c_total c' \<and> ready (c_source c2') rest)))"

lemma tracked_return: "(\<And>c2. F c2 = (Inr v, c2)) \<Longrightarrow> tracked c c F v"
  unfolding tracked_def by (intro exI [of _ "[]"]) simp

lemma tracked_bind:
  assumes "tracked c c1 F a" and "tracked c1 c' (G a) v"
  shows "tracked c c' (\<lambda>c2. case F c2 of (Inl e, c3) \<Rightarrow> (Inl e, c3) | (Inr a, c3) \<Rightarrow> G a c3) v"
proof -
  obtain os gs where a: "c_dice c1 = c_dice c @ os" "map fresh os = concat gs"
      "c_source c1 = c_source c @ map length gs" "c_total c \<le> c_total c1"
    and F: "\<And>c2 rest. ready (c_source c2) (gs @ rest) \<Longrightarrow> c_total c2 \<le> c_total c \<Longrightarrow>
         (\<exists>c2'. F c2 = (Inr a, c2') \<and> c_dice c2' = c_dice c2 @ os \<and> c_rng c2' = c_rng c2 \<and>
           c_total c2' \<le> c_total c1 \<and> ready (c_source c2') rest)"
    using assms(1) unfolding tracked_def by blast
  obtain os' gs' where b: "c_dice c' = c_dice c1 @ os'" "map fresh os' = concat gs'"
      "c_source c' = c_source c1 @ map length gs'" "c_total c1 \<le> c_total c'"
    and G: "\<And>c2 rest. ready (c_source c2) (gs' @ rest) \<Longrightarrow> c_total c2 \<le> c_total c1 \<Longrightarrow>
         (\<exists>c2'. G a c2 = (Inr v, c2') \<and> c_dice c2' = c_dice c2 @ os' \<and> c_rng c2' = c_rng c2 \<and>
           c_total c2' \<le> c_total c' \<and> ready (c_source c2') rest)"
    using assms(2) unfolding tracked_def by blast
  have "\<exists>c4. (case F c2 of (Inl e, c3) \<Rightarrow> (Inl e, c3) | (Inr a, c3) \<Rightarrow> G a c3) = (Inr v, c4) \<and>
      c_dice c4 = c_dice c2 @ os @ os' \<and> c_rng c4 = c_rng c2 \<and> c_total c4 \<le> c_total c' \<and>
      ready (c_source c4) rest"
    if r: "ready (c_source c2) ((gs @ gs') @ rest)" and t: "c_total c2 \<le> c_total c" for c2 rest
  proof -
    from r have r': "ready (c_source c2) (gs @ (gs' @ rest))" by simp
    obtain c3 where c3: "F c2 = (Inr a, c3)" "c_dice c3 = c_dice c2 @ os" "c_rng c3 = c_rng c2"
        "c_total c3 \<le> c_total c1" "ready (c_source c3) (gs' @ rest)"
      using F [OF r' t] by blast
    from G [OF c3(5,4)] c3 show ?thesis by auto
  qed
  then show ?thesis
    unfolding tracked_def using a b
    by (intro exI [of _ "os @ os'"] exI [of _ "gs @ gs'"]) simp
qed

lemma roll_term_tracked:
  assumes "roll_term (logging_env draw b) ms n sd c = (Inr v, c')"
    and "begin_term env = begin_op" and "next_die env = next_op"
  shows "tracked c c' (roll_term env ms n sd) v"
proof -
  let ?log = "logging_env draw b"
  obtain x c1 where x: "take_dice_budget n c = (x, c1)" by (cases "take_dice_budget n c")
  with assms(1) have bd: "take_dice_budget n c = (Inr (), c1)" by (cases x) (simp_all add: roll_term_def)
  note t = take_budget [OF bd, of ?log]
  let ?c1 = "c1\<lparr>c_source := c_source c1 @ [n]\<rparr>"
  obtain y c3 where y: "roll_dice ?log sd ms n ?c1 = (y, c3)" by (cases "roll_dice ?log sd ms n ?c1")
  with assms(1) bd obtain ds where ds: "roll_dice ?log sd ms n ?c1 = (Inr ds, c3)"
    by (cases y) (simp_all add: roll_term_def)
  note r = roll_dice_ok [OF logging_plain(1) ds]
  let ?os = "apply_clamp (apply_keep_drop ds ms) ms"
  have c': "c' = c3\<lparr>c_dice := c_dice c3 @ ?os\<rparr>"
    and v: "v = \<lparr>ev_value = (case compute_success_count ?os ms (max_face sd) of Some k \<Rightarrow> f64_of_int k
        | None \<Rightarrow> f64_of_int (i64_sum (map d_final (filter d_kept ?os)))),
      ev_success = compute_success_count ?os ms (max_face sd)\<rparr>"
    using assms(1) bd ds by (simp_all add: roll_term_def Let_def)
  have ne: "\<forall>d \<in> set ds. d_kept d \<and> d_final d = last (d_rolls d) \<and> d_rolls d \<noteq> []"
    using r by (auto simp: die_ok_def chain_ok_def)
  have fr: "map fresh ?os = concat [ds]"
    using fresh_record [OF keep_clamp_record ne] by simp
  have tot: "c_total c + n \<le> c_total c'" "c_total c + n \<le> max_total_dice"
    using t r by (auto simp: paid_def c')
  have "\<exists>c2'. roll_term env ms n sd c2 = (Inr v, c2') \<and> c_dice c2' = c_dice c2 @ ?os \<and>
      c_rng c2' = c_rng c2 \<and> c_total c2' \<le> c_total c' \<and> ready (c_source c2') rest"
    if rd: "ready (c_source c2) ([ds] @ rest)" and le: "c_total c2 \<le> c_total c" for c2 rest
  proof -
    let ?c3 = "c2\<lparr>c_total := c_total c2 + n\<rparr>"
    have bud: "take_dice_budget n c2 = (Inr (), ?c3)"
      using tot(2) le by (simp add: take_dice_budget_def Let_def max_total_dice_def u32_max_def)
    obtain s1 where s1: "begin_op n sd (c_source c2) = Inr s1" "serving s1 ds rest"
      using begin_group [of "c_source c2" ds rest sd] rd r by auto
    obtain s2 where s2: "roll_dice env sd ms n (?c3\<lparr>c_source := s1\<rparr>) = (Inr ds, ?c3\<lparr>c_source := s2\<rparr>)" "ready s2 rest"
      using roll_dice_serves [of env "?c3\<lparr>c_source := s1\<rparr>" ds rest sd ms] s1 r assms(3) by auto
    show ?thesis
      using bud s1 s2 assms(2) tot(1) le
      by (intro exI [of _ "?c3\<lparr>c_source := s2, c_dice := c_dice c2 @ ?os\<rparr>"])
        (simp add: roll_term_def Let_def v)
  qed
  then show ?thesis
    unfolding tracked_def using fr tot t r
    by (intro exI [of _ ?os] exI [of _ "[ds]"]) (auto simp: c' drew_def)
qed

end

context recorded_source begin

lemma tracked_cong: "(\<And>c2. F c2 = F' c2) \<Longrightarrow> tracked c c' F' v \<Longrightarrow> tracked c c' F v"
  by (simp add: tracked_def)

lemma tracked_value: "F = (\<lambda>c2. (Inr v, c2)) \<Longrightarrow> tracked c c F v"
  by (simp add: tracked_return)

lemma eval_tracked:
  assumes env: "begin_term env = begin_op" "next_die env = next_op" "bound env = b"
  shows "eval_expr (logging_env draw b) e c = (Inr v, c') \<Longrightarrow> tracked c c' (eval_expr env e) v"
    and "eval_dice_term (logging_env draw b) t c = (Inr v, c') \<Longrightarrow> tracked c c' (eval_dice_term env t) v"
    and "eval_sides (logging_env draw b) s c = (Inr sd, c') \<Longrightarrow> tracked c c' (eval_sides env s) sd"
proof (induction e and t and s arbitrary: c c' v and c c' v and c c' sd)
  case (Pool es ms)
  have items: "tracked c c' (eval_items env es') vs"
    if "eval_items (logging_env draw b) es' c = (Inr vs, c')" "set es' \<subseteq> set es" for es' c c' vs
    using that
  proof (induction es' arbitrary: c c' vs)
    case Nil
    then show ?case by (auto intro: tracked_return)
  next
    case (Cons x es')
    from Cons.prems(1) obtain w c1 where w: "eval_expr (logging_env draw b) x c = (Inr w, c1)"
      and r: "(case eval_items (logging_env draw b) es' c1 of (Inl e, c3) \<Rightarrow> (Inl e, c3)
        | (Inr us, c3) \<Rightarrow> (Inr (ev_value w # us), c3)) = (Inr vs, c')"
      unfolding eval_items.simps by (rule bind_Inr)
    from r obtain us where us: "eval_items (logging_env draw b) es' c1 = (Inr us, c')" "vs = ev_value w # us"
      by (rule bind_Inr) simp
    show ?case
      apply (rule tracked_cong [OF eval_items.simps(2)])
      apply (rule tracked_bind [OF Pool.IH [OF _ w]])
      using Cons.prems apply simp
      apply (rule tracked_bind [OF Cons.IH [OF us(1)]])
      using Cons.prems us by (auto intro: tracked_return)
  qed
  from Pool.prems obtain totals c1 where t: "eval_items (logging_env draw b) es c = (Inr totals, c1)"
    and r: "(case pool_value totals ms of None \<Rightarrow> (Inl Panicked, c1) | Some v \<Rightarrow> (Inr (total_value v), c1)) = (Inr v, c')"
    unfolding eval_expr.simps by (rule bind_Inr)
  then obtain p where p: "pool_value totals ms = Some p" "v = total_value p" "c' = c1"
    by (auto split: option.splits)
  show ?case
    apply (rule tracked_cong [OF eval_expr.simps(7)])
    apply (rule tracked_bind [OF items [OF t order_refl]])
    using p by (auto intro: tracked_return)
next
  case (BinOp l bo r)
  from BinOp.prems obtain x c1 where x: "eval_expr (logging_env draw b) l c = (Inr x, c1)"
    and k: "(case eval_expr (logging_env draw b) r c1 of (Inl x, c2) \<Rightarrow> (Inl x, c2)
        | (Inr y, c2) \<Rightarrow> (map_sum Refused id (eval_binop bo x y), c2)) = (Inr v, c')"
    unfolding eval_expr.simps by (rule bind_Inr)
  from k obtain y where y: "eval_expr (logging_env draw b) r c1 = (Inr y, c')"
    "map_sum Refused id (eval_binop bo x y) = Inr v" by (rule bind_Inr) simp
  show ?case
    by (rule tracked_cong [OF eval_expr.simps(4)], rule tracked_bind [OF BinOp.IH(1) [OF x]],
      rule tracked_bind [OF BinOp.IH(2) [OF y(1)]], rule tracked_return) (simp add: y)
next
  case (DiceTerm cnt s ms)
  let ?L = "logging_env draw b"
  from DiceTerm.prems obtain x c1 where x: "eval_expr ?L cnt c = (Inr x, c1)"
    and k: "(case to_whole (ev_value x) of Inl e \<Rightarrow> (Inl (Refused e), c1)
           | Inr n \<Rightarrow> if n < 0 then (Inl (Refused negative_count), c1)
               else case eval_sides ?L s c1 of (Inl e, c2) \<Rightarrow> (Inl e, c2)
                 | (Inr sd, c2) \<Rightarrow> roll_term ?L ms (as_u32 n) sd c2) = (Inr v, c')"
    unfolding eval_dice_term.simps by (rule bind_Inr)
  from k obtain n where n: "to_whole (ev_value x) = Inr n" "\<not> n < 0"
    and k2: "(case eval_sides ?L s c1 of (Inl e, c2) \<Rightarrow> (Inl e, c2)
                 | (Inr sd, c2) \<Rightarrow> roll_term ?L ms (as_u32 n) sd c2) = (Inr v, c')"
    by (cases "to_whole (ev_value x)") (auto split: if_splits)
  from k2 obtain sd c2 where sd: "eval_sides ?L s c1 = (Inr sd, c2)"
    and r: "roll_term ?L ms (as_u32 n) sd c2 = (Inr v, c')" by (rule bind_Inr)
  show ?case
    apply (rule tracked_cong [OF eval_dice_term.simps])
    apply (rule tracked_bind [OF DiceTerm.IH(1) [OF x]])
    apply (simp only: n sum.case if_False)
    apply (rule tracked_bind [OF DiceTerm.IH(2) [OF sd]])
    apply (rule roll_term_tracked [OF r env(1,2)])
    done
next
  case (SNumeric e)
  from SNumeric.prems obtain x c1 where x: "eval_expr (logging_env draw b) e c = (Inr x, c1)"
    and k: "(case to_whole (ev_value x) of Inl e \<Rightarrow> (Inl (Refused e), c1)
      | Inr n \<Rightarrow> if n < 1 then (Inl (Refused small_die), c1) else (Inr (Numeric (as_u32 n)), c1)) = (Inr sd, c')"
    unfolding eval_sides.simps by (rule bind_Inr)
  then obtain n where n: "to_whole (ev_value x) = Inr n" "\<not> n < 1" "sd = Numeric (as_u32 n)" "c' = c1"
    by (cases "to_whole (ev_value x)") (auto split: if_splits)
  show ?case
    apply (rule tracked_cong [OF eval_sides.simps(3)])
    apply (rule tracked_bind [OF SNumeric.IH [OF x]])
    using n by (auto intro: tracked_return)
next
  case (Neg e)
  from Neg.prems obtain x where x: "eval_expr (logging_env draw b) e c = (Inr x, c')"
    "v = total_value (fneg (ev_value x))"
    unfolding eval_expr.simps by (rule bind_Inr) simp
  show ?case
    by (rule tracked_cong [OF eval_expr.simps(3)], rule tracked_bind [OF Neg.IH [OF x(1)]], rule tracked_return)
      (simp add: x)
next
  case (MathFn k e)
  from MathFn.prems obtain x where x: "eval_expr (logging_env draw b) e c = (Inr x, c')"
    "map_sum Refused id (eval_math k (ev_value x)) = Inr v"
    unfolding eval_expr.simps by (rule bind_Inr) simp
  show ?case
    by (rule tracked_cong [OF eval_expr.simps(5)], rule tracked_bind [OF MathFn.IH [OF x(1)]], rule tracked_return)
      (simp add: x)
next
  case (Dice t)
  then have "tracked c c' (eval_dice_term env t) v" by simp
  then show ?case by (rule tracked_cong [OF eval_expr.simps(6)])
qed (auto simp: env intro!: tracked_return split: option.splits)

end

section \<open>The two passes are recorded sources\<close>

lemma split_sizes_concat: "split_sizes (map length gs) (concat gs) = gs"
  by (induction gs) simp_all

definition flat_ready :: "nat list \<Rightarrow> flat_source \<Rightarrow> die_outcome list list \<Rightarrow> bool" where
  "flat_ready szs s gs \<longleftrightarrow> fl_dice s = concat gs \<and> fl_sizes s @ map length gs = szs"

definition flat_serving :: "nat list \<Rightarrow> flat_source \<Rightarrow> die_outcome list \<Rightarrow> die_outcome list list \<Rightarrow> bool" where
  "flat_serving szs s g gs \<longleftrightarrow>
     fl_dice s = g @ concat gs \<and> fl_left s = length g \<and> fl_sizes s @ map length gs = szs"

interpretation flat: recorded_source flat_begin flat_next "flat_ready szs" "flat_serving szs"
  for szs :: "nat list"
proof unfold_locales
  fix s g gs and sd :: die_sides
  assume "flat_ready szs s (g # gs)" "\<forall>d \<in> set g. d_sides d = sd"
  then show "\<exists>s1. flat_begin (length g) sd s = Inr s1 \<and> flat_serving szs s1 g gs"
    by (simp add: flat_begin_def flat_ready_def flat_serving_def)
qed (auto simp: flat_next_def flat_serving_def flat_ready_def)

definition grouped_ready :: "nat \<Rightarrow> grouped_source \<Rightarrow> die_outcome list list \<Rightarrow> bool" where
  "grouped_ready n s gs \<longleftrightarrow>
     length (gr_groups s) = n \<and> gr_next s \<le> n \<and> drop (gr_next s) (gr_groups s) = gs"

definition grouped_serving :: "nat \<Rightarrow> grouped_source \<Rightarrow> die_outcome list \<Rightarrow> die_outcome list list \<Rightarrow> bool" where
  "grouped_serving n s g gs \<longleftrightarrow>
     (\<exists>i. gr_current s = Some i \<and> gr_next s = Suc i \<and> length (gr_groups s) = n \<and> i < n \<and>
       gr_groups s ! i = g \<and> drop (Suc i) (gr_groups s) = gs)"

interpretation grouped: recorded_source grouped_begin grouped_next "grouped_ready n" "grouped_serving n"
  for n :: nat
proof unfold_locales
  fix s g gs and sd :: die_sides
  assume r: "grouped_ready n s (g # gs)" and g: "\<forall>d \<in> set g. d_sides d = sd"
  from r have i: "gr_next s < length (gr_groups s)"
    by (metis grouped_ready_def drop_eq_Nil2 le_neq_implies_less list.distinct(1) order_refl)
  then have "gr_groups s ! gr_next s # drop (Suc (gr_next s)) (gr_groups s) = g # gs"
    using r by (simp add: grouped_ready_def Cons_nth_drop_Suc)
  then show "\<exists>s1. grouped_begin (length g) sd s = Inr s1 \<and> grouped_serving n s1 g gs"
    using i g r by (auto simp: grouped_begin_def grouped_serving_def grouped_ready_def)
next
  fix s d g gs
  assume "grouped_serving n s (d # g) gs"
  then show "\<exists>s1. grouped_next s = (Some d, s1) \<and> grouped_serving n s1 g gs"
    by (auto simp: grouped_next_def grouped_serving_def)
next
  fix s gs
  assume "grouped_serving n s [] gs"
  then show "grouped_ready n s gs" by (auto simp: grouped_serving_def grouped_ready_def)
qed

section \<open>A replay without an edit\<close>

context recorded_source begin

lemma replayed:
  assumes "eval_expr (logging_env draw b) e \<lparr>c_rng = rng, c_dice = [], c_total = 0, c_source = []\<rparr> = (Inr v, cl)"
    and "begin_term env = begin_op" "next_die env = next_op" "bound env = b"
    and "gs = split_sizes (c_source cl) (map fresh (c_dice cl))" and "ready s gs"
  shows "\<exists>c. eval_expr env e \<lparr>c_rng = rng2, c_dice = [], c_total = 0, c_source = s\<rparr> = (Inr v, c) \<and>
    c_dice c = c_dice cl \<and> c_rng c = rng2 \<and> ready (c_source c) []"
proof -
  note t = eval_tracked(1) [OF assms(2-4,1), unfolded tracked_def, simplified]
  then obtain gs' where g: "map fresh (c_dice cl) = concat gs'" "c_source cl = map length gs'"
    and f: "\<And>c2 rest. ready (c_source c2) (gs' @ rest) \<and> c_total c2 = 0 \<Longrightarrow>
      (\<exists>c2'. eval_expr env e c2 = (Inr v, c2') \<and> c_dice c2' = c_dice c2 @ c_dice cl \<and> c_rng c2' = c_rng c2 \<and>
        c_total c2' \<le> c_total cl \<and> ready (c_source c2') rest)" by auto
  have "gs = gs'" using assms(5) g by (simp add: split_sizes_concat)
  then show ?thesis
    using f [of "\<lparr>c_rng = rng2, c_dice = [], c_total = 0, c_source = s\<rparr>" "[]"] assms(6) by auto
qed

end

lemma recorded_groups:
  assumes "eval_expr (logging_env draw b) e \<lparr>c_rng = rng, c_dice = [], c_total = 0, c_source = []\<rparr> = (Inr v, cl)"
  shows "concat (split_sizes (c_source cl) (map fresh (c_dice cl))) = map fresh (c_dice cl)"
    and "map length (split_sizes (c_source cl) (map fresh (c_dice cl))) = c_source cl"
proof -
  note t = flat.eval_tracked(1) [of "flat_env draw b", OF _ _ _ assms, unfolded flat.tracked_def flat_env_def, simplified]
  then obtain gs where "map fresh (c_dice cl) = concat gs" "c_source cl = map length gs" by blast
  then show "concat (split_sizes (c_source cl) (map fresh (c_dice cl))) = map fresh (c_dice cl)"
    "map length (split_sizes (c_source cl) (map fresh (c_dice cl))) = c_source cl"
    by (simp_all add: split_sizes_concat)
qed

lemma resolve_logged:
  assumes "resolve draw f b rng = (Inr res, rng1)"
  obtains v cl where
    "eval_expr (logging_env draw b) (f_ast f) \<lparr>c_rng = rng, c_dice = [], c_total = 0, c_source = []\<rparr> = (Inr v, cl)"
    and "is_finite (ev_value v)" and "c_dice cl = r_dice res"
    and "res = \<lparr>r_formula = f_source f, r_dice = c_dice cl,
      r_kind = (case ev_success v of Some n \<Rightarrow> SuccessCount n | None \<Rightarrow> Total (ev_value v))\<rparr>"
proof -
  let ?p = "eval_expr (plain_env draw b) (f_ast f) \<lparr>c_rng = rng, c_dice = [], c_total = 0, c_source = ()\<rparr>"
  let ?l = "eval_expr (logging_env draw b) (f_ast f) \<lparr>c_rng = rng, c_dice = [], c_total = 0, c_source = []\<rparr>"
  have a: "agree ?p ?l"
    by (rule agree_eval(1)) (simp_all add: plain_env_def logging_plain sourceless_def core_def)
  obtain v c where p: "?p = (Inr v, c)" "is_finite (ev_value v)"
    "res = \<lparr>r_formula = f_source f, r_dice = c_dice c,
      r_kind = (case ev_success v of Some n \<Rightarrow> SuccessCount n | None \<Rightarrow> Total (ev_value v))\<rparr>"
    using assms by (auto simp: resolve_def resolve_with_def split: prod.splits sum.splits if_splits)
  with a obtain cl where "?l = (Inr v, cl)" "c_dice cl = c_dice c"
    by (cases ?l) (auto simp: agree_def core_def)
  with p show ?thesis by (intro that) auto
qed

text \<open>C1: replaying a recorded roll without an edit reproduces its resolution exactly, whatever
  generator it is given, and draws nothing from that generator.\<close>

theorem replay_identity:
  assumes "parse_formula src = Inr f" and "resolve draw f b rng = (Inr res, rng1)"
  shows "replay draw2 \<lparr>rc_formula = src, rc_bindings = b, rc_resolution = res\<rparr> None NoEdit rng2 = (Inr res, rng2)"
proof -
  obtain v cl where l: "eval_expr (logging_env draw b) (f_ast f)
        \<lparr>c_rng = rng, c_dice = [], c_total = 0, c_source = []\<rparr> = (Inr v, cl)"
    and v: "is_finite (ev_value v)" and d: "c_dice cl = r_dice res"
    and res: "res = \<lparr>r_formula = f_source f, r_dice = c_dice cl,
      r_kind = (case ev_success v of Some n \<Rightarrow> SuccessCount n | None \<Rightarrow> Total (ev_value v))\<rparr>"
    using resolve_logged [OF assms(2)] by blast
  define gs where "gs = split_sizes (c_source cl) (map fresh (c_dice cl))"
  note rg = recorded_groups [OF l, folded gs_def]
  let ?flat = "\<lparr>fl_dice = map fresh (c_dice cl), fl_sizes = [], fl_left = 0\<rparr>"
  let ?groups = "\<lparr>gr_groups = gs, gr_next = 0, gr_current = None\<rparr>"
  obtain c1 where c1: "eval_expr (flat_env draw2 b) (f_ast f)
        \<lparr>c_rng = rng2, c_dice = [], c_total = 0, c_source = ?flat\<rparr> = (Inr v, c1)"
      "c_rng c1 = rng2" "flat_ready (c_source cl) (c_source c1) []"
    using flat.replayed [OF l, of "flat_env draw2 b" gs "c_source cl" ?flat rng2] rg
    by (auto simp: flat_env_def gs_def flat_ready_def)
  obtain c2 where c2: "eval_expr (grouped_env draw2 b) (f_ast f)
        \<lparr>c_rng = rng2, c_dice = [], c_total = 0, c_source = ?groups\<rparr> = (Inr v, c2)"
      "c_rng c2 = rng2" "grouped_ready (length gs) (c_source c2) []" "c_dice c2 = c_dice cl"
    using grouped.replayed [OF l, of "grouped_env draw2 b" gs "length gs" ?groups rng2]
    by (auto simp: grouped_env_def gs_def grouped_ready_def)
  obtain r where r: "resolve_with (flat_env draw2 b) f rng2 ?flat = (Inr r, c1)"
    using c1 v by (simp add: resolve_with_def)
  have g: "resolve_with (grouped_env draw2 b) f rng2 ?groups = (Inr res, c2)"
    using c2 v res by (simp add: resolve_with_def)
  have "replay_grouped draw2 b f (fl_sizes (c_source c1)) (map fresh (c_dice cl)) rng2 = (Inr res, rng2)"
    using g c2 c1 rg by (simp add: replay_grouped_def flat_ready_def grouped_ready_def gs_def)
  then show ?thesis
    using assms(1) r c1 d by (simp add: replay_def flat_ready_def)
qed

lemma replay_identity_witness:
  "replay counting_rng \<lparr>rc_formula = U ''2d6'', rc_bindings = Map.empty, rc_resolution =
     \<lparr>r_formula = U ''2d6'', r_dice =
      [\<lparr>d_sides = Numeric 6, d_rolls = [5], d_steps = [], d_kept = True, d_final = 5\<rparr>,
       \<lparr>d_sides = Numeric 6, d_rolls = [6], d_steps = [], d_kept = True, d_final = 6\<rparr>], r_kind = Total (Fin 11)\<rparr>\<rparr>
     None NoEdit 99 =
   (Inr \<lparr>r_formula = U ''2d6'', r_dice =
      [\<lparr>d_sides = Numeric 6, d_rolls = [5], d_steps = [], d_kept = True, d_final = 5\<rparr>,
       \<lparr>d_sides = Numeric 6, d_rolls = [6], d_steps = [], d_kept = True, d_final = 6\<rparr>], r_kind = Total (Fin 11)\<rparr>, 99)"
proof -
  have p: "parse_formula (U ''2d6'') = Inr \<lparr>f_source = U ''2d6'', f_ast =
      Dice (DiceTerm (Number (Fin 2)) (SNumeric (Number (Fin 6))) [])\<rparr>"
    by (simp add: parse_formula_def parse_eval)
  show ?thesis by (rule replay_identity [OF p resolve_2d6])
qed

end
