(* ===== verification/Dice_Breakdown.thy ===== *)
theory Dice_Breakdown
  imports Dice_Parser Dice_Eval
begin

text \<open>
  A resolved roll as arithmetic (crates/thunderforge-dice/src/breakdown.rs): the walk over the
  formula that pairs its terms with the dice of a resolution, and the proofs that the addends are
  the kept dice in order and add up to the total the evaluator computed.
\<close>

section \<open>The walk\<close>

datatype addend_kind =
    DieAddend nat int  \<comment> \<open>index and value\<close>
  | Constant f64 "ustring option"

record addend =
  a_negative :: bool
  a_kind :: addend_kind

datatype breakdown_result = SumOf "addend list" | Successes "bool list"

record walk =
  w_cursor :: nat
  w_addends :: "addend list"

fun counts_successes :: "modifier \<Rightarrow> bool" where
  "counts_successes (CountSuccesses _) = True"
| "counts_successes (CountFailures _) = True"
| "counts_successes (SubtractFailureValue _) = True"
| "counts_successes EvenMod = True"
| "counts_successes OddMod = True"
| "counts_successes (MarginOfSuccess _) = True"
| "counts_successes _ = False"

fun walk_max_face :: "die_sides \<Rightarrow> int" where
  "walk_max_face (Numeric n) = int n"
| "walk_max_face Fate = 1"
| "walk_max_face Coin = 1"

fun whole :: "bindings \<Rightarrow> expr \<Rightarrow> int option" where
  "whole b (Number n) = (if is_finite n then Some (f_to_i64 (fround n)) else None)"
| "whole b (Placeholder name) =
     (case b name of
        None \<Rightarrow> None
      | Some v \<Rightarrow> if is_finite v then Some (f_to_i64 (fround v)) else None)"
| "whole b _ = None"

fun claim_sides :: "bindings \<Rightarrow> sides \<Rightarrow> die_sides option" where
  "claim_sides b SFate = Some Fate"
| "claim_sides b SCoin = Some Coin"
| "claim_sides b (SNumeric e) =
     (case whole b e of
        None \<Rightarrow> None
      | Some n \<Rightarrow> if 0 \<le> n \<and> n \<le> int u32_max then Some (Numeric (nat n)) else None)"

definition claim :: "roll_resolution \<Rightarrow> bindings \<Rightarrow> dice_term \<Rightarrow> walk \<Rightarrow> (nat \<times> walk) option" where
  "claim res b t w =
     (case whole b (t_count t) of
        None \<Rightarrow> None
      | Some n \<Rightarrow>
      case claim_sides b (t_sides t) of
        None \<Rightarrow> None
      | Some sd \<Rightarrow>
      if n < 0 then None
      else
        let start = w_cursor w; stop = start + nat n in
        if length (r_dice res) < stop then None
        else if \<exists>d \<in> set (take (nat n) (drop start (r_dice res))). d_sides d \<noteq> sd then None
        else Some (start, w\<lparr>w_cursor := stop\<rparr>))"

definition constant_addend :: "f64 \<Rightarrow> ustring option \<Rightarrow> bool \<Rightarrow> walk \<Rightarrow> walk option" where
  "constant_addend v name negative w =
     (if \<not> is_finite v then None
      else Some (w\<lparr>w_addends := w_addends w @
        [\<lparr>a_negative = (negative \<noteq> flt v (Fin 0)), a_kind = Constant (fabs v) name\<rparr>]\<rparr>))"

text \<open>The kept dice among those with an index in the claimed range.\<close>

definition dice_addends :: "roll_resolution \<Rightarrow> bool \<Rightarrow> nat \<Rightarrow> nat \<Rightarrow> addend list" where
  "dice_addends res negative start stop =
     map (\<lambda>i. \<lparr>a_negative = negative, a_kind = DieAddend i (d_final (r_dice res ! i))\<rparr>)
       (filter (\<lambda>i. d_kept (r_dice res ! i)) [start..<stop])"

fun walk_sum :: "roll_resolution \<Rightarrow> bindings \<Rightarrow> expr \<Rightarrow> bool \<Rightarrow> walk \<Rightarrow> walk option" where
  "walk_sum res b (Number n) negative w = constant_addend n None negative w"
| "walk_sum res b (Placeholder name) negative w =
     (case b name of None \<Rightarrow> None | Some v \<Rightarrow> constant_addend v (Some name) negative w)"
| "walk_sum res b (Neg e) negative w = walk_sum res b e (\<not> negative) w"
| "walk_sum res b (BinOp l Add r) negative w =
     (case walk_sum res b l negative w of None \<Rightarrow> None | Some w1 \<Rightarrow> walk_sum res b r negative w1)"
| "walk_sum res b (BinOp l Sub r) negative w =
     (case walk_sum res b l negative w of None \<Rightarrow> None | Some w1 \<Rightarrow> walk_sum res b r (\<not> negative) w1)"
| "walk_sum res b (BinOp l _ r) negative w = None"
| "walk_sum res b (Dice t) negative w =
     (if \<exists>m \<in> set (t_mods t). counts_successes m then None
      else case claim res b t w of
        None \<Rightarrow> None
      | Some (start, w1) \<Rightarrow>
          Some (w1\<lparr>w_addends := w_addends w1 @ dice_addends res negative start (w_cursor w1)\<rparr>))"
| "walk_sum res b (MathFn _ _) negative w = None"
| "walk_sum res b (Pool _ _) negative w = None"

text \<open>The loop of \<open>successes\<close> over the modifiers: a later \<open>cs\<close> or \<open>cf\<close> replaces an earlier one.\<close>

fun success_conditions ::
    "modifier list \<Rightarrow> condition option \<Rightarrow> condition option \<Rightarrow> (condition option \<times> condition option) option" where
  "success_conditions [] s f = Some (s, f)"
| "success_conditions (CountSuccesses c # ms) s f = success_conditions ms (Some c) f"
| "success_conditions (CountFailures c # ms) s f = success_conditions ms s (Some c)"
| "success_conditions (m # ms) s f = (if counts_successes m then None else success_conditions ms s f)"

definition hit :: "die_outcome \<Rightarrow> condition option \<Rightarrow> bool" where
  "hit d cd = (case cd of None \<Rightarrow> False | Some c \<Rightarrow> condition_matches c (d_final d) (walk_max_face (d_sides d)))"

definition walk_successes :: "roll_resolution \<Rightarrow> bindings \<Rightarrow> dice_term \<Rightarrow> walk \<Rightarrow> (bool list \<times> walk) option" where
  "walk_successes res b t w =
     (case success_conditions (t_mods t) None None of
        None \<Rightarrow> None
      | Some (s, f) \<Rightarrow>
      if s = None \<and> f = None then None
      else case claim res b t w of
        None \<Rightarrow> None
      | Some (start, w1) \<Rightarrow>
          Some (map (\<lambda>d. d_kept d \<and> (s \<noteq> None \<and> hit d s \<or> s = None \<and> \<not> hit d f))
              (take (w_cursor w1 - start) (drop start (r_dice res))), w1))"

definition breakdown :: "ustring \<Rightarrow> roll_resolution \<Rightarrow> bindings \<Rightarrow> breakdown_result option" where
  "breakdown formula res b =
     (case parse_formula formula of
        Inl _ \<Rightarrow> None
      | Inr parsed \<Rightarrow>
      let w = \<lparr>w_cursor = 0, w_addends = []\<rparr> in
      case r_kind res of
        SuccessCount _ \<Rightarrow>
          (case f_ast parsed of
             Dice t \<Rightarrow>
               (case walk_successes res b t w of
                  None \<Rightarrow> None
                | Some (marks, w1) \<Rightarrow> if w_cursor w1 = length (r_dice res) then Some (Successes marks) else None)
           | _ \<Rightarrow> None)
      | Total _ \<Rightarrow>
          (case walk_sum res b (f_ast parsed) False w of
             None \<Rightarrow> None
           | Some w1 \<Rightarrow> if w_cursor w1 = length (r_dice res) then Some (SumOf (w_addends w1)) else None))"

section \<open>The dice of a sum\<close>

fun die_of :: "addend_kind \<Rightarrow> (nat \<times> int) option" where
  "die_of (DieAddend i v) = Some (i, v)"
| "die_of (Constant _ _) = None"

definition dice_named :: "addend list \<Rightarrow> (nat \<times> int) list" where
  "dice_named adds = List.map_filter (\<lambda>a. die_of (a_kind a)) adds"

text \<open>The dice a stretch of the resolution contributes, in order.\<close>

definition kept_between :: "roll_resolution \<Rightarrow> nat \<Rightarrow> nat \<Rightarrow> (nat \<times> int) list" where
  "kept_between res i j =
     map (\<lambda>k. (k, d_final (r_dice res ! k))) (filter (\<lambda>k. d_kept (r_dice res ! k)) [i..<j])"

lemma dice_named_append [simp]: "dice_named (adds @ bs) = dice_named adds @ dice_named bs"
  by (simp add: dice_named_def map_filter_def)

lemma dice_named_simps [simp]:
  "dice_named [] = []"
  "dice_named (\<lparr>a_negative = n, a_kind = Constant v p\<rparr> # adds) = dice_named adds"
  "dice_named (dice_addends res neg i j) = kept_between res i j"
  by (simp_all add: dice_named_def map_filter_def dice_addends_def kept_between_def comp_def)

lemma kept_between_append: "i \<le> j \<Longrightarrow> j \<le> k \<Longrightarrow> kept_between res i j @ kept_between res j k = kept_between res i k"
  using upt_add_eq_append [of i j "k - j"] by (simp add: kept_between_def)

lemma claim_cases:
  assumes "claim res b t w = Some (start, w1)"
  obtains n sd where "whole b (t_count t) = Some n" "0 \<le> n" "start = w_cursor w"
    "w1 = w\<lparr>w_cursor := w_cursor w + nat n\<rparr>" "w_cursor w + nat n \<le> length (r_dice res)"
    "claim_sides b (t_sides t) = Some sd"
    "\<forall>d \<in> set (take (nat n) (drop (w_cursor w) (r_dice res))). d_sides d = sd"
  using assms by (auto simp: claim_def Let_def split: option.splits if_splits)

text \<open>The walk only appends addends, and its dice are those its cursor passed.\<close>

lemma walk_sum_dice:
  "walk_sum res b e neg w = Some w1 \<Longrightarrow>
     \<exists>new. w_addends w1 = w_addends w @ new \<and> w_cursor w \<le> w_cursor w1 \<and>
       dice_named new = kept_between res (w_cursor w) (w_cursor w1)"
proof (induction res b e neg w arbitrary: w1 rule: walk_sum.induct)
  case (4 res b l r neg w)
  then obtain w' where l: "walk_sum res b l neg w = Some w'" and r: "walk_sum res b r neg w' = Some w1"
    by (auto split: option.splits)
  from "4.IH"(1) [OF l] "4.IH"(2) [OF l r] show ?case
    by (auto simp: kept_between_append)
next
  case (5 res b l r neg w)
  then obtain w' where l: "walk_sum res b l neg w = Some w'" and r: "walk_sum res b r (\<not> neg) w' = Some w1"
    by (auto split: option.splits)
  from "5.IH"(1) [OF l] "5.IH"(2) [OF l r] show ?case
    by (auto simp: kept_between_append)
next
  case (7 res b t neg w)
  then show ?case
    by (auto split: option.splits if_splits elim!: claim_cases)
qed (auto simp: constant_addend_def kept_between_def split: option.splits if_splits)

text \<open>The dice a sum names are exactly the resolution's kept dice, each once, in the order they
  were rolled and with their final values.\<close>

theorem breakdown_names_kept_dice:
  assumes "breakdown formula res b = Some (SumOf adds)"
  shows "dice_named adds = map (\<lambda>k. (k, d_final (r_dice res ! k)))
    (filter (\<lambda>k. d_kept (r_dice res ! k)) [0..<length (r_dice res)])"
proof -
  obtain e w1 where "walk_sum res b e False \<lparr>w_cursor = 0, w_addends = []\<rparr> = Some w1"
    "w_cursor w1 = length (r_dice res)" "adds = w_addends w1"
    using assms
    by (auto simp: breakdown_def Let_def split: sum.splits resolution_kind.splits option.splits expr.splits if_splits)
  with walk_sum_dice [of res b e False "\<lparr>w_cursor = 0, w_addends = []\<rparr>" w1] show ?thesis
    by (auto simp: kept_between_def)
qed

section \<open>The sum of a sum\<close>

definition addend_value :: "addend \<Rightarrow> rat" where
  "addend_value a =
     (if a_negative a then -1 else 1) * (case a_kind a of DieAddend _ v \<Rightarrow> of_int v | Constant v _ \<Rightarrow> fval v)"

text \<open>The addends are whole numbers, and small enough together for the format to add them exactly.\<close>

definition exact_sum :: "addend list \<Rightarrow> bool" where
  "exact_sum adds \<longleftrightarrow> (\<forall>a \<in> set adds. addend_value a \<in> \<int>) \<and>
     sum_list (map (\<lambda>a. \<bar>addend_value a\<bar>) adds) \<le> 9007199254740992"

lemma abs_sum_list: "\<bar>sum_list (map f xs)\<bar> \<le> sum_list (map (\<lambda>x. \<bar>f x\<bar>) xs)" for f :: "'a \<Rightarrow> rat"
  by (induction xs) (auto intro: order_trans [OF abs_triangle_ineq])

lemma sum_abs_nonneg: "0 \<le> sum_list (map (\<lambda>x. \<bar>f x\<bar>) xs)" for f :: "'a \<Rightarrow> rat"
  by (induction xs) auto

lemma exact_sum_append: "exact_sum (xs @ ys) \<Longrightarrow> exact_sum xs \<and> exact_sum ys"
  using sum_abs_nonneg [of addend_value xs] sum_abs_nonneg [of addend_value ys]
  by (auto simp: exact_sum_def)

lemma sum_whole: "\<forall>a \<in> set adds. addend_value a \<in> \<int> \<Longrightarrow> sum_list (map addend_value adds) \<in> \<int>"
  by (induction adds) auto

lemma fval_fneg [simp]: "fval (fneg x) = - fval x"
  by (cases x) auto

lemma is_finite_fneg [simp]: "is_finite (fneg x) = is_finite x"
  by (cases x) auto

lemma fval_fabs: "fval (fabs x) = \<bar>fval x\<bar>"
  by (cases x) auto

lemma flt_zero: "is_finite x \<Longrightarrow> flt x (Fin 0) = (fval x < 0)"
  by (cases x) auto

lemma fadd_whole:
  assumes "is_finite x" "is_finite y" "fval x + fval y \<in> \<int>" "\<bar>fval x + fval y\<bar> \<le> 9007199254740992"
  shows "is_finite (fadd binary64 x y) \<and> fval (fadd binary64 x y) = fval x + fval y"
proof -
  obtain n where n: "fval x + fval y = of_int n" using assms(3) by (auto elim: Ints_cases)
  with assms(4) have "\<bar>n\<bar> \<le> 9007199254740992"
    by (metis of_int_abs of_int_le_iff of_int_numeral)
  then have "rnd binary64 (fval x + fval y) = Fin (fval x + fval y)"
    using n rnd64_of_int by simp
  then show ?thesis using assms(1,2) by (cases x; cases y) (auto simp: fadd_def)
qed

lemma i64_sum_exact:
  "sum_list (map abs xs) \<le> 9007199254740992 \<Longrightarrow> i64_sum xs = sum_list xs"
proof -
  have "foldl (\<lambda>a x. wrap_i64 (a + x)) s xs = s + sum_list xs"
    if "\<bar>s\<bar> + sum_list (map abs xs) \<le> 9007199254740992" for s :: int
    using that
  proof (induction xs arbitrary: s)
    case (Cons x xs)
    have "0 \<le> sum_list (map abs xs)" by (induction xs) auto
    with Cons.prems have "\<bar>s + x\<bar> \<le> 9007199254740992" "\<bar>s + x\<bar> + sum_list (map abs xs) \<le> 9007199254740992"
      by auto
    then have "wrap_i64 (s + x) = s + x"
      by (intro wrap_i64_id) (auto simp: is_i64_def int_limits)
    with Cons.IH \<open>\<bar>s + x\<bar> + _ \<le> _\<close> show ?case by simp
  qed simp
  from this [of 0] show "sum_list (map abs xs) \<le> 9007199254740992 \<Longrightarrow> i64_sum xs = sum_list xs"
    by (simp add: i64_sum_def)
qed

lemma no_success_count:
  "\<not> (\<exists>m \<in> set ms. counts_successes m) \<Longrightarrow> compute_success_count os ms mf = None"
proof -
  assume a: "\<not> (\<exists>m \<in> set ms. counts_successes m)"
  have f: "find_map successes_of ms = None" "find_map failures_of ms = None"
    "find_map subtract_failure_of ms = None" "find_map margin_of ms = None"
    using a by (induction ms) (auto elim: counts_successes.elims)
  have "EvenMod \<notin> set ms" "OddMod \<notin> set ms" using a by auto
  then show ?thesis using f by (simp add: compute_success_count_def find_condition_def Let_def)
qed

lemma whole_eval:
  "whole b e = Some k \<Longrightarrow>
     \<exists>x. eval_expr (plain_env draw b) e c = (Inr (total_value x), c) \<and> to_whole x = Inr k"
  by (induction b e rule: whole.induct) (auto simp: to_whole_def split: if_splits option.splits)


text \<open>What a term leaves behind: its dice at the end of the record, and the value they give.\<close>

lemma roll_term_leaves:
  assumes "plain env" and "roll_term env ms n sd c = (Inr v, c')"
  obtains os where "c_dice c' = c_dice c @ os" "length os = n" "\<forall>d \<in> set os. d_sides d = sd"
    "ev_success v = compute_success_count os ms (max_face sd)"
    "ev_success v = None \<Longrightarrow> ev_value v = f64_of_int (i64_sum (map d_final (filter d_kept os)))"
proof -
  obtain x c1 where x: "take_dice_budget n c = (x, c1)" by (cases "take_dice_budget n c")
  with assms(2) have b: "take_dice_budget n c = (Inr (), c1)" by (cases x) (simp_all add: roll_term_def)
  with assms(2) obtain s where s: "begin_term env n sd (c_source c1) = Inr s"
    by (cases "begin_term env n sd (c_source c1)") (simp_all add: roll_term_def)
  obtain y c2 where y: "roll_dice env sd ms n (c1\<lparr>c_source := s\<rparr>) = (y, c2)"
    by (cases "roll_dice env sd ms n (c1\<lparr>c_source := s\<rparr>)")
  with assms(2) b s obtain ds where ds: "roll_dice env sd ms n (c1\<lparr>c_source := s\<rparr>) = (Inr ds, c2)"
    by (cases y) (simp_all add: roll_term_def)
  let ?os = "apply_clamp (apply_keep_drop ds ms) ms"
  note r = roll_dice_ok [OF assms(1) ds] and t = take_budget [OF b, of env]
  have rec: "map face_record ?os = map face_record ds" by (rule keep_clamp_record)
  then have "map (fst \<circ> face_record) ?os = map (fst \<circ> face_record) ds" by (metis map_map)
  then have "map d_sides ?os = map d_sides ds" by (simp add: face_record_def comp_def)
  then have "d_sides ` set ?os = d_sides ` set ds" by (metis set_map)
  then have sides: "\<forall>d \<in> set ?os. d_sides d = sd" using r by force
  have len: "length ?os = n" using arg_cong [OF rec, of length] r by simp
  have dice: "c_dice c' = c_dice c @ ?os"
    using assms(2) b s ds r t by (auto simp: roll_term_def Let_def drew_def)
  show ?thesis
    using assms(2) b s ds by (intro that [OF dice len sides]) (auto simp: roll_term_def Let_def)
qed

lemma kept_values:
  assumes "r_dice res = xs @ os @ ys"
  shows "map addend_value (dice_addends res neg (length xs) (length xs + length os))
    = map (\<lambda>x. (if neg then -1 else 1) * of_int x) (map d_final (filter d_kept os))"
proof -
  have u: "[length xs..<length xs + length os] = map (\<lambda>i. i + length xs) [0..<length os]"
    by (simp add: map_add_upt add.commute)
  have "filter (\<lambda>i. d_kept (r_dice res ! (i + length xs))) [0..<length os]
      = filter (\<lambda>i. d_kept (os ! i)) [0..<length os]"
    by (rule filter_cong) (auto simp: assms nth_append)
  then show ?thesis
    unfolding dice_addends_def u filter_index [of d_kept os]
    by (auto simp: filter_map comp_def addend_value_def assms nth_append)
qed

lemma signed_sum:
  "sum_list (map (\<lambda>x. (if neg then -1 else 1) * of_int x) xs)
    = (if neg then - of_int (sum_list xs) else of_int (sum_list xs) :: rat)"
  by (induction xs) auto

lemma signed_abs_sum:
  "sum_list (map abs (map (\<lambda>x. (if neg then -1 else 1) * of_int x) xs)) = (of_int (sum_list (map abs xs)) :: rat)"
  by (induction xs) auto

lemma add_signed:
  assumes "is_finite x" "is_finite y" "exact_sum (n1 @ n2)"
    and "(if neg then - fval x else fval x) = sum_list (map addend_value n1)"
    and "(if neg then - fval y else fval y) = sum_list (map addend_value n2)"
  shows "is_finite (fadd binary64 x y) \<and>
    (if neg then - fval (fadd binary64 x y) else fval (fadd binary64 x y)) = sum_list (map addend_value (n1 @ n2))"
proof -
  let ?s = "sum_list (map addend_value (n1 @ n2))"
  have s: "fval x + fval y = (if neg then - ?s else ?s)" using assms(4,5) by (auto split: if_splits)
  have "?s \<in> \<int>" "\<bar>?s\<bar> \<le> 9007199254740992"
    using sum_whole [of "n1 @ n2"] abs_sum_list [of addend_value "n1 @ n2"] assms(3)
    by (auto simp: exact_sum_def simp del: map_append)
  then have "fval x + fval y \<in> \<int>" "\<bar>fval x + fval y\<bar> \<le> 9007199254740992"
    unfolding s by (auto simp del: map_append)
  with fadd_whole [OF assms(1,2)] s show ?thesis by (auto simp del: map_append)
qed

text \<open>What the walk says of a subexpression that was evaluated between two contexts.\<close>

definition adds_up :: "expr_value \<Rightarrow> nat \<Rightarrow> walk \<Rightarrow> bool \<Rightarrow> addend list \<Rightarrow> bool" where
  "adds_up v n w neg new \<longleftrightarrow> w_cursor w = n \<and> ev_success v = None \<and> is_finite (ev_value v) \<and>
    (if neg then - fval (ev_value v) else fval (ev_value v)) = sum_list (map addend_value new)"

lemma eval_bin_Inr:
  assumes "eval_expr env (BinOp l bo r) c = (Inr v, c1)"
  obtains x c2 y where "eval_expr env l c = (Inr x, c2)" "eval_expr env r c2 = (Inr y, c1)"
    "eval_binop bo x y = Inr v"
proof -
  obtain x c2 where x: "eval_expr env l c = (Inr x, c2)"
    and k: "(case eval_expr env r c2 of (Inl e, c3) \<Rightarrow> (Inl e, c3)
      | (Inr y, c3) \<Rightarrow> (map_sum Refused id (eval_binop bo x y), c3)) = (Inr v, c1)"
    using assms unfolding eval_expr.simps by (rule bind_Inr)
  from k obtain y where y: "eval_expr env r c2 = (Inr y, c1)" "map_sum Refused id (eval_binop bo x y) = Inr v"
    by (rule bind_Inr) simp
  show ?thesis using y by (intro that [OF x y(1)]) (cases "eval_binop bo x y"; simp)
qed

lemma sides_eval:
  assumes "claim_sides b s = Some sd'" and "eval_sides (plain_env draw b) s c = (Inr sd, c1)"
  shows "c1 = c"
proof (cases s)
  case (SNumeric e)
  with assms(1) obtain n where "whole b e = Some n" by (auto split: option.splits)
  from whole_eval [OF this, of draw c] assms(2) SNumeric show ?thesis
    by (auto simp: total_value_def split: if_splits)
qed (use assms in auto)

lemma eval_extends:
  "eval_expr (plain_env draw b) e c = (Inr v, c1) \<Longrightarrow> \<exists>ds. c_dice c1 = c_dice c @ ds"
  using eval_ok(1) [of "plain_env draw b"] by (fastforce simp: evaluates_def plain_def)

lemma walk_sum_total:
  assumes "eval_expr (plain_env draw b) e c = (Inr v, c1)" and "walk_sum res b e neg w = Some w1"
    and "w_cursor w = length (c_dice c)" and "r_dice res = c_dice c1 @ rest"
    and "w_addends w1 = w_addends w @ new" and "exact_sum new" and "length (r_dice res) \<le> u32_max"
  shows "adds_up v (length (c_dice c1)) w1 neg new"
  using assms
proof (induction res b e neg w arbitrary: c v c1 w1 new rest rule: walk_sum.induct)
  case (1 res b n neg w)
  then show ?case
    by (auto simp: adds_up_def constant_addend_def total_value_def addend_value_def fval_fabs flt_zero split: if_splits)
next
  case (2 res b name neg w)
  then show ?case
    by (auto simp: adds_up_def constant_addend_def total_value_def addend_value_def fval_fabs flt_zero plain_env_def
        split: if_splits option.splits)
next
  case (3 res b e neg w)
  from "3.prems"(1) obtain x where x: "eval_expr (plain_env draw b) e c = (Inr x, c1)"
    "v = total_value (fneg (ev_value x))"
    unfolding eval_expr.simps by (rule bind_Inr) simp
  from "3.prems"(2) have "walk_sum res b e (\<not> neg) w = Some w1" by simp
  from "3.IH" [OF x(1) this "3.prems"(3-7)] show ?case
    by (auto simp: adds_up_def x total_value_def split: if_splits)
next
  case (4 res b l r neg w)
  from "4.prems"(1) obtain x c2 y where x: "eval_expr (plain_env draw b) l c = (Inr x, c2)"
    and y: "eval_expr (plain_env draw b) r c2 = (Inr y, c1)" and v: "eval_binop Add x y = Inr v"
    by (rule eval_bin_Inr)
  from "4.prems"(2) obtain w' where l: "walk_sum res b l neg w = Some w'" and r: "walk_sum res b r neg w' = Some w1"
    by (auto split: option.splits)
  obtain n1 n2 where n: "w_addends w' = w_addends w @ n1" "w_addends w1 = w_addends w' @ n2"
    using walk_sum_dice [OF l] walk_sum_dice [OF r] by blast
  then have new: "new = n1 @ n2" using "4.prems"(5) by simp
  have ex: "exact_sum n1" "exact_sum n2" using exact_sum_append [OF "4.prems"(6) [unfolded new]] by simp_all
  obtain ds where ds: "c_dice c1 = c_dice c2 @ ds" using eval_extends [OF y] by blast
  have L: "adds_up x (length (c_dice c2)) w' neg n1"
    using "4.prems"(4) ds by (intro "4.IH"(1) [OF x l "4.prems"(3) _ n(1) ex(1) "4.prems"(7)]) simp
  have R: "adds_up y (length (c_dice c1)) w1 neg n2"
    by (rule "4.IH"(2) [OF l y r _ "4.prems"(4) n(2) ex(2) "4.prems"(7)]) (use L in \<open>simp add: adds_up_def\<close>)
  have "is_finite (fadd binary64 (ev_value x) (ev_value y)) \<and>
    (if neg then - fval (fadd binary64 (ev_value x) (ev_value y)) else fval (fadd binary64 (ev_value x) (ev_value y)))
      = sum_list (map addend_value (n1 @ n2))"
    using L R "4.prems"(6) by (intro add_signed) (simp_all add: adds_up_def new)
  with L R v show ?case
    by (simp add: adds_up_def new eval_binop_def Let_def) auto
next
  case (5 res b l r neg w)
  from "5.prems"(1) obtain x c2 y where x: "eval_expr (plain_env draw b) l c = (Inr x, c2)"
    and y: "eval_expr (plain_env draw b) r c2 = (Inr y, c1)" and v: "eval_binop Sub x y = Inr v"
    by (rule eval_bin_Inr)
  from "5.prems"(2) obtain w' where l: "walk_sum res b l neg w = Some w'" and r: "walk_sum res b r (\<not> neg) w' = Some w1"
    by (auto split: option.splits)
  obtain n1 n2 where n: "w_addends w' = w_addends w @ n1" "w_addends w1 = w_addends w' @ n2"
    using walk_sum_dice [OF l] walk_sum_dice [OF r] by blast
  then have new: "new = n1 @ n2" using "5.prems"(5) by simp
  have ex: "exact_sum n1" "exact_sum n2" using exact_sum_append [OF "5.prems"(6) [unfolded new]] by simp_all
  obtain ds where ds: "c_dice c1 = c_dice c2 @ ds" using eval_extends [OF y] by blast
  have L: "adds_up x (length (c_dice c2)) w' neg n1"
    using "5.prems"(4) ds by (intro "5.IH"(1) [OF x l "5.prems"(3) _ n(1) ex(1) "5.prems"(7)]) simp
  have R: "adds_up y (length (c_dice c1)) w1 (\<not> neg) n2"
    by (rule "5.IH"(2) [OF l y r _ "5.prems"(4) n(2) ex(2) "5.prems"(7)]) (use L in \<open>simp add: adds_up_def\<close>)
  let ?s = "fadd binary64 (ev_value x) (fneg (ev_value y))"
  have "is_finite ?s \<and> (if neg then - fval ?s else fval ?s) = sum_list (map addend_value (n1 @ n2))"
    using L R "5.prems"(6) by (intro add_signed) (auto simp: adds_up_def new split: if_splits)
  with L R v show ?case
    by (simp add: adds_up_def new eval_binop_def fsub_def Let_def) auto
next
  case (7 res b t neg w)
  obtain cnt s ms where t: "t = DiceTerm cnt s ms" by (cases t)
  from "7.prems"(2) t have ns: "\<not> (\<exists>m \<in> set ms. counts_successes m)" by (auto split: if_splits)
  from "7.prems"(2) obtain start w2 where cl: "claim res b t w = Some (start, w2)"
    and w1: "w1 = w2\<lparr>w_addends := w_addends w2 @ dice_addends res neg start (w_cursor w2)\<rparr>"
    by (auto split: if_splits option.splits)
  from cl obtain n where n: "whole b cnt = Some n" "0 \<le> n" "start = w_cursor w"
    "w2 = w\<lparr>w_cursor := w_cursor w + nat n\<rparr>" "w_cursor w + nat n \<le> length (r_dice res)"
    and cs: "\<exists>sd. claim_sides b s = Some sd"
    by (rule claim_cases) (auto simp: t)
  obtain k where k: "eval_expr (plain_env draw b) cnt c = (Inr (total_value k), c)" "to_whole k = Inr n"
    using whole_eval [OF n(1)] by blast
  have "nat n \<le> u32_max" using n(5) "7.prems"(7) by simp
  then have u: "as_u32 n = nat n" using n(2) by (intro as_u32_id) auto
  from "7.prems"(1) k n(2) obtain sd c2 where sd: "eval_sides (plain_env draw b) s c = (Inr sd, c2)"
    and rt: "roll_term (plain_env draw b) ms (nat n) sd c2 = (Inr v, c1)"
    by (auto simp: t total_value_def u split: prod.splits sum.splits)
  have c2: "c2 = c" using sides_eval cs sd by blast
  obtain os where os: "c_dice c1 = c_dice c2 @ os" "length os = nat n"
    "ev_success v = compute_success_count os ms (max_face sd)"
    "ev_success v = None \<Longrightarrow> ev_value v = f64_of_int (i64_sum (map d_final (filter d_kept os)))"
    by (rule roll_term_leaves [OF _ rt]) (simp_all add: plain_def)
  have none: "ev_success v = None" using os(3) ns no_success_count by simp
  have r: "r_dice res = c_dice c @ os @ rest" using "7.prems"(4) os(1) c2 by simp
  have new: "new = dice_addends res neg (length (c_dice c)) (length (c_dice c) + length os)"
    using "7.prems"(3,5) n os(2) w1 by simp
  let ?xs = "map d_final (filter d_kept os)"
  have vals: "map addend_value new = map (\<lambda>x. (if neg then -1 else 1) * of_int x) ?xs"
    unfolding new by (rule kept_values [OF r])
  have "sum_list (map (\<lambda>a. \<bar>addend_value a\<bar>) new) = sum_list (map abs (map addend_value new))"
    by (simp add: comp_def)
  also have "\<dots> = of_int (sum_list (map abs ?xs))"
    unfolding vals by (rule signed_abs_sum)
  finally have small: "sum_list (map abs ?xs) \<le> 9007199254740992"
    using "7.prems"(6) unfolding exact_sum_def by (metis of_int_le_iff of_int_numeral)
  have "\<bar>sum_list ?xs\<bar> \<le> sum_list (map abs ?xs)" by (rule sum_list_abs)
  then have "ev_value v = Fin (of_int (sum_list ?xs))"
    using os(4) [OF none] small by (simp add: i64_sum_exact f64_of_int_exact)
  moreover have "sum_list (map addend_value new) = (if neg then - of_int (sum_list ?xs) else of_int (sum_list ?xs))"
    unfolding vals by (rule signed_sum)
  moreover have "w_cursor w1 = length (c_dice c1)" using "7.prems"(3) n os c2 w1 by simp
  ultimately show ?case using none by (simp add: adds_up_def)
qed (simp_all split: option.splits)

lemma recorded_dice_bound:
  assumes "resolve draw f b rng = (Inr res, rng1)"
  shows "length (r_dice res) \<le> max_total_dice"
proof -
  obtain v c where e: "eval_expr (plain_env draw b) (f_ast f)
      \<lparr>c_rng = rng, c_dice = [], c_total = 0, c_source = ()\<rparr> = (Inr v, c)" "r_dice res = c_dice c"
    using assms by (rule resolve_cases) auto
  have "plain (plain_env draw b)" by (simp add: plain_def)
  from eval_ok(1) [OF this e(1)] obtain ds where ds: "c_dice c = ds" "\<forall>d \<in> set ds. die_ok d"
    "rolls_in ds \<le> max_total_dice" by (auto simp: evaluates_def paid_def)
  have "length ds \<le> rolls_in ds" using ds(2)
  proof (induction ds)
    case (Cons d ds)
    then have "1 \<le> length (d_rolls d)" by (cases "d_rolls d") (auto simp: die_ok_def chain_ok_def)
    with Cons show ?case by (auto simp: rolls_in_def)
  qed simp
  with ds e show ?thesis by simp
qed

text \<open>C3: the breakdown of a roll adds up: whenever its addends are whole and together at most
  \<open>2^53\<close> in size, their signed sum is the total the evaluator computed in floating point.\<close>

theorem breakdown_adds_up:
  assumes "parse_formula src = Inr f" and "resolve draw f b rng = (Inr res, rng1)"
    and "breakdown src res b = Some (SumOf adds)" and "exact_sum adds"
  shows "\<exists>t. r_kind res = Total t \<and> fval t = sum_list (map addend_value adds)"
proof -
  obtain v c where e: "eval_expr (plain_env draw b) (f_ast f)
      \<lparr>c_rng = rng, c_dice = [], c_total = 0, c_source = ()\<rparr> = (Inr v, c)"
    and res: "r_dice res = c_dice c"
      "r_kind res = (case ev_success v of Some n \<Rightarrow> SuccessCount n | None \<Rightarrow> Total (ev_value v))"
    using assms(2) by (rule resolve_cases) auto
  obtain w1 where w1: "walk_sum res b (f_ast f) False \<lparr>w_cursor = 0, w_addends = []\<rparr> = Some w1"
    "adds = w_addends w1"
    using assms(1,3)
    by (auto simp: breakdown_def Let_def split: resolution_kind.splits option.splits expr.splits if_splits)
  have "adds_up v (length (c_dice c)) w1 False adds"
    using recorded_dice_bound [OF assms(2)] assms(4) w1(2) res(1)
    by (intro walk_sum_total [OF e w1(1), where rest = "[]"]) (simp_all add: max_total_dice_def u32_max_def)
  then show ?thesis by (simp add: adds_up_def res(2))
qed

definition res_2d6 :: roll_resolution where
  "res_2d6 = \<lparr>r_formula = U ''2d6'', r_dice =
      [\<lparr>d_sides = Numeric 6, d_rolls = [5], d_steps = [], d_kept = True, d_final = 5\<rparr>,
       \<lparr>d_sides = Numeric 6, d_rolls = [6], d_steps = [], d_kept = True, d_final = 6\<rparr>], r_kind = Total (Fin 11)\<rparr>"

definition adds_2d6 :: "addend list" where
  "adds_2d6 = [\<lparr>a_negative = False, a_kind = DieAddend 0 5\<rparr>, \<lparr>a_negative = False, a_kind = DieAddend 1 6\<rparr>]"

lemma parse_2d6: "parse_formula (U ''2d6'') = Inr \<lparr>f_source = U ''2d6'', f_ast =
      Dice (DiceTerm (Number (Fin 2)) (SNumeric (Number (Fin 6))) [])\<rparr>"
  by (simp add: parse_formula_def parse_eval)

lemma breakdown_2d6: "breakdown (U ''2d6'') res_2d6 Map.empty = Some (SumOf adds_2d6)"
proof -
  have k: "f_to_i64 (fround (Fin 2)) = 2" "f_to_i64 (fround (Fin 6)) = 6"
    using to_whole_nat [of 2] to_whole_nat [of 6] by (simp_all add: to_whole_def u32_max_def)
  show ?thesis
    unfolding breakdown_def parse_2d6 res_2d6_def adds_2d6_def
    by (simp add: claim_def k dice_addends_def u32_max_def Let_def)
qed

lemma breakdown_names_kept_dice_witness: "dice_named adds_2d6 = [(0, 5), (1, 6)]"
  unfolding breakdown_names_kept_dice [OF breakdown_2d6] by (simp add: res_2d6_def)

lemma breakdown_adds_up_witness:
  "\<exists>t. r_kind res_2d6 = Total t \<and> fval t = sum_list (map addend_value adds_2d6)"
  by (rule breakdown_adds_up [OF parse_2d6 resolve_2d6 [folded res_2d6_def] breakdown_2d6])
    (simp add: exact_sum_def adds_2d6_def addend_value_def)

section \<open>Success marks\<close>

lemma walk_max_face [simp]: "walk_max_face sd = max_face sd"
  by (cases sd) (simp_all add: max_face_def)

lemma success_conditions_counting:
  "success_conditions ms s f = success_conditions (filter counts_successes ms) s f"
  by (induction ms s f rule: success_conditions.induct) auto

lemma counting_kinds:
  "successes_of m \<noteq> None \<Longrightarrow> counts_successes m" "failures_of m \<noteq> None \<Longrightarrow> counts_successes m"
  "subtract_failure_of m \<noteq> None \<Longrightarrow> counts_successes m" "margin_of m \<noteq> None \<Longrightarrow> counts_successes m"
  by (cases m; simp; fail)+

lemma find_counting:
  "find_map successes_of (filter counts_successes ms) = find_map successes_of ms"
  "find_map failures_of (filter counts_successes ms) = find_map failures_of ms"
  "find_map subtract_failure_of (filter counts_successes ms) = find_map subtract_failure_of ms"
  "find_map margin_of (filter counts_successes ms) = find_map margin_of ms"
  by (rule find_map_filter, erule counting_kinds)+

lemma single_success_count:
  assumes "filter counts_successes ms = [CountSuccesses cd]"
  shows "compute_success_count os ms mf = Some (count_matching cd mf (filter d_kept os))"
proof -
  have "EvenMod \<notin> set (filter counts_successes ms)" "OddMod \<notin> set (filter counts_successes ms)"
    unfolding assms by simp_all
  then have "EvenMod \<notin> set ms" "OddMod \<notin> set ms" by simp_all
  moreover have "find_map successes_of ms = Some cd" "find_map failures_of ms = None"
    "find_map subtract_failure_of ms = None" "find_map margin_of ms = None"
    using find_counting [of ms] assms by simp_all
  ultimately show ?thesis
    by (simp add: compute_success_count_def find_condition_def Let_def)
qed

text \<open>C31: for a term that counts successes and nothing else, the marks of the breakdown are the
  successes of the resolution: as many dice are marked as the roll counted.\<close>

theorem success_marks_count:
  assumes "parse_formula src = Inr \<lparr>f_source = src, f_ast = Dice t\<rparr>"
    and "resolve draw \<lparr>f_source = src, f_ast = Dice t\<rparr> b rng = (Inr res, rng1)"
    and "filter counts_successes (t_mods t) = [CountSuccesses cd]"
    and "breakdown src res b = Some (Successes marks)"
  shows "r_kind res = SuccessCount (int (length (filter id marks))) \<and> length marks = length (r_dice res)"
proof -
  obtain cnt s ms where t: "t = DiceTerm cnt s ms" by (cases t)
  let ?env = "plain_env draw b" and ?c0 = "\<lparr>c_rng = rng, c_dice = [], c_total = 0, c_source = ()\<rparr>"
  obtain v c where e: "eval_expr ?env (Dice t) ?c0 = (Inr v, c)"
    and res: "r_dice res = c_dice c"
      "r_kind res = (case ev_success v of Some n \<Rightarrow> SuccessCount n | None \<Rightarrow> Total (ev_value v))"
    using assms(2) by (rule resolve_cases) auto
  have sc: "success_conditions ms None None = Some (Some cd, None)"
    using success_conditions_counting [of ms None None] assms(3) t by simp
  obtain w1 where w: "walk_successes res b t \<lparr>w_cursor = 0, w_addends = []\<rparr> = Some (marks, w1)"
    "w_cursor w1 = length (r_dice res)"
    using assms(1,4)
    by (auto simp: breakdown_def Let_def split: resolution_kind.splits option.splits if_splits)
  then obtain start where cl: "claim res b t \<lparr>w_cursor = 0, w_addends = []\<rparr> = Some (start, w1)"
    and marks: "marks = map (\<lambda>d. d_kept d \<and> hit d (Some cd)) (take (w_cursor w1 - start) (drop start (r_dice res)))"
    using sc t by (auto simp: walk_successes_def split: option.splits)
  from cl obtain n where n: "whole b cnt = Some n" "0 \<le> n" "start = 0" "w_cursor w1 = nat n"
    and cs: "\<exists>sd. claim_sides b s = Some sd"
    by (rule claim_cases) (auto simp: t)
  obtain k where k: "eval_expr ?env cnt ?c0 = (Inr (total_value k), ?c0)" "to_whole k = Inr n"
    using whole_eval [OF n(1)] by blast
  from e k n(2) obtain sd c2 where sd: "eval_sides ?env s ?c0 = (Inr sd, c2)"
    and rt: "roll_term ?env ms (as_u32 n) sd c2 = (Inr v, c)"
    by (auto simp: t total_value_def split: prod.splits sum.splits)
  have c2: "c2 = ?c0" using sides_eval cs sd by blast
  obtain os where os: "c_dice c = c_dice c2 @ os" "\<forall>d \<in> set os. d_sides d = sd"
    "ev_success v = compute_success_count os ms (max_face sd)"
    by (rule roll_term_leaves [OF _ rt]) (simp_all add: plain_def)
  have dice: "r_dice res = os" using os(1) c2 res by simp
  then have m: "marks = map (\<lambda>d. d_kept d \<and> condition_matches cd (d_final d) (max_face sd)) os"
    using marks w(2) n os(2) by (auto simp: hit_def)
  have "r_kind res = SuccessCount (count_matching cd (max_face sd) (filter d_kept os))"
    using res(2) os(3) single_success_count [of ms cd] assms(3) t by simp
  moreover have "filter id marks = map (\<lambda>_. True) (filter (\<lambda>d. condition_matches cd (d_final d) (max_face sd)) (filter d_kept os))"
    unfolding m by (simp add: filter_map comp_def conj_commute)
  ultimately show ?thesis by (simp add: count_matching_def m dice)
qed

lemma success_marks_count_witness:
  "r_kind \<lparr>r_formula = U ''2dc cs=1'', r_dice =
      [\<lparr>d_sides = Coin, d_rolls = [0], d_steps = [], d_kept = True, d_final = 0\<rparr>,
       \<lparr>d_sides = Coin, d_rolls = [1], d_steps = [], d_kept = True, d_final = 1\<rparr>], r_kind = SuccessCount 1\<rparr>
    = SuccessCount (int (length (filter id [False, True])))"
proof -
  let ?t = "DiceTerm (Number (Fin 2)) SCoin [CountSuccesses (CEq 1)]"
  let ?f = "\<lparr>f_source = U ''2dc cs=1'', f_ast = Dice ?t\<rparr>"
  let ?res = "\<lparr>r_formula = U ''2dc cs=1'', r_dice =
      [\<lparr>d_sides = Coin, d_rolls = [0], d_steps = [], d_kept = True, d_final = 0\<rparr>,
       \<lparr>d_sides = Coin, d_rolls = [1], d_steps = [], d_kept = True, d_final = 1\<rparr>], r_kind = SuccessCount 1\<rparr>"
  have p: "parse_formula (U ''2dc cs=1'') = Inr ?f"
    by (simp add: parse_formula_def parse_eval)
  have w: "to_whole (Fin 2) = Inr 2" using to_whole_nat [of 2] by (simp add: u32_max_def)
  have a: "as_u32 2 = 2" by (simp add: as_u32_def)
  have two: "roll_dice e sd ms 2 c = roll_dice e sd ms (Suc (Suc 0)) c" for e :: "(nat, unit) eval_env" and sd ms c
    by (simp only: numeral_2_eq_2)
  have r: "resolve counting_rng ?f Map.empty 4 = (Inr ?res, 6)"
    by (simp add: resolve_def resolve_with_def total_value_def w a roll_term_def take_dice_budget_def
      max_total_dice_def u32_max_def two roll_die_def roll_face_def counting_rng_def roll_once_if_def
      roll_while_if_def find_condition_def apply_clamp_def apply_keep_drop_def compute_success_count_def
      count_matching_def f64_of_int_exact wrap_i64_def)
  have k: "f_to_i64 (fround (Fin 2)) = 2" using w by (simp add: to_whole_def)
  have "breakdown (U ''2dc cs=1'') ?res Map.empty = Some (Successes [False, True])"
    unfolding breakdown_def p by (simp add: walk_successes_def claim_def k hit_def u32_max_def Let_def)
  with success_marks_count [OF p r, of "CEq 1" "[False, True]"] show ?thesis by simp
qed

end
