(* ===== verification/Authz.thy ===== *)
theory Authz
  imports TF_Prelude "HOL-Library.Option_ord"
begin

text \<open>
  Who may do what to a world, and who may see which scenes (crates/thunderforge-authz/src: role.rs,
  capability.rs, scene.rs). The roles are ordered, so they are made an instance of the library's
  linear orders; an authority is then a threshold on the role, which is what the properties state.
\<close>

section \<open>Roles\<close>

datatype role = Player | TrustedPlayer | GameMaster | Owner

text \<open>The order of the variants is the ranking (\<open>derive(PartialOrd, Ord)\<close>).\<close>

fun rank :: "role \<Rightarrow> nat" where
  "rank Player = 0"
| "rank TrustedPlayer = 1"
| "rank GameMaster = 2"
| "rank Owner = 3"

instantiation role :: linorder
begin

definition less_eq_role :: "role \<Rightarrow> role \<Rightarrow> bool" where
  "less_eq_role r s \<longleftrightarrow> rank r \<le> rank s"

definition less_role :: "role \<Rightarrow> role \<Rightarrow> bool" where
  "less_role r s \<longleftrightarrow> rank r < rank s"

instance
proof
  fix r s :: role
  assume "r \<le> s" "s \<le> r"
  then show "r = s" by (cases r; cases s) (simp_all add: less_eq_role_def)
qed (auto simp: less_eq_role_def less_role_def)

end

lemmas role_order = less_eq_role_def less_role_def

lemma role_bounds [simp]: "Player \<le> r" "r \<le> Owner" "Owner \<le> r \<longleftrightarrow> r = Owner"
  by (cases r; simp add: role_order)+

lemma all_role: "(\<forall>r. P r) \<longleftrightarrow> P Player \<and> P TrustedPlayer \<and> P GameMaster \<and> P Owner"
  by (metis role.exhaust)

definition all_roles :: "role list" where
  "all_roles = [Player, TrustedPlayer, GameMaster, Owner]"

definition from_stored :: "ustring \<Rightarrow> role option" where
  "from_stored stored =
     (if stored = U ''Owner'' then Some Owner
      else if stored = U ''GM'' then Some GameMaster
      else if stored = U ''TrustedPlayer'' then Some TrustedPlayer
      else if stored = U ''Player'' then Some Player
      else None)"

fun as_stored :: "role \<Rightarrow> ustring" where
  "as_stored Owner = U ''Owner''"
| "as_stored GameMaster = U ''GM''"
| "as_stored TrustedPlayer = U ''TrustedPlayer''"
| "as_stored Player = U ''Player''"

definition role_runs_the_world :: "role \<Rightarrow> bool" where
  "role_runs_the_world r \<longleftrightarrow> GameMaster \<le> r"

definition role_manages_content :: "role \<Rightarrow> bool" where
  "role_manages_content r \<longleftrightarrow> TrustedPlayer \<le> r"

section \<open>Capabilities\<close>

datatype capability =
    ViewWorld | EditContent | ManageBookMaterial | ChangeFogOfWar | SeeHiddenContent
  | ManageMembers | DeleteWorld | TransferOwnership

definition all_capabilities :: "capability list" where
  "all_capabilities = [ViewWorld, EditContent, ManageBookMaterial, ChangeFogOfWar, SeeHiddenContent,
     ManageMembers, DeleteWorld, TransferOwnership]"

definition is_irreversible :: "capability \<Rightarrow> bool" where
  "is_irreversible c \<longleftrightarrow> c = DeleteWorld \<or> c = TransferOwnership"

fun role_allows :: "role \<Rightarrow> capability \<Rightarrow> bool" where
  "role_allows r ViewWorld = True"
| "role_allows r ManageBookMaterial = role_manages_content r"
| "role_allows r EditContent = role_runs_the_world r"
| "role_allows r ChangeFogOfWar = role_runs_the_world r"
| "role_allows r SeeHiddenContent = role_runs_the_world r"
| "role_allows r ManageMembers = role_runs_the_world r"
| "role_allows r DeleteWorld = (r = Owner)"
| "role_allows r TransferOwnership = (r = Owner)"

section \<open>Actors\<close>

record actor =
  ac_role :: "role option"
  ac_site_admin :: bool

definition member_actor :: "role \<Rightarrow> actor" where
  "member_actor r = \<lparr>ac_role = Some r, ac_site_admin = False\<rparr>"

definition stranger :: actor where
  "stranger = \<lparr>ac_role = None, ac_site_admin = False\<rparr>"

definition site_admin :: actor where
  "site_admin = \<lparr>ac_role = None, ac_site_admin = True\<rparr>"

definition may :: "actor \<Rightarrow> capability \<Rightarrow> bool" where
  "may a c =
     (if ac_site_admin a then True
      else case ac_role a of None \<Rightarrow> False | Some r \<Rightarrow> role_allows r c)"

definition actor_runs_the_world :: "actor \<Rightarrow> bool" where
  "actor_runs_the_world a =
     (ac_site_admin a \<or> (case ac_role a of None \<Rightarrow> False | Some r \<Rightarrow> role_runs_the_world r))"

definition actor_manages_content :: "actor \<Rightarrow> bool" where
  "actor_manages_content a =
     (ac_site_admin a \<or> (case ac_role a of None \<Rightarrow> False | Some r \<Rightarrow> role_manages_content r))"

definition owns_the_world :: "actor \<Rightarrow> bool" where
  "owns_the_world a = (ac_site_admin a \<or> ac_role a = Some Owner)"

section \<open>Scenes\<close>

record scene =
  sc_hidden :: bool
  sc_active :: bool

definition revealed_scene :: scene where
  "revealed_scene = \<lparr>sc_hidden = False, sc_active = False\<rparr>"

definition hidden_scene :: scene where
  "hidden_scene = \<lparr>sc_hidden = True, sc_active = False\<rparr>"

definition active_scene :: "bool \<Rightarrow> scene" where
  "active_scene h = \<lparr>sc_hidden = h, sc_active = True\<rparr>"

definition scene_visible :: "bool \<Rightarrow> scene \<Rightarrow> bool" where
  "scene_visible runs s \<longleftrightarrow> runs \<or> \<not> sc_hidden s \<or> sc_active s"

definition asset_visible :: "bool \<Rightarrow> scene option \<Rightarrow> bool" where
  "asset_visible runs attached = (case attached of None \<Rightarrow> True | Some s \<Rightarrow> scene_visible runs s)"

section \<open>Authority is a threshold\<close>

lemma from_stored_as_stored: "from_stored (as_stored r) = Some r"
  by (cases r) (simp_all add: from_stored_def)

text \<open>The column a role is written to reads back as that role, and nothing else reads as one: the
  four stored spellings are the only strings that name a role.\<close>

theorem stored_role_round_trip:
  "(\<forall>r. from_stored (as_stored r) = Some r) \<and> (\<forall>s r. from_stored s = Some r \<longleftrightarrow> s = as_stored r)"
proof (intro conjI allI)
  show "from_stored (as_stored r) = Some r" for r by (rule from_stored_as_stored)
  show "(from_stored s = Some r) = (s = as_stored r)" for s r
    using from_stored_as_stored [of r] by (cases r) (auto simp: from_stored_def split: if_splits)
qed

text \<open>The specification: the lowest role a capability asks for, and the role an actor acts with.\<close>

fun needed_role :: "capability \<Rightarrow> role" where
  "needed_role ViewWorld = Player"
| "needed_role ManageBookMaterial = TrustedPlayer"
| "needed_role DeleteWorld = Owner"
| "needed_role TransferOwnership = Owner"
| "needed_role _ = GameMaster"

definition acting_role :: "actor \<Rightarrow> role option" where
  "acting_role a = (if ac_site_admin a then Some Owner else ac_role a)"

lemma role_allows_threshold: "role_allows r c \<longleftrightarrow> needed_role c \<le> r"
  by (cases c; cases r) (simp_all add: role_order role_runs_the_world_def role_manages_content_def)

lemma may_threshold: "may a c \<longleftrightarrow> (case acting_role a of None \<Rightarrow> False | Some r \<Rightarrow> needed_role c \<le> r)"
  by (cases c) (auto simp: may_def acting_role_def role_allows_threshold role_order split: option.split)

text \<open>C36: the permission matrix is the ladder of roles: an actor has a capability exactly when the role
  it acts with, a site administrator's being Owner, reaches the capability's rung; the named
  predicates are rungs of the same ladder.\<close>

theorem authority_is_a_ladder:
  "(may a c \<longleftrightarrow> (\<exists>r. acting_role a = Some r \<and> needed_role c \<le> r)) \<and>
   (actor_runs_the_world a \<longleftrightarrow> may a EditContent) \<and> (actor_manages_content a \<longleftrightarrow> may a ManageBookMaterial) \<and>
   (owns_the_world a \<longleftrightarrow> may a DeleteWorld)"
  by (cases "ac_role a") (auto simp: may_threshold acting_role_def actor_runs_the_world_def actor_manages_content_def
      owns_the_world_def role_runs_the_world_def role_manages_content_def)

text \<open>A promotion never takes anything away: what an actor may do, every actor of an equal or higher
  role may do, a site administrator being highest.\<close>

theorem promotion_keeps_powers:
  assumes "may a c" and "acting_role a \<le> acting_role b"
  shows "may b c"
  using assms by (cases "acting_role b") (auto simp: may_threshold split: option.splits)

lemma promotion_keeps_powers_witness: "may site_admin EditContent"
  by (rule promotion_keeps_powers [of "member_actor GameMaster"])
    (simp_all add: may_threshold acting_role_def member_actor_def site_admin_def)

text \<open>What cannot be undone is the owner's alone: a capability is irreversible exactly when the roles
  that have it are Owner and no other, so no member under the owner can delete the world or hand it over.\<close>

theorem irreversible_is_owner_only:
  "is_irreversible c \<longleftrightarrow> {r. role_allows r c} = {Owner}"
  unfolding set_eq_iff all_role by (cases c) (simp_all add: is_irreversible_def role_allows_threshold role_order)

text \<open>Unknowns answer no: a member row whose role cannot be read, like no row at all, gives no
  capability, not even viewing the world, and shows of the scenes only the revealed and the played.\<close>

theorem unreadable_role_grants_nothing:
  assumes "stored \<notin> set (map as_stored all_roles)"
  shows "\<not> may \<lparr>ac_role = from_stored stored, ac_site_admin = False\<rparr> c \<and>
    asset_visible (actor_runs_the_world \<lparr>ac_role = from_stored stored, ac_site_admin = False\<rparr>) attached
      = (case attached of None \<Rightarrow> True | Some s \<Rightarrow> \<not> sc_hidden s \<or> sc_active s)"
proof -
  have "from_stored stored = None"
    using assms by (auto simp: all_roles_def from_stored_def)
  then show ?thesis
    by (simp add: may_def actor_runs_the_world_def asset_visible_def scene_visible_def split: option.split)
qed

lemma unreadable_role_grants_nothing_witness:
  "\<not> may \<lparr>ac_role = from_stored (U ''gm''), ac_site_admin = False\<rparr> ViewWorld \<and>
    \<not> asset_visible (actor_runs_the_world \<lparr>ac_role = from_stored (U ''gm''), ac_site_admin = False\<rparr>) (Some hidden_scene)"
  using unreadable_role_grants_nothing [of "U ''gm''" ViewWorld "Some hidden_scene"]
  by (simp add: all_roles_def hidden_scene_def)

end
