(* ===== verification/Presence.thy ===== *)
theory Presence
  imports TF_Prelude "HOL-Library.AList"
begin

text \<open>
  Who is at the table (crates/thunderforge-presence/src/lib.rs): the registry of last beats, its
  four operations, and a specification over the history of calls that the registry implements
  although it forgets most of that history. An \<open>Instant\<close> is a natural number of nanoseconds;
  \<open>duration_since\<close> saturates, as subtraction of naturals does. The hash maps are association
  lists with distinct keys; nothing the registry answers depends on their order.
\<close>

section \<open>The registry\<close>

definition presence_timeout :: nat where "presence_timeout = 15 * 10 ^ 9"
definition forget_after :: nat where "forget_after = 5 * 60 * 10 ^ 9"

record last_beat =
  lb_scene :: "uuid option"
  lb_seen :: nat

record presence =
  pr_user :: uuid
  pr_scene :: "uuid option"
  pr_since :: nat
  pr_connected :: bool

type_synonym table = "(uuid \<times> last_beat) list"
type_synonym registry = "(uuid \<times> table) list"

definition still_listed :: "nat \<Rightarrow> last_beat \<Rightarrow> bool" where
  "still_listed now b \<longleftrightarrow> now - lb_seen b < forget_after"

definition prune :: "nat \<Rightarrow> table \<Rightarrow> table" where
  "prune now people = filter (\<lambda>(u, b). still_listed now b) people"

definition as_presence :: "nat \<Rightarrow> uuid \<times> last_beat \<Rightarrow> presence" where
  "as_presence now p =
     (let since = now - lb_seen (snd p) in
      \<lparr>pr_user = fst p, pr_scene = lb_scene (snd p), pr_since = since, pr_connected = (since \<le> presence_timeout)\<rparr>)"

definition beat :: "uuid \<Rightarrow> uuid \<Rightarrow> uuid option \<Rightarrow> nat \<Rightarrow> registry \<Rightarrow> registry" where
  "beat w u sc now reg =
     AList.update w (AList.update u \<lparr>lb_scene = sc, lb_seen = now\<rparr>
       (case map_of reg w of None \<Rightarrow> [] | Some people \<Rightarrow> people)) reg"

definition in_world :: "uuid \<Rightarrow> nat \<Rightarrow> registry \<Rightarrow> presence list \<times> registry" where
  "in_world w now reg =
     (case map_of reg w of
        None \<Rightarrow> ([], reg)
      | Some people \<Rightarrow>
          let left = prune now people in
          (sort_key pr_user (map (as_presence now) left), AList.update w left reg))"

definition forget :: "uuid \<Rightarrow> uuid \<Rightarrow> registry \<Rightarrow> registry" where
  "forget w u reg =
     (case map_of reg w of None \<Rightarrow> reg | Some people \<Rightarrow> AList.update w (AList.delete u people) reg)"

definition sweep :: "nat \<Rightarrow> registry \<Rightarrow> nat \<times> registry" where
  "sweep now reg =
     (let pruned = map (\<lambda>(w, people). (w, prune now people)) reg;
          kept = filter (\<lambda>(w, people). people \<noteq> []) pruned in
      (length pruned - length kept, kept))"

definition worlds_tracked :: "registry \<Rightarrow> nat" where
  "worlds_tracked reg = length reg"

section \<open>What the registry knows\<close>

text \<open>Keys are unique, in the outer map and in every table.\<close>

definition wf_registry :: "registry \<Rightarrow> bool" where
  "wf_registry reg \<longleftrightarrow> distinct (map fst reg) \<and>
     (\<forall>w people. map_of reg w = Some people \<longrightarrow> distinct (map fst people))"

definition lookup :: "registry \<Rightarrow> uuid \<Rightarrow> uuid \<Rightarrow> last_beat option" where
  "lookup reg w u = (case map_of reg w of None \<Rightarrow> None | Some people \<Rightarrow> map_of people u)"

definition live :: "nat \<Rightarrow> last_beat option \<Rightarrow> last_beat option" where
  "live now b = (case b of None \<Rightarrow> None | Some x \<Rightarrow> if still_listed now x then Some x else None)"

lemma live_simps [simp]:
  "live now None = None" "live now (Some x) = (if still_listed now x then Some x else None)"
  by (simp_all add: live_def)

lemma live_later: "t \<le> now \<Longrightarrow> live now (live t b) = live now b"
  by (auto simp: live_def still_listed_def split: option.split)

lemma map_of_filter_keys:
  "distinct (map fst xs) \<Longrightarrow> map_of (filter (\<lambda>(k, v). P v) xs) k
     = (case map_of xs k of None \<Rightarrow> None | Some v \<Rightarrow> if P v then Some v else None)"
  by (induction xs) (auto split: option.splits dest: map_of_SomeD intro: rev_image_eqI)

lemma map_of_prune: "distinct (map fst people) \<Longrightarrow> map_of (prune now people) u = live now (map_of people u)"
  by (simp add: prune_def live_def map_of_filter_keys)

lemma distinct_prune: "distinct (map fst people) \<Longrightarrow> distinct (map fst (prune now people))"
  unfolding prune_def by (rule distinct_map_filter)

lemma wf_update:
  "wf_registry reg \<Longrightarrow> distinct (map fst people) \<Longrightarrow> wf_registry (AList.update w people reg)"
  by (simp add: wf_registry_def distinct_update update_conv')

lemma wf_table: "wf_registry reg \<Longrightarrow> map_of reg w = Some people \<Longrightarrow> distinct (map fst people)"
  unfolding wf_registry_def by blast

lemma wf_beat: "wf_registry reg \<Longrightarrow> wf_registry (beat w u sc now reg)"
  unfolding beat_def by (rule wf_update) (auto simp: wf_registry_def distinct_update split: option.split)

lemma wf_forget: "wf_registry reg \<Longrightarrow> wf_registry (forget w u reg)"
  by (auto simp: forget_def wf_registry_def distinct_delete split: option.split intro!: wf_update [unfolded wf_registry_def])

lemma wf_in_world: "wf_registry reg \<Longrightarrow> wf_registry (snd (in_world w now reg))"
  by (auto simp: in_world_def Let_def split: option.split intro!: wf_update distinct_prune)
    (simp add: wf_registry_def)

lemma map_of_sweep:
  assumes "wf_registry reg"
  shows "map_of (snd (sweep now reg)) w =
    (case map_of reg w of None \<Rightarrow> None
     | Some people \<Rightarrow> if prune now people \<noteq> [] then Some (prune now people) else None)"
proof -
  have d: "distinct (map fst (map (\<lambda>(w, people). (w, prune now people)) reg))"
    using assms by (simp add: wf_registry_def comp_def case_prod_beta)
  show ?thesis
    unfolding sweep_def Let_def snd_conv map_of_filter_keys [OF d]
    by (simp add: map_of_map case_prod_beta split: option.split)
qed

lemma wf_sweep:
  assumes "wf_registry reg"
  shows "wf_registry (snd (sweep now reg))"
proof -
  have "distinct (map fst (snd (sweep now reg)))"
    unfolding sweep_def Let_def snd_conv
    using assms by (intro distinct_map_filter) (simp add: wf_registry_def comp_def case_prod_beta)
  then show ?thesis
    using assms by (auto simp: wf_registry_def map_of_sweep [OF assms] distinct_prune split: option.splits if_splits)
qed

lemma lookup_beat:
  "lookup (beat w u sc now reg) w' u' =
     (if w' = w \<and> u' = u then Some \<lparr>lb_scene = sc, lb_seen = now\<rparr> else lookup reg w' u')"
  by (auto simp: beat_def lookup_def update_conv' split: option.split)

lemma lookup_forget:
  "lookup (forget w u reg) w' u' = (if w' = w \<and> u' = u then None else lookup reg w' u')"
  by (auto simp: forget_def lookup_def update_conv' delete_conv' split: option.split)

lemma lookup_in_world:
  "wf_registry reg \<Longrightarrow> lookup (snd (in_world w now reg)) w' u' =
     (if w' = w then live now (lookup reg w' u') else lookup reg w' u')"
  by (auto simp: in_world_def lookup_def update_conv' Let_def map_of_prune dest: wf_table split: option.split)

lemma lookup_sweep:
  "wf_registry reg \<Longrightarrow> lookup (snd (sweep now reg)) w' u' = live now (lookup reg w' u')"
proof -
  assume wf: "wf_registry reg"
  show ?thesis
  proof (cases "map_of reg w'")
    case (Some people)
    with wf_table [OF wf] have "map_of (prune now people) u' = live now (map_of people u')"
      by (intro map_of_prune) blast
    with Some show ?thesis by (cases "prune now people = []") (simp_all add: lookup_def map_of_sweep [OF wf])
  qed (simp add: lookup_def map_of_sweep [OF wf])
qed

section \<open>What is shown\<close>

definition shown :: "nat \<Rightarrow> (uuid \<Rightarrow> last_beat option) \<Rightarrow> presence set" where
  "shown now know = {as_presence now (u, b) | u b. know u = Some b \<and> still_listed now b}"

lemma user_as_presence [simp]: "pr_user (as_presence now p) = fst p"
  by (simp add: as_presence_def Let_def)

lemma shown_prune:
  assumes "distinct (map fst people)"
  shows "set (map (as_presence now) (prune now people)) = shown now (map_of people)"
  using assms by (force simp: shown_def prune_def image_iff)

lemma in_world_shown:
  assumes "wf_registry reg"
  shows "sorted (map pr_user (fst (in_world w now reg))) \<and> distinct (map pr_user (fst (in_world w now reg))) \<and>
    set (fst (in_world w now reg)) = shown now (lookup reg w)"
proof (cases "map_of reg w")
  case None
  then have "lookup reg w = Map.empty" by (auto simp: lookup_def)
  with None show ?thesis by (simp add: in_world_def shown_def)
next
  case (Some people)
  then have d: "distinct (map fst people)" using assms by (simp add: wf_registry_def)
  have l: "lookup reg w = map_of people" using Some by (auto simp: lookup_def)
  have "distinct (map pr_user (map (as_presence now) (prune now people)))"
    using distinct_prune [OF d] by (simp add: comp_def)
  then have "distinct (map pr_user (sort_key pr_user (map (as_presence now) (prune now people))))"
    by (metis distinct_map distinct_sort set_sort)
  then show ?thesis
    using Some shown_prune [OF d, of now] l by (simp add: in_world_def Let_def)
qed

text \<open>What is shown depends on what is known only, not on the order it is kept in.\<close>

lemma same_shown:
  assumes "wf_registry reg" and "wf_registry reg'" and "shown now (lookup reg w) = shown now (lookup reg' w)"
  shows "fst (in_world w now reg) = fst (in_world w now reg')"
proof -
  note a = in_world_shown [OF assms(1), of w now] and b = in_world_shown [OF assms(2), of w now]
  have "distinct (map pr_user (fst (in_world w now reg)))" using a by blast
  then have "inj_on pr_user (set (fst (in_world w now reg)))" unfolding distinct_map by (rule conjunct2)
  moreover have "set (fst (in_world w now reg)) = set (fst (in_world w now reg'))" using a b assms(3) by blast
  ultimately have "inj_on pr_user (set (fst (in_world w now reg)) \<union> set (fst (in_world w now reg')))" by simp
  then show ?thesis
    using a b assms(3) by (intro map_sorted_distinct_set_unique [where f = pr_user]) simp_all
qed

lemma shown_live: "t \<le> now \<Longrightarrow> shown now (\<lambda>u. live t (know u)) = shown now know"
  by (fastforce simp: shown_def live_def still_listed_def split: option.splits if_splits)


section \<open>Histories\<close>

text \<open>The calls a process has seen, the newest first, and what they have made of the registry.\<close>

datatype table_event =
    Beat uuid uuid "uuid option" nat
  | Leave uuid uuid
  | Look uuid nat
  | Sweep nat

fun apply_event :: "table_event \<Rightarrow> registry \<Rightarrow> registry" where
  "apply_event (Beat w u sc t) reg = beat w u sc t reg"
| "apply_event (Leave w u) reg = forget w u reg"
| "apply_event (Look w t) reg = snd (in_world w t reg)"
| "apply_event (Sweep t) reg = snd (sweep t reg)"

definition registry_after :: "table_event list \<Rightarrow> registry" where
  "registry_after h = foldr apply_event h []"

text \<open>The clock does not run backwards between calls, nor before \<open>now\<close>.\<close>

fun timely :: "nat \<Rightarrow> table_event list \<Rightarrow> bool" where
  "timely now [] = True"
| "timely now (Beat _ _ _ t # h) = (t \<le> now \<and> timely t h)"
| "timely now (Leave _ _ # h) = timely now h"
| "timely now (Look _ t # h) = (t \<le> now \<and> timely t h)"
| "timely now (Sweep t # h) = (t \<le> now \<and> timely t h)"

text \<open>The specification never forgets anything but a deliberate leave.\<close>

fun last_heard :: "table_event list \<Rightarrow> uuid \<Rightarrow> uuid \<Rightarrow> last_beat option" where
  "last_heard [] w u = None"
| "last_heard (Beat w' u' sc t # h) w u =
     (if w = w' \<and> u = u' then Some \<lparr>lb_scene = sc, lb_seen = t\<rparr> else last_heard h w u)"
| "last_heard (Leave w' u' # h) w u = (if w = w' \<and> u = u' then None else last_heard h w u)"
| "last_heard (Look _ _ # h) w u = last_heard h w u"
| "last_heard (Sweep _ # h) w u = last_heard h w u"

lemma wf_after: "wf_registry (registry_after h)"
  unfolding registry_after_def
proof (induction h)
  case (Cons e h)
  then show ?case by (cases e) (simp_all add: wf_beat wf_forget wf_in_world wf_sweep)
qed (simp add: wf_registry_def)

lemma timely_later: "timely t h \<Longrightarrow> t \<le> now \<Longrightarrow> timely now h"
  by (induction h rule: timely.induct) auto

text \<open>What the registry has forgotten, the specification would not show either.\<close>

lemma after_last_heard:
  "timely now h \<Longrightarrow> live now (lookup (registry_after h) w u) = live now (last_heard h w u)"
proof (induction h arbitrary: now)
  case Nil
  then show ?case by (simp add: registry_after_def lookup_def)
next
  case (Cons e h)
  have wf: "wf_registry (foldr apply_event h [])" using wf_after [of h] by (simp add: registry_after_def)
  note IH = Cons.IH [unfolded registry_after_def]
  show ?case
  proof (cases e)
    case (Beat w' u' sc t)
    with Cons.prems have "timely now h" by (auto intro: timely_later)
    with IH Beat show ?thesis by (simp add: registry_after_def lookup_beat)
  next
    case (Leave w' u')
    with IH Cons.prems show ?thesis by (simp add: registry_after_def lookup_forget)
  next
    case (Look w' t)
    with Cons.prems have "timely now h" "t \<le> now" by (auto intro: timely_later)
    with IH Look show ?thesis
      by (cases "w = w'") (simp_all add: registry_after_def lookup_in_world [OF wf] live_later)
  next
    case (Sweep t)
    with Cons.prems have "timely now h" "t \<le> now" by (auto intro: timely_later)
    with IH Sweep show ?thesis by (simp add: registry_after_def lookup_sweep [OF wf] live_later)
  qed
qed

lemma shown_cong: "(\<And>u. live now (f u) = live now (g u)) \<Longrightarrow> shown now f = shown now g"
  using shown_live [of now now f] shown_live [of now now g] by simp

text \<open>C17: whatever calls came before, the registry answers as if it had remembered all of them: it lists,
  once each and in a fixed order, exactly the people whose last beat since they last left is less than
  five minutes old, with the scene and the silence of that beat, and calls them connected while the
  silence is at most fifteen seconds.\<close>

theorem presence_refines_history:
  assumes "timely now h"
  shows "sorted (map pr_user (fst (in_world w now (registry_after h)))) \<and>
    distinct (map pr_user (fst (in_world w now (registry_after h)))) \<and>
    set (fst (in_world w now (registry_after h))) =
      {\<lparr>pr_user = u, pr_scene = lb_scene b, pr_since = now - lb_seen b,
        pr_connected = (now - lb_seen b \<le> presence_timeout)\<rparr> | u b.
       last_heard h w u = Some b \<and> now - lb_seen b < forget_after}"
proof -
  have "shown now (lookup (registry_after h) w) = shown now (last_heard h w)"
    by (rule shown_cong, rule after_last_heard [OF assms])
  then show ?thesis
    using in_world_shown [OF wf_after, of w now h] by (simp add: shown_def as_presence_def still_listed_def Let_def)
qed

lemma presence_refines_history_witness:
  "set (fst (in_world 7 (20 * 10 ^ 9) (registry_after
      [Sweep (19 * 10 ^ 9), Leave 7 2, Beat 7 2 None (3 * 10 ^ 9), Beat 7 1 (Some 5) 0]))) =
    {\<lparr>pr_user = 1, pr_scene = Some 5, pr_since = 20 * 10 ^ 9, pr_connected = False\<rparr>}"
  using presence_refines_history [of "20 * 10 ^ 9"
      "[Sweep (19 * 10 ^ 9), Leave 7 2, Beat 7 2 None (3 * 10 ^ 9), Beat 7 1 (Some 5) 0]" 7]
  by (auto simp: presence_timeout_def forget_after_def split: if_splits)

text \<open>Sweeping bounds the memory and is invisible: afterwards every world still held has only people
  heard less than five minutes ago, at least one each, the count returned is how many worlds went, and
  every later answer is the one an unswept registry would give.\<close>

theorem sweep_is_invisible:
  assumes "wf_registry reg" and "sweep t reg = (n, swept)" and "t \<le> now"
  shows "worlds_tracked swept + n = worlds_tracked reg \<and>
    (\<forall>people \<in> snd ` set swept. people \<noteq> [] \<and> (\<forall>b \<in> snd ` set people. t - lb_seen b < forget_after)) \<and>
    fst (in_world w now swept) = fst (in_world w now reg)"
proof -
  have s: "swept = snd (sweep t reg)" using assms(2) by simp
  have "shown now (lookup swept w) = shown now (lookup reg w)"
    unfolding s by (rule shown_cong) (simp add: lookup_sweep [OF assms(1)] live_later [OF assms(3)])
  then have "fst (in_world w now swept) = fst (in_world w now reg)"
    unfolding s by (intro same_shown wf_sweep assms(1))
  moreover have "worlds_tracked swept + n = worlds_tracked reg"
    using assms(2) length_filter_le [of "\<lambda>(w, people). people \<noteq> []" "map (\<lambda>(w, people). (w, prune t people)) reg"]
    by (auto simp: sweep_def worlds_tracked_def Let_def)
  moreover have "\<forall>people \<in> snd ` set swept. people \<noteq> [] \<and> (\<forall>b \<in> snd ` set people. t - lb_seen b < forget_after)"
    unfolding s by (auto simp: sweep_def Let_def prune_def still_listed_def)
  ultimately show ?thesis by blast
qed

lemma sweep_is_invisible_witness:
  "fst (in_world 7 (400 * 10 ^ 9) []) = fst (in_world 7 (400 * 10 ^ 9) [(7, [(1, \<lparr>lb_scene = None, lb_seen = 0\<rparr>)])])"
  using sweep_is_invisible [of "[(7, [(1, \<lparr>lb_scene = None, lb_seen = 0\<rparr>)])]" "400 * 10 ^ 9" 1 "[]" "400 * 10 ^ 9" 7]
  by (simp add: wf_registry_def sweep_def prune_def still_listed_def forget_after_def split: if_splits)

end
