(* ===== verification/Combat_Order.thy ===== *)
theory Combat_Order
  imports TF_Prelude "HOL-Library.Sorting_Algorithms"
begin

text \<open>
  Whose turn it is (crates/thunderforge-combat/src: order.rs, turn.rs). The comparison of seats is a
  comparator of the library's sorting theory, whose \<open>sort\<close> is the stable sort the code calls; the walk
  to the next turn is the code's loop over offsets, and is shown to hand every active seat exactly
  one turn per round.
\<close>

section \<open>The order of seats\<close>

text \<open>What turn order reads of a combatant (\<open>trait Seat\<close>).\<close>

record 'i seat =
  seat_id :: 'i
  initiative :: int  \<comment> \<open>\<open>i32\<close>\<close>
  tiebreak :: int  \<comment> \<open>\<open>i32\<close>\<close>
  is_active :: bool

text \<open>\<open>Ord::cmp\<close> and \<open>Ordering::then\<close>.\<close>

definition cmp_of :: "'a::linorder \<Rightarrow> 'a \<Rightarrow> comp" where
  "cmp_of x y = (if x < y then Less else if x = y then Equiv else Greater)"

fun then_cmp :: "comp \<Rightarrow> comp \<Rightarrow> comp" where
  "then_cmp Equiv c = c"
| "then_cmp c _ = c"

definition turn_order :: "'i::linorder seat \<Rightarrow> 'i seat \<Rightarrow> comp" where
  "turn_order a b =
     then_cmp (then_cmp (cmp_of (initiative b) (initiative a)) (cmp_of (tiebreak b) (tiebreak a)))
       (cmp_of (seat_id a) (seat_id b))"

text \<open>The comparison is a lexicographic one of three linear orders, so it is a comparator.\<close>

lemma cmp_of_simps [simp]:
  "cmp_of x x = Equiv" "cmp_of x y = Equiv \<longleftrightarrow> x = y" "cmp_of x y = Less \<longleftrightarrow> x < y" "cmp_of x y = Greater \<longleftrightarrow> y < x"
  by (auto simp: cmp_of_def)

lemma then_cmp_simps [simp]:
  "then_cmp c d = Equiv \<longleftrightarrow> c = Equiv \<and> d = Equiv"
  "then_cmp c d = Less \<longleftrightarrow> c = Less \<or> c = Equiv \<and> d = Less"
  "then_cmp c d = Greater \<longleftrightarrow> c = Greater \<or> c = Equiv \<and> d = Greater"
  by (cases c; simp)+

lemma turn_order_comparator: "comparator turn_order"
  by unfold_locales (auto simp: turn_order_def)

lift_definition by_turn :: "'i::linorder seat comparator" is turn_order
  by (rule turn_order_comparator)

definition sort_seats :: "'i::linorder seat list \<Rightarrow> 'i seat list" where
  "sort_seats seats = Sorting_Algorithms.sort by_turn seats"

lemma compare_by_turn [simp]: "compare by_turn = turn_order"
  by (rule by_turn.rep_eq)

text \<open>Who goes before whom, in words.\<close>

definition goes_before :: "'i::linorder seat \<Rightarrow> 'i seat \<Rightarrow> bool" where
  "goes_before a b \<longleftrightarrow> initiative b < initiative a \<or>
     initiative a = initiative b \<and> (tiebreak b < tiebreak a \<or> tiebreak a = tiebreak b \<and> seat_id a < seat_id b)"

lemma turn_order_goes_before: "turn_order a b \<noteq> Greater \<longleftrightarrow> goes_before a b \<or> turn_order a b = Equiv"
  by (auto simp: turn_order_def goes_before_def)

lemma turn_order_Equiv_id: "turn_order a b = Equiv \<Longrightarrow> seat_id a = seat_id b"
  by (simp add: turn_order_def)

lemma sorted_goes_before:
  "Sorting_Algorithms.sorted by_turn seats \<Longrightarrow> distinct (map seat_id seats) \<Longrightarrow> sorted_wrt goes_before seats"
proof (induction seats rule: Sorting_Algorithms.sorted_induct)
  case (Cons s seats)
  have "goes_before s x" if x: "x \<in> set seats" for x
  proof -
    have "seat_id s \<noteq> seat_id x" using Cons.prems x by auto
    then show ?thesis
      using Cons.hyps(2) [OF x] turn_order_goes_before [of s x] turn_order_Equiv_id [of s x] by auto
  qed
  then show ?case using Cons.IH Cons.prems by simp
qed simp

lemma goes_before_unique:
  assumes "sorted_wrt goes_before xs" and "sorted_wrt goes_before ys" and "mset xs = mset ys"
  shows "xs = ys"
  using assms
proof (induction xs arbitrary: ys)
  case (Cons x xs)
  then obtain y zs where ys: "ys = y # zs" by (cases ys) auto
  have same: "set (x # xs) = set ys" using Cons.prems(3) mset_eq_setD by blast
  have "x = y"
  proof (rule ccontr)
    assume "x \<noteq> y"
    then have "goes_before x y" "goes_before y x" using same Cons.prems ys by auto
    then show False by (auto simp: goes_before_def)
  qed
  then show ?case using Cons ys by simp
qed simp

text \<open>Turn order is a fact about the combatants and not about how they came: any two listings of the
  same combatants, their ids distinct, sort to the same list, a rearrangement in which everyone
  stands before those of lower initiative, then of lower tiebreak, then of higher id.\<close>

theorem turn_order_deterministic:
  assumes "distinct (map seat_id seats)" and "mset seats = mset other"
  shows "sort_seats seats = sort_seats other \<and> mset (sort_seats seats) = mset seats \<and>
    sorted_wrt goes_before (sort_seats seats)"
proof -
  have "distinct (map seat_id other)" using assms by (metis mset_eq_imp_distinct_iff mset_map)
  moreover have d: "distinct (map seat_id (sort_seats s))" if "distinct (map seat_id s)" for s :: "'a seat list"
    using that by (metis mset_eq_imp_distinct_iff mset_map mset_sort sort_seats_def)
  ultimately have s: "sorted_wrt goes_before (sort_seats seats)" "sorted_wrt goes_before (sort_seats other)"
    using assms(1) by (auto simp: sort_seats_def intro!: sorted_goes_before)
  show ?thesis using goes_before_unique [OF s] assms(2) s by (simp add: sort_seats_def)
qed

definition goblin :: "nat seat" where "goblin = \<lparr>seat_id = 7, initiative = 12, tiebreak = 2, is_active = True\<rparr>"
definition wolf :: "nat seat" where "wolf = \<lparr>seat_id = 3, initiative = 12, tiebreak = 2, is_active = False\<rparr>"
definition hero :: "nat seat" where "hero = \<lparr>seat_id = 9, initiative = 17, tiebreak = 0, is_active = True\<rparr>"

lemma turn_order_deterministic_witness:
  "sort_seats [goblin, wolf, hero] = sort_seats [wolf, hero, goblin] \<and> sort_seats [goblin, wolf, hero] = [hero, wolf, goblin]"
  using turn_order_deterministic [of "[goblin, wolf, hero]" "[wolf, hero, goblin]"]
  by (simp add: goblin_def wolf_def hero_def sort_seats_def turn_order_def cmp_of_def)

section \<open>The next turn\<close>

text \<open>\<open>Iterator::position\<close>.\<close>

fun position :: "('a \<Rightarrow> bool) \<Rightarrow> 'a list \<Rightarrow> nat option" where
  "position P [] = None"
| "position P (x # xs) = (if P x then Some 0 else map_option Suc (position P xs))"

text \<open>The loop over the offsets still to try.\<close>

fun try_offsets :: "'i seat list \<Rightarrow> nat \<Rightarrow> bool \<Rightarrow> nat list \<Rightarrow> (nat \<times> bool) option" where
  "try_offsets ordered start holding [] = None"
| "try_offsets ordered start holding (k # ks) =
     (let idx = (start + k) mod length ordered in
      if is_active (ordered ! idx) then Some (idx, holding \<and> length ordered \<le> start + k)
      else try_offsets ordered start holding ks)"

definition next_turn :: "'i seat list \<Rightarrow> 'i option \<Rightarrow> (nat \<times> bool) option" where
  "next_turn ordered active_id =
     (if ordered = [] then None
      else
        let current = Option.bind active_id (\<lambda>i. position (\<lambda>c. seat_id c = i) ordered);
            (start, first_offset) = (case current of Some index \<Rightarrow> (index, 1) | None \<Rightarrow> (0, 0))
        in try_offsets ordered start (current \<noteq> None) [first_offset ..< first_offset + length ordered])"

lemma position_None: "position P xs = None \<longleftrightarrow> (\<forall>x \<in> set xs. \<not> P x)"
  by (induction xs) auto

lemma position_Some:
  "position P xs = Some i \<longleftrightarrow> i < length xs \<and> P (xs ! i) \<and> (\<forall>j < i. \<not> P (xs ! j))"
proof (induction xs arbitrary: i)
  case (Cons x xs)
  then show ?case by (cases i) (auto simp: less_Suc_eq_0_disj)
qed simp

lemma position_split:
  assumes "distinct (map seat_id (before @ s # after))"
  shows "position (\<lambda>c. seat_id c = seat_id s) (before @ s # after) = Some (length before)"
  using assms by (induction before) auto

lemma find_map: "find P (map f ks) = map_option f (find (\<lambda>k. P (f k)) ks)"
  by (induction ks) auto

lemma find_None: "find P xs = None \<longleftrightarrow> filter P xs = []"
  by (induction xs) auto

lemma find_append: "find P (xs @ ys) = (case find P xs of None \<Rightarrow> find P ys | Some x \<Rightarrow> Some x)"
  by (induction xs) auto

lemma try_offsets_find:
  "try_offsets xs start h ks =
     map_option (\<lambda>k. ((start + k) mod length xs, h \<and> length xs \<le> start + k))
       (find (\<lambda>k. is_active (xs ! ((start + k) mod length xs))) ks)"
  by (induction ks) (simp_all add: Let_def)

text \<open>The ring as the walk sees it: the seats after the holder, then those before, then the holder.\<close>

lemma ring_after:
  assumes "xs = before @ s # after"
  shows "map (\<lambda>k. xs ! ((length before + k) mod length xs)) [1 ..< length after + 1] = after"
proof (rule nth_equalityI)
  fix d assume "d < length (map (\<lambda>k. xs ! ((length before + k) mod length xs)) [1 ..< length after + 1])"
  then have "d < length after" by (simp del: upt_Suc)
  then show "map (\<lambda>k. xs ! ((length before + k) mod length xs)) [1 ..< length after + 1] ! d = after ! d"
    by (simp add: assms nth_append del: upt_Suc)
qed (simp del: upt_Suc)

lemma ring_before:
  assumes "xs = before @ s # after"
  shows "map (\<lambda>k. xs ! ((length before + k) mod length xs)) [length after + 1 ..< 1 + length xs] = before @ [s]"
proof (rule nth_equalityI)
  fix d assume "d < length (map (\<lambda>k. xs ! ((length before + k) mod length xs)) [length after + 1 ..< 1 + length xs])"
  then have d: "d < length before + 1" by (simp add: assms del: upt_Suc)
  have at: "[length after + 1 ..< 1 + length xs] ! d = length after + 1 + d"
    using d by (subst nth_upt) (simp_all add: assms)
  have wrap: "(length before + (length after + 1 + d)) mod length xs = d"
    using d by (simp add: assms mod_if)
  have "map (\<lambda>k. xs ! ((length before + k) mod length xs)) [length after + 1 ..< 1 + length xs] ! d = xs ! d"
    using d by (subst nth_map) (simp add: assms del: upt_Suc, simp only: at wrap)
  also have "xs ! d = (before @ [s]) ! d"
    using d by (cases "d = length before") (simp_all add: assms nth_append)
  finally show "map (\<lambda>k. xs ! ((length before + k) mod length xs)) [length after + 1 ..< 1 + length xs] ! d = (before @ [s]) ! d" .
qed (simp add: assms del: upt_Suc)

lemma find_range: "find P [a ..< b] = Some k \<Longrightarrow> a \<le> k \<and> k < b"
  by (auto simp: find_Some_iff)

text \<open>What the loop answers, with the index read as a seat.\<close>

definition next_seat :: "'i seat list \<Rightarrow> 'i option \<Rightarrow> ('i seat \<times> bool) option" where
  "next_seat xs h = map_option (\<lambda>(j, w). (xs ! j, w)) (next_turn xs h)"

lemma next_seat_after:
  assumes xs: "xs = before @ s # after" and "distinct (map seat_id xs)"
  shows "next_seat xs (Some (seat_id s)) =
    (case find is_active after of
       Some c \<Rightarrow> Some (c, False)
     | None \<Rightarrow> map_option (\<lambda>c. (c, True)) (find is_active (before @ [s])))"
proof -
  let ?at = "\<lambda>k. xs ! ((length before + k) mod length xs)" and ?m = "length after + 1"
  have pos: "position (\<lambda>c. seat_id c = seat_id s) xs = Some (length before)"
    unfolding xs by (rule position_split) (use assms in simp)
  have upt: "[1 ..< 1 + length xs] = [1 ..< ?m] @ [?m ..< 1 + length xs]"
    using upt_add_eq_append [of 1 ?m "length before + 1"] by (simp add: xs ac_simps del: upt_Suc)
  have "next_seat xs (Some (seat_id s)) =
      map_option (\<lambda>k. (?at k, length xs \<le> length before + k)) (find (\<lambda>k. is_active (?at k)) [1 ..< 1 + length xs])"
    using pos xs by (simp add: next_seat_def next_turn_def try_offsets_find option.map_comp comp_def del: upt_Suc)
  also have "\<dots> = (case find is_active (map ?at [1 ..< ?m]) of
       Some c \<Rightarrow> Some (c, False)
     | None \<Rightarrow> map_option (\<lambda>c. (c, True)) (find is_active (map ?at [?m ..< 1 + length xs])))"
    unfolding upt find_append find_map by (auto simp: xs option.map_comp comp_def intro!: option.map_cong split: option.split dest!: find_range simp del: upt_Suc)
  finally show ?thesis unfolding ring_after [OF xs] ring_before [OF xs] .
qed

lemma next_seat_enter:
  assumes "\<forall>i. h = Some i \<longrightarrow> i \<notin> seat_id ` set xs"
  shows "next_seat xs h = map_option (\<lambda>c. (c, False)) (find is_active xs)"
proof -
  let ?at = "\<lambda>k. xs ! (k mod length xs)"
  have "Option.bind h (\<lambda>i. position (\<lambda>s. seat_id s = i) xs) = None"
    using assms by (cases h) (auto simp: position_None)
  then have "next_seat xs h = map_option (\<lambda>c. (c, False)) (find is_active (map ?at [0 ..< length xs]))"
    by (simp add: next_seat_def next_turn_def try_offsets_find find_map option.map_comp comp_def)
  also have "map ?at [0 ..< length xs] = xs" by (auto intro: nth_equalityI)
  finally show ?thesis .
qed

text \<open>The next turn goes round the ring: to the first combatant still in the fight after the one
  who holds the turn, starting over from the top past the end, which alone counts as a wrap, and
  back to the holder last; with nobody left in the fight there is no next turn.\<close>

theorem next_turn_goes_round:
  assumes "distinct (map seat_id xs)" and "xs = before @ s # after"
  shows "(case next_turn xs (Some (seat_id s)) of
      None \<Rightarrow> filter is_active xs = []
    | Some (j, wrapped) \<Rightarrow>
        find is_active (after @ before @ [s]) = Some (xs ! j) \<and> (wrapped \<longleftrightarrow> filter is_active after = []))"
proof -
  have "next_seat xs (Some (seat_id s)) = (case find is_active after of
       Some c \<Rightarrow> Some (c, False) | None \<Rightarrow> map_option (\<lambda>c. (c, True)) (find is_active (before @ [s])))"
    by (rule next_seat_after) (use assms in auto)
  then have seat: "next_seat xs (Some (seat_id s)) =
      map_option (\<lambda>c. (c, filter is_active after = [])) (find is_active (after @ before @ [s]))"
    using find_None [of is_active after]
    by (cases "find is_active after") (auto simp: find_append [of is_active after])
  show ?thesis
  proof (cases "next_turn xs (Some (seat_id s))")
    case None
    then have "find is_active (after @ before @ [s]) = None" using seat by (simp add: next_seat_def)
    then show ?thesis using None assms(2) by (simp add: find_None split: if_splits)
  next
    case (Some r)
    then show ?thesis using seat by (cases r; cases "find is_active (after @ before @ [s])") (simp_all add: next_seat_def)
  qed
qed

lemma next_turn_goes_round_witness:
  "next_turn [hero, wolf, goblin] (Some 3) = Some (2, False) \<and> find is_active ([goblin] @ [hero] @ [wolf]) = Some goblin"
  using next_turn_goes_round [of "[hero, wolf, goblin]" "[hero]" wolf "[goblin]"]
  by (simp add: next_turn_def goblin_def wolf_def hero_def Let_def)

section \<open>A round\<close>

text \<open>Passing the turn on: whoever holds it, and the round.\<close>

definition pass_turn :: "'i seat list \<Rightarrow> 'i option \<times> int \<Rightarrow> 'i option \<times> int" where
  "pass_turn xs = (\<lambda>(holder, round).
     case next_turn xs holder of
       None \<Rightarrow> (holder, round)
     | Some (j, wrapped) \<Rightarrow> (Some (seat_id (xs ! j)), if wrapped then round + 1 else round))"

lemma pass_turn_seat:
  "pass_turn xs (h, r) = (case next_seat xs h of None \<Rightarrow> (h, r) | Some (c, w) \<Rightarrow> (Some (seat_id c), if w then r + 1 else r))"
  by (auto simp: pass_turn_def next_seat_def split: option.split)

lemma find_filter: "find P xs = (case filter P xs of [] \<Rightarrow> None | x # _ \<Rightarrow> Some x)"
  by (induction xs) auto

lemma filter_split_at:
  "k < length (filter P xs) \<Longrightarrow>
    \<exists>before after. xs = before @ filter P xs ! k # after \<and> filter P before = take k (filter P xs) \<and> filter P after = drop (Suc k) (filter P xs)"
proof (induction xs arbitrary: k)
  case (Cons x xs)
  show ?case
  proof (cases "P x")
    case True
    show ?thesis
    proof (cases k)
      case 0
      with True show ?thesis by (intro exI [of _ "[]"] exI [of _ xs]) simp
    next
      case (Suc m)
      with Cons True obtain b a where "xs = b @ filter P xs ! m # a" "filter P b = take m (filter P xs)" "filter P a = drop (Suc m) (filter P xs)"
        by fastforce
      with True Suc show ?thesis by (intro exI [of _ "x # b"] exI [of _ a]) simp
    qed
  next
    case False
    with Cons obtain b a where "xs = b @ filter P xs ! k # a" "filter P b = take k (filter P xs)" "filter P a = drop (Suc k) (filter P xs)"
      by fastforce
    with False show ?thesis by (intro exI [of _ "x # b"] exI [of _ a]) simp
  qed
qed simp

lemma pass_turn_from_active:
  assumes "distinct (map seat_id xs)" and k: "k < length (filter is_active xs)"
  shows "pass_turn xs (Some (seat_id (filter is_active xs ! k)), r) =
    (if Suc k < length (filter is_active xs) then (Some (seat_id (filter is_active xs ! Suc k)), r)
     else (Some (seat_id (filter is_active xs ! 0)), r + 1))"
proof -
  let ?act = "filter is_active xs"
  obtain before after where xs: "xs = before @ ?act ! k # after"
    and b: "filter is_active before = take k ?act" and a: "filter is_active after = drop (Suc k) ?act"
    using filter_split_at [of k is_active xs] k by blast
  have act: "is_active (?act ! k)" using nth_mem [OF k] by simp
  have first: "hd ?act = ?act ! 0" using k by (subst hd_conv_nth) auto
  have "filter is_active (before @ [?act ! k]) = take (Suc k) ?act"
    using act b k by (simp add: take_Suc_conv_app_nth)
  then have "find is_active (before @ [?act ! k]) = Some (?act ! 0)"
    unfolding find_filter using k first by (cases ?act) auto
  moreover have "find is_active after = (if Suc k < length ?act then Some (?act ! Suc k) else None)"
    unfolding find_filter a by (auto simp: Cons_nth_drop_Suc [symmetric])
  ultimately show ?thesis
    using next_seat_after [OF xs assms(1)] by (simp add: pass_turn_seat)
qed

text \<open>Every combatant in the fight acts exactly once each round, in turn order: from a fight nobody
  has acted in yet, the \<open>k\<close>-th pass of the turn comes to the \<open>k\<close>-th active combatant of the order,
  counting round again past the end, and the round has grown by one for each time through.\<close>

lemma turns_of_the_round:
  assumes "distinct (map seat_id xs)" and "filter is_active xs \<noteq> []"
  shows "(pass_turn xs ^^ Suc k) (None, round) =
    (Some (seat_id (filter is_active xs ! (k mod length (filter is_active xs)))), round + int (k div length (filter is_active xs)))"
proof (induction k)
  case 0
  have "next_seat xs None = map_option (\<lambda>c. (c, False)) (find is_active xs)" by (rule next_seat_enter) simp
  then show ?case using assms(2) by (cases "filter is_active xs") (simp_all add: pass_turn_seat find_filter)
next
  case (Suc k)
  let ?n = "length (filter is_active xs)"
  have n: "0 < ?n" using assms(2) by simp
  then have "(pass_turn xs ^^ Suc (Suc k)) (None, round) =
      (if Suc (k mod ?n) < ?n then (Some (seat_id (filter is_active xs ! Suc (k mod ?n))), round + int (k div ?n))
       else (Some (seat_id (filter is_active xs ! 0)), round + int (k div ?n) + 1))"
    using Suc pass_turn_from_active [OF assms(1), of "k mod ?n" "round + int (k div ?n)"] by simp
  moreover have "Suc (k mod ?n) < ?n \<longleftrightarrow> Suc (k mod ?n) \<noteq> ?n" using mod_less_divisor [OF n, of k] by linarith
  ultimately show ?case by (simp add: mod_Suc div_Suc)
qed

section \<open>Whose turn holds a player back\<close>

text \<open>What the turn check reads of a combatant (\<open>trait Party\<close>).\<close>

record 'i party =
  party_id :: 'i
  token_of :: "'i option"
  actor_of :: "'i option"

definition is_acting :: "'i \<Rightarrow> 'i option \<Rightarrow> 'i party \<Rightarrow> bool" where
  "is_acting acting_token acting_actor c =
     (case token_of c of
        Some tok \<Rightarrow> tok = acting_token
      | None \<Rightarrow> acting_actor \<noteq> None \<and> actor_of c = acting_actor)"

definition held_by :: "'i party list \<Rightarrow> 'i \<Rightarrow> 'i \<Rightarrow> 'i option \<Rightarrow> 'i party option" where
  "held_by combatants active_id acting_token acting_actor =
     (let mine = filter (is_acting acting_token acting_actor) combatants in
      if mine = [] \<or> (\<exists>c \<in> set mine. party_id c = active_id) then None
      else find (\<lambda>c. party_id c = active_id) combatants)"

definition turn_refusal :: "ustring \<Rightarrow> ustring" where
  "turn_refusal label = U ''It is '' @ label @ 39 # U ''s turn''"  \<comment> \<open>39 is the apostrophe\<close>

text \<open>A player is held back exactly when the token is in the fight, the turn is somebody's in it, and
  that somebody is none of the token's own combatants; the one named is the one whose turn it is.
  A token outside the fight acts freely, and so does everyone when the turn names a combatant that
  is gone.\<close>

theorem held_back_only_by_another:
  assumes "distinct (map party_id combatants)"
  shows "held_by combatants active_id acting_token acting_actor = Some holder \<longleftrightarrow>
    holder \<in> set combatants \<and> party_id holder = active_id \<and> \<not> is_acting acting_token acting_actor holder \<and>
    (\<exists>c \<in> set combatants. is_acting acting_token acting_actor c)"
proof -
  let ?act = "is_acting acting_token acting_actor"
  have unique: "find (\<lambda>c. party_id c = active_id) combatants = Some holder \<longleftrightarrow> holder \<in> set combatants \<and> party_id holder = active_id"
    using assms by (induction combatants) auto
  have same: "c = holder" if "c \<in> set combatants" "party_id c = active_id" "holder \<in> set combatants" "party_id holder = active_id" for c
    using that assms by (simp add: distinct_map inj_on_def)
  have "held_by combatants active_id acting_token acting_actor = Some holder \<longleftrightarrow>
      (\<exists>c \<in> set combatants. ?act c) \<and> \<not> (\<exists>c \<in> set combatants. ?act c \<and> party_id c = active_id) \<and>
      holder \<in> set combatants \<and> party_id holder = active_id"
    unfolding held_by_def Let_def unique [symmetric] by (auto simp: filter_empty_conv)
  then show ?thesis using same by metis
qed

lemma held_back_only_by_another_witness:
  "held_by [\<lparr>party_id = 5, token_of = Some 10, actor_of = None\<rparr>, \<lparr>party_id = 2, token_of = None, actor_of = Some (7::nat)\<rparr>] 5 11 (Some 7)
    = Some \<lparr>party_id = 5, token_of = Some 10, actor_of = None\<rparr>"
  using held_back_only_by_another [of "[\<lparr>party_id = 5, token_of = Some 10, actor_of = None\<rparr>, \<lparr>party_id = 2, token_of = None, actor_of = Some 7\<rparr>]"
      "5 :: nat" 11 "Some 7" "\<lparr>party_id = 5, token_of = Some 10, actor_of = None\<rparr>"]
  by (simp add: is_acting_def)

end
