(* ===== verification/Combat_Dice.thy ===== *)
theory Combat_Dice
  imports Dice_Eval
begin

text \<open>
  The generators a fight is rolled with (crates/thunderforge-combat/src/dice.rs): the SplitMix64 stream
  of a seeded fight, on 64-bit words, and the scripted faces of a test. A generator is its
  \<open>next_u32\<close> as a state transformer, the form the evaluator of the dice crate takes.
\<close>

unbundle bit_operations_syntax

section \<open>The seeded stream\<close>

text \<open>\<open>SeededDice\<close> is its one field, the state.\<close>

definition golden_gamma :: u64 where "golden_gamma = 0x9E3779B97F4A7C15"

definition mix64 :: "u64 \<Rightarrow> u64" where
  "mix64 z0 =
     (let z1 = (z0 XOR drop_bit 30 z0) * 0xBF58476D1CE4E5B9;
          z2 = (z1 XOR drop_bit 27 z1) * 0x94D049BB133111EB
      in z2 XOR drop_bit 31 z2)"

definition seeded_next :: "u64 \<Rightarrow> u64 \<times> u64" where
  "seeded_next state = (let s = state + golden_gamma in (mix64 s, s))"

definition seeded_u32 :: "u64 \<Rightarrow> u32 \<times> u64" where
  "seeded_u32 state = (case seeded_next state of (z, s) \<Rightarrow> (ucast (drop_bit 32 z), s))"

definition seeded_u64 :: "u64 \<Rightarrow> u64 \<times> u64" where
  "seeded_u64 state = seeded_next state"

text \<open>\<open>to_le_bytes\<close>: the low byte first; \<open>try_fill_bytes\<close> draws one word for each eight bytes.\<close>

fun le_bytes :: "nat \<Rightarrow> u64 \<Rightarrow> 8 word list" where
  "le_bytes 0 w = []"
| "le_bytes (Suc k) w = ucast w # le_bytes k (drop_bit 8 w)"

function seeded_fill :: "nat \<Rightarrow> u64 \<Rightarrow> 8 word list \<times> u64" where
  "seeded_fill n state =
     (if n = 0 then ([], state)
      else case seeded_next state of (z, s) \<Rightarrow>
        case seeded_fill (n - min n 8) s of (rest, s') \<Rightarrow> (take (min n 8) (le_bytes 8 z) @ rest, s'))"
  by pat_completeness auto
termination by (relation "measure fst") auto

declare seeded_fill.simps [simp del]

section \<open>Scripted faces\<close>

record scripted_dice =
  sd_draws :: "u32 list"
  sd_at :: nat

definition scripted_faces :: "u32 list \<Rightarrow> scripted_dice" where
  "scripted_faces faces =
     (let draws = map (\<lambda>f. max f 1 - 1) faces in
      \<lparr>sd_draws = (if draws = [] then [0] else draws), sd_at = 0\<rparr>)"

definition scripted_u32 :: "scripted_dice \<Rightarrow> u32 \<times> scripted_dice" where
  "scripted_u32 d = (sd_draws d ! (sd_at d mod length (sd_draws d)), d\<lparr>sd_at := sd_at d + 1\<rparr>)"

definition scripted_u64 :: "scripted_dice \<Rightarrow> u64 \<times> scripted_dice" where
  "scripted_u64 d = (case scripted_u32 d of (w, d') \<Rightarrow> (ucast w, d'))"

fun scripted_fill :: "nat \<Rightarrow> scripted_dice \<Rightarrow> 8 word list \<times> scripted_dice" where
  "scripted_fill 0 d = ([], d)"
| "scripted_fill (Suc n) d =
     (case scripted_u32 d of (w, d') \<Rightarrow> case scripted_fill n d' of (ws, d'') \<Rightarrow> (ucast w # ws, d''))"

section \<open>Every seed gives a full period\<close>

text \<open>A xor with its own right shift, and a product with an odd constant, lose nothing.\<close>

lemma shift_fixed_zero: "w = drop_bit (Suc k) w \<Longrightarrow> w = 0" for w :: u64
proof -
  assume "w = drop_bit (Suc k) w"
  then have "unat w = unat (drop_bit (Suc k) w)" by (rule arg_cong)
  also have "\<dots> = unat w div 2 ^ Suc k" by (subst unat_drop_bit_eq) (rule drop_bit_eq_div)
  finally have "unat w = unat w div 2 ^ Suc k" .
  moreover have "unat w div 2 ^ Suc k \<le> unat w div 2" by (rule div_le_mono2) simp_all
  ultimately have "unat w = 0" by linarith
  then show "w = 0" by (simp add: unat_eq_zero)
qed

lemma xorshift_inj: "inj (\<lambda>z::u64. z XOR drop_bit (Suc k) z)"
proof (rule injI)
  fix a b :: u64
  assume eq: "a XOR drop_bit (Suc k) a = b XOR drop_bit (Suc k) b"
  have "a XOR b = drop_bit (Suc k) (a XOR b)"
  proof -
    have "(a XOR drop_bit (Suc k) a) XOR (b XOR drop_bit (Suc k) a) = (b XOR drop_bit (Suc k) b) XOR (b XOR drop_bit (Suc k) a)"
      by (simp only: eq)
    then have "a XOR b = drop_bit (Suc k) b XOR drop_bit (Suc k) a"
      by (simp add: xor.assoc xor.left_commute xor.commute)
    also have "\<dots> = drop_bit (Suc k) (a XOR b)" by (simp only: drop_bit_xor xor.commute)
    finally show ?thesis .
  qed
  then have "a XOR b = 0" by (rule shift_fixed_zero)
  then have "(a XOR b) XOR b = b" by simp
  then show "a = b" by (simp add: xor.assoc)
qed

lemma times_inj: "m * i = 1 \<Longrightarrow> inj (\<lambda>z. z * m)" for m :: u64
  by (rule inj_on_inverseI [of _ "\<lambda>z. z * i"]) (simp add: mult.assoc)

lemma mix64_inj: "inj mix64"
proof -
  have 1: "inj (\<lambda>z::u64. z * 0xBF58476D1CE4E5B9)"
    by (rule times_inj [of _ 10871156337175269513]) simp
  have 2: "inj (\<lambda>z::u64. z * 0x94D049BB133111EB)"
    by (rule times_inj [of _ 3573116690164977347]) simp
  have x: "inj (\<lambda>z::u64. z XOR drop_bit 30 z)" "inj (\<lambda>z::u64. z XOR drop_bit 27 z)" "inj (\<lambda>z::u64. z XOR drop_bit 31 z)"
    using xorshift_inj [of 29] xorshift_inj [of 26] xorshift_inj [of 30] by simp_all
  have "inj ((\<lambda>z. z XOR drop_bit 31 z) \<circ> (\<lambda>z. z * 0x94D049BB133111EB) \<circ> (\<lambda>z. z XOR drop_bit 27 z) \<circ>
      (\<lambda>z::u64. z * 0xBF58476D1CE4E5B9) \<circ> (\<lambda>z. z XOR drop_bit 30 z))"
    by (intro inj_compose 1 2 x)
  then show ?thesis by (simp add: mix64_def [abs_def] Let_def comp_def)
qed

definition seeded_after :: "u64 \<Rightarrow> nat \<Rightarrow> u64" where
  "seeded_after seed k = ((\<lambda>s. snd (seeded_next s)) ^^ k) seed"

lemma seeded_after_state: "seeded_after seed k = seed + of_nat k * golden_gamma"
  by (induction k) (simp_all add: seeded_after_def seeded_next_def Let_def algebra_simps)

text \<open>C39: every seed gives a full-period stream: the \<open>2^64\<close> words drawn from any seed are all the words
  there are, each once, and the generator is then back where it started.\<close>

theorem seeded_full_period:
  "bij_betw (\<lambda>k. fst (seeded_u64 (seeded_after seed k))) {..< 2 ^ 64} UNIV \<and> seeded_after seed (2 ^ 64) = seed"
proof
  have odd: "golden_gamma * 17428512612931826493 = 1" by (simp add: golden_gamma_def)
  let ?draw = "\<lambda>k. fst (seeded_u64 (seeded_after seed k))"
  have "?draw k = mix64 (seed + of_nat (Suc k) * golden_gamma)" for k
    by (simp add: seeded_u64_def seeded_next_def seeded_after_state Let_def algebra_simps)
  moreover have "inj_on (\<lambda>k. mix64 (seed + of_nat (Suc k) * golden_gamma)) {..< 2 ^ 64}"
  proof (rule inj_onI)
    fix j k :: nat
    assume b: "j \<in> {..< 2 ^ 64}" "k \<in> {..< 2 ^ 64}"
    assume "mix64 (seed + of_nat (Suc j) * golden_gamma) = mix64 (seed + of_nat (Suc k) * golden_gamma)"
    then have "of_nat (Suc j) * golden_gamma = of_nat (Suc k) * golden_gamma"
      using injD [OF mix64_inj] by fastforce
    then have "of_nat j = (of_nat k :: u64)" using injD [OF times_inj [OF odd]] by fastforce
    then have "unat (of_nat j :: u64) = unat (of_nat k :: u64)" by simp
    then show "j = k" using b by (simp add: unsigned_of_nat take_bit_eq_mod)
  qed
  ultimately have inj: "inj_on ?draw {..< 2 ^ 64}" by simp
  have "card (?draw ` {..< 2 ^ 64}) = CARD(u64)" using card_image [OF inj] by (simp add: card_word)
  then have "?draw ` {..< 2 ^ 64} = UNIV" by (simp add: card_eq_UNIV_imp_eq_UNIV)
  with inj show "bij_betw ?draw {..< 2 ^ 64} UNIV" by (simp add: bij_betw_def)
  have "of_nat (2 ^ 64) = (0 :: u64)" by (simp add: word_unat_eq_iff unsigned_of_nat take_bit_eq_mod)
  then show "seeded_after seed (2 ^ 64) = seed" by (simp only: seeded_after_state mult_zero_left add_0_right)
qed

section \<open>Scripted faces come up as named\<close>

definition plain_die :: "nat \<Rightarrow> int \<Rightarrow> die_outcome" where
  "plain_die sides face = \<lparr>d_sides = Numeric sides, d_rolls = [face], d_steps = [], d_kept = True, d_final = face\<rparr>"

text \<open>The face of the \<open>k\<close>-th draw.\<close>

definition named_face :: "u32 list \<Rightarrow> nat \<Rightarrow> nat" where
  "named_face faces k = unat (faces ! (k mod length faces))"

lemma unit_source [simp]: "c\<lparr>c_source := u\<rparr> = c" for c :: "('r, unit) eval_ctx"
  by (cases c) simp

lemma scripted_draw:
  assumes "faces \<noteq> []" and f: "1 \<le> named_face faces k" "named_face faces k \<le> sides"
  shows "1 + int (unat (fst (scripted_u32 ((scripted_faces faces)\<lparr>sd_at := k\<rparr>))) mod max sides 1) = int (named_face faces k)"
proof -
  let ?f = "faces ! (k mod length faces)"
  have "1 \<le> ?f" using f by (simp add: named_face_def word_le_nat_alt)
  then have "max ?f 1 = ?f" by (rule max_absorb1)
  moreover have "unat (?f - 1) = unat ?f - 1" using f by (simp add: named_face_def unat_sub word_le_nat_alt)
  ultimately show ?thesis using f assms(1)
    by (simp add: scripted_u32_def scripted_faces_def Let_def named_face_def del: of_nat_unat)
qed

lemma roll_scripted:
  assumes "faces \<noteq> []" and "\<forall>i \<in> {k ..< k + n}. 1 \<le> named_face faces i \<and> named_face faces i \<le> sides"
    and "c_rng c = (scripted_faces faces)\<lparr>sd_at := k\<rparr>"
  shows "roll_dice (plain_env scripted_u32 b) (Numeric sides) [] n c =
    (Inr (map (\<lambda>i. plain_die sides (int (named_face faces i))) [k ..< k + n]),
     c\<lparr>c_rng := (scripted_faces faces)\<lparr>sd_at := k + n\<rparr>\<rparr>)"
  using assms(2,3)
proof (induction n arbitrary: k c)
  case (Suc n)
  let ?env = "plain_env scripted_u32 b"
  let ?d = "plain_die sides (int (named_face faces k))" and ?c1 = "c\<lparr>c_rng := (scripted_faces faces)\<lparr>sd_at := k + 1\<rparr>\<rparr>"
  have "snd (scripted_u32 ((scripted_faces faces)\<lparr>sd_at := k\<rparr>)) = (scripted_faces faces)\<lparr>sd_at := k + 1\<rparr>"
    by (simp add: scripted_u32_def)
  then have "roll_face ?env (Numeric sides) c = (int (named_face faces k), ?c1)"
    using scripted_draw [OF assms(1), of k sides] Suc.prems by (simp add: roll_face_def case_prod_beta)
  then have "roll_die ?env (Numeric sides) [] c = (Inr ?d, ?c1)"
    by (simp add: roll_die_def roll_once_if_def roll_while_if_def find_condition_def plain_die_def)
  moreover have "[k ..< k + Suc n] = k # [Suc k ..< Suc k + n]" by (simp add: upt_conv_Cons)
  ultimately show ?case using Suc.IH [of "Suc k" ?c1] Suc.prems by (simp add: Let_def)
qed simp

lemma i64_sum_small:
  assumes "\<forall>x \<in> set xs. 0 \<le> x \<and> x \<le> m" and "int (length xs) * m \<le> i64_max"
  shows "i64_sum xs = sum_list xs"
proof -
  have "foldl (\<lambda>a x. wrap_i64 (a + x)) s xs = s + sum_list xs" if "0 \<le> s" "s + int (length xs) * m \<le> i64_max" for s
    using that assms(1)
  proof (induction xs arbitrary: s)
    case (Cons x xs)
    then have "s + x + int (length xs) * m \<le> i64_max" by (simp add: algebra_simps)
    moreover have "0 \<le> int (length xs) * m" using Cons.prems(3) by simp
    ultimately have "s + x \<le> i64_max" by linarith
    then have "is_i64 (s + x)" using Cons.prems by (simp add: is_i64_def int_limits)
    then show ?case using Cons.IH [of "s + x"] Cons.prems \<open>s + x + _ \<le> _\<close> by (simp add: algebra_simps)
  qed simp
  then show ?thesis using assms(2) by (simp add: i64_sum_def)
qed

lemma scripted_resolve:
  assumes "faces \<noteq> []" and "\<forall>i \<in> {k ..< k + n}. 1 \<le> named_face faces i \<and> named_face faces i \<le> sides"
    and "n \<le> max_total_dice" and "1 \<le> sides" and "sides \<le> u32_max"
  shows "resolve scripted_u32 \<lparr>f_source = src, f_ast =
        Dice (DiceTerm (Number (Fin (of_nat n))) (SNumeric (Number (Fin (of_nat sides)))) [])\<rparr> b
        ((scripted_faces faces)\<lparr>sd_at := k\<rparr>) =
    (Inr \<lparr>r_formula = src,
         r_dice = map (\<lambda>i. plain_die sides (int (named_face faces i))) [k ..< k + n],
         r_kind = Total (Fin (of_nat (\<Sum>i \<leftarrow> [k ..< k + n]. named_face faces i)))\<rparr>,
     (scripted_faces faces)\<lparr>sd_at := k + n\<rparr>)"
proof -
  let ?f = "\<lambda>i. int (named_face faces i)"
  let ?ds = "map (\<lambda>i. plain_die sides (?f i)) [k ..< k + n]" and ?env = "plain_env scripted_u32 b"
  let ?c0 = "\<lparr>c_rng = (scripted_faces faces)\<lparr>sd_at := k\<rparr>, c_dice = [], c_total = 0, c_source = ()\<rparr>"
  have n: "n \<le> 1000" "n \<le> u32_max" using assms(3) by (simp_all add: max_total_dice_def u32_max_def)
  have f: "0 \<le> ?f i \<and> ?f i \<le> int sides" if "i \<in> {k ..< k + n}" for i using that assms(2) by simp
  have "int n * int sides \<le> 1000 * int u32_max" using n assms(5) by (intro mult_mono) auto
  then have small: "int n * int sides \<le> 9007199254740992" by (simp add: u32_max_def)
  have sum: "i64_sum (map ?f [k ..< k + n]) = (\<Sum>i \<leftarrow> [k ..< k + n]. ?f i)"
    using f small by (intro i64_sum_small [where m = "int sides"]) (auto simp: int_limits)
  have "(\<Sum>i \<leftarrow> [k ..< k + n]. ?f i) \<le> (\<Sum>i \<leftarrow> [k ..< k + n]. int sides)"
    using f by (intro sum_list_mono) auto
  moreover have total: "(\<Sum>i \<leftarrow> [k ..< k + n]. ?f i) = int (\<Sum>i \<leftarrow> [k ..< k + n]. named_face faces i)"
    by (induction n) simp_all
  moreover have "0 \<le> (\<Sum>i \<leftarrow> [k ..< k + n]. ?f i)" using f by (intro sum_list_nonneg) auto
  ultimately have total: "f64_of_int (\<Sum>i \<leftarrow> [k ..< k + n]. ?f i) = Fin (of_nat (\<Sum>i \<leftarrow> [k ..< k + n]. named_face faces i))"
    using small by (subst f64_of_int_exact) (simp_all add: sum_list_triv total)
  have budget: "take_dice_budget n ?c0 = (Inr (), ?c0\<lparr>c_total := n\<rparr>)"
    using n by (simp add: take_dice_budget_def max_total_dice_def)
  have roll: "roll_dice ?env (Numeric sides) [] n (?c0\<lparr>c_total := n\<rparr>) =
      (Inr ?ds, ?c0\<lparr>c_total := n, c_rng := (scripted_faces faces)\<lparr>sd_at := k + n\<rparr>\<rparr>)"
    using roll_scripted [OF assms(1,2), of "?c0\<lparr>c_total := n\<rparr>" b] by simp
  have kept: "filter d_kept ?ds = ?ds" "d_final \<circ> (\<lambda>i. plain_die sides (?f i)) = ?f"
    by (auto simp: plain_die_def filter_map comp_def)
  have rolled: "roll_term ?env [] n (Numeric sides) ?c0 =
      (Inr \<lparr>ev_value = Fin (of_nat (\<Sum>i \<leftarrow> [k ..< k + n]. named_face faces i)), ev_success = None\<rparr>,
       ?c0\<lparr>c_total := n, c_rng := (scripted_faces faces)\<lparr>sd_at := k + n\<rparr>, c_dice := ?ds\<rparr>)"
    unfolding roll_term_def budget using roll kept sum total
    by (simp add: compute_success_count_def find_condition_def apply_clamp_def apply_keep_drop_def Let_def)
  have "as_u32 (int n) = n" "as_u32 (int sides) = sides" using n assms(5) by (simp_all add: as_u32_id)
  then show ?thesis
    using rolled to_whole_nat [OF n(2)] to_whole_nat [OF assms(5)] assms(4)
    by (simp add: resolve_def resolve_with_def total_value_def)
qed

text \<open>A scripted roll is the roll that was named: dice of any size come up with the faces given, in
  order and then round again, and total what they say, whatever the roll's bindings.\<close>

theorem scripted_faces_come_up:
  assumes "faces \<noteq> []" and "\<forall>i < n. 1 \<le> named_face faces i \<and> named_face faces i \<le> sides"
    and "n \<le> max_total_dice" and "1 \<le> sides" and "sides \<le> u32_max"
  shows "fst (resolve scripted_u32 \<lparr>f_source = src, f_ast =
        Dice (DiceTerm (Number (Fin (of_nat n))) (SNumeric (Number (Fin (of_nat sides)))) [])\<rparr> b (scripted_faces faces)) =
    Inr \<lparr>r_formula = src,
         r_dice = map (\<lambda>i. plain_die sides (int (named_face faces i))) [0 ..< n],
         r_kind = Total (Fin (of_nat (\<Sum>i \<leftarrow> [0 ..< n]. named_face faces i)))\<rparr>"
proof -
  have "(scripted_faces faces)\<lparr>sd_at := 0\<rparr> = scripted_faces faces" by (simp add: scripted_faces_def Let_def)
  then show ?thesis using assms scripted_resolve [of faces 0 n sides src b] by simp
qed

lemma scripted_faces_come_up_witness:
  "fst (resolve scripted_u32 \<lparr>f_source = U ''1d20'', f_ast =
        Dice (DiceTerm (Number (Fin (of_nat 1))) (SNumeric (Number (Fin (of_nat 20)))) [])\<rparr> Map.empty (scripted_faces [14, 6])) =
    Inr \<lparr>r_formula = U ''1d20'', r_dice = [plain_die 20 14], r_kind = Total (Fin 14)\<rparr>"
  using scripted_faces_come_up [of "[14, 6]" 1 20 "U ''1d20''" Map.empty]
  by (simp add: max_total_dice_def u32_max_def named_face_def)

end
