(* ===== verification/Combat_Attack.thy ===== *)
theory Combat_Attack
  imports Combat_Dice Dice_Parser
begin

text \<open>
  What an attack decides (crates/thunderforge-combat/src: records.rs, attack.rs, and the one part of
  wasm.rs that composes them): reading the formulas out of an item's effects, rolling, judging the
  total against a defence, and what damage is offered. The words a fight is recorded in are the
  source's strings.
\<close>

section \<open>The words of a fight\<close>

definition outcome_hit :: ustring where "outcome_hit = U ''hit''"
definition outcome_miss :: ustring where "outcome_miss = U ''miss''"
definition outcome_no_defence :: ustring where "outcome_no_defence = U ''no_defence''"
definition outcome_no_target :: ustring where "outcome_no_target = U ''no_target''"

definition flag_out_of_reach :: ustring where "flag_out_of_reach = U ''out_of_reach''"
definition flag_long_range :: ustring where "flag_long_range = U ''long_range''"
definition flag_beyond_range :: ustring where "flag_beyond_range = U ''beyond_range''"
definition flag_no_line_of_sight :: ustring where "flag_no_line_of_sight = U ''no_line_of_sight''"
definition flag_no_reach_declared :: ustring where "flag_no_reach_declared = U ''no_reach_declared''"
definition flag_overspent :: ustring where "flag_overspent = U ''overspent''"
definition flag_legendary_on_own_turn :: ustring where "flag_legendary_on_own_turn = U ''legendary_on_own_turn''"

lemmas outcome_words = outcome_hit_def outcome_miss_def outcome_no_defence_def outcome_no_target_def

lemmas flag_words = flag_out_of_reach_def flag_long_range_def flag_beyond_range_def flag_no_line_of_sight_def
  flag_no_reach_declared_def flag_overspent_def flag_legendary_on_own_turn_def

section \<open>What an attack costs\<close>

datatype action_cost = CostAction | CostBonusAction | CostReaction | CostLegendary | CostFree

fun cost_as_db_str :: "action_cost \<Rightarrow> ustring" where
  "cost_as_db_str CostAction = U ''action''"
| "cost_as_db_str CostBonusAction = U ''bonus_action''"
| "cost_as_db_str CostReaction = U ''reaction''"
| "cost_as_db_str CostLegendary = U ''legendary''"
| "cost_as_db_str CostFree = U ''free''"

definition cost_from_db_str :: "ustring \<Rightarrow> action_cost" where
  "cost_from_db_str value =
     (if value = U ''bonus_action'' then CostBonusAction
      else if value = U ''reaction'' then CostReaction
      else if value = U ''legendary'' then CostLegendary
      else if value = U ''free'' then CostFree
      else CostAction)"

section \<open>Formulas and rolls\<close>

definition attack_formulas :: "ustring \<Rightarrow> (ustring \<times> ustring) list \<Rightarrow> ustring + ustring \<times> ustring list" where
  "attack_formulas name effects =
     (case find (\<lambda>(kind, formula). kind = U ''attack_roll'' \<and> trim formula \<noteq> []) effects of
        None \<Rightarrow> Inl (name @ U '' has no attack roll to make'')
      | Some (_, formula) \<Rightarrow>
          Inr (trim formula,
            map (\<lambda>(_, formula). trim formula)
              (filter (\<lambda>(kind, formula). kind = U ''damage'' \<and> trim formula \<noteq> []) effects)))"

definition roll_value :: "roll_resolution \<Rightarrow> f64" where
  "roll_value res = (case r_kind res of Total v \<Rightarrow> v | SuccessCount n \<Rightarrow> f64_of_int n)"

text \<open>A roll is refused with a sentence; the evaluator's panic stays one.\<close>

datatype attack_failure = Rejected ustring | RollPanicked

definition roll_formula ::
    "('r \<Rightarrow> u32 \<times> 'r) \<Rightarrow> ustring \<Rightarrow> bindings \<Rightarrow> 'r \<Rightarrow> (attack_failure + roll_resolution \<times> f64) \<times> 'r" where
  "roll_formula draw source b rng =
     (case parse_formula source of
        Inl e \<Rightarrow> (Inl (Rejected (U ''Roll rejected: '' @ show_error e)), rng)
      | Inr formula \<Rightarrow>
          (case resolve draw formula b rng of
             (Inl (Refused e), rng') \<Rightarrow> (Inl (Rejected (U ''Roll rejected: '' @ show_error e)), rng')
           | (Inl Panicked, rng') \<Rightarrow> (Inl RollPanicked, rng')
           | (Inr res, rng') \<Rightarrow> (Inr (res, roll_value res), rng')))"

definition judge :: "bool \<Rightarrow> int option \<Rightarrow> f64 \<Rightarrow> ustring" where
  "judge has_target defence total_rolled =
     (if \<not> has_target then outcome_no_target
      else case defence of
        None \<Rightarrow> outcome_no_defence
      | Some d \<Rightarrow> if fle (f64_of_int d) total_rolled then outcome_hit else outcome_miss)"

text \<open>\<open>join\<close>.\<close>

fun joined :: "ustring \<Rightarrow> ustring list \<Rightarrow> ustring" where
  "joined sep [] = []"
| "joined sep [x] = x"
| "joined sep (x # xs) = x @ sep @ joined sep xs"

definition damage_source :: "ustring list \<Rightarrow> ustring option" where
  "damage_source damage =
     (case damage of
        [] \<Rightarrow> None
      | [only] \<Rightarrow> Some only
      | many \<Rightarrow> Some (joined (U ''+'') (map (\<lambda>f. U ''('' @ f @ U '')'') many)))"

definition offered_amount :: "f64 \<Rightarrow> int" where
  "offered_amount rolled = f_to_i32 (fmin (fmax (fround rolled) (Fin 0)) (f64_of_int i32_max))"

definition auto_apply_holds :: "bool \<Rightarrow> bool \<Rightarrow> ustring list \<Rightarrow> bool \<Rightarrow> bool" where
  "auto_apply_holds effective_setting any_player_controls_target flags needs_line_of_sight \<longleftrightarrow>
     effective_setting \<and> \<not> any_player_controls_target \<and>
     (\<not> needs_line_of_sight \<or> flag_no_line_of_sight \<notin> set flags)"

section \<open>One part of an attack\<close>

record part_in =
  pi_to_hit :: ustring
  pi_damage :: "ustring list"
  pi_bindings :: bindings
  pi_has_target :: bool
  pi_defence :: "int option"

text \<open>The answer's fields, before they are printed as JSON.\<close>

record part_out =
  po_to_hit :: roll_resolution
  po_total :: f64
  po_outcome :: ustring
  po_damage :: "(roll_resolution \<times> int) option"

definition attack_part ::
    "('r \<Rightarrow> u32 \<times> 'r) \<Rightarrow> part_in \<Rightarrow> 'r \<Rightarrow> (attack_failure + part_out) \<times> 'r" where
  "attack_part draw part rng =
     (case roll_formula draw (pi_to_hit part) (pi_bindings part) rng of
        (Inl e, rng1) \<Rightarrow> (Inl e, rng1)
      | (Inr (to_hit, total_rolled), rng1) \<Rightarrow>
          let outcome = judge (pi_has_target part) (pi_defence part) total_rolled;
              result = (\<lambda>damage. \<lparr>po_to_hit = to_hit, po_total = total_rolled, po_outcome = outcome, po_damage = damage\<rparr>) in
          case damage_source (pi_damage part) of
            None \<Rightarrow> (Inr (result None), rng1)
          | Some source \<Rightarrow>
              if outcome = outcome_hit then
                (case roll_formula draw source (pi_bindings part) rng1 of
                   (Inl e, rng2) \<Rightarrow> (Inl e, rng2)
                 | (Inr (resolution, value), rng2) \<Rightarrow> (Inr (result (Some (resolution, offered_amount value))), rng2))
              else (Inr (result None), rng1))"

section \<open>Properties\<close>

text \<open>An attack's cost survives the column it is stored in, and a row written before there was one, or
  with an unknown word, costs an action.\<close>

theorem action_cost_round_trip:
  "cost_from_db_str (cost_as_db_str c) = c \<and>
   (cost_from_db_str s \<noteq> CostAction \<longleftrightarrow> (\<exists>d. d \<noteq> CostAction \<and> s = cost_as_db_str d))"
proof
  show "cost_from_db_str (cost_as_db_str c) = c" by (cases c) (simp_all add: cost_from_db_str_def)
  have "cost_from_db_str s = CostAction \<or> s = cost_as_db_str (cost_from_db_str s)" by (simp add: cost_from_db_str_def)
  moreover have "cost_from_db_str (cost_as_db_str d) = d" for d by (cases d) (simp_all add: cost_from_db_str_def)
  ultimately show "cost_from_db_str s \<noteq> CostAction \<longleftrightarrow> (\<exists>d. d \<noteq> CostAction \<and> s = cost_as_db_str d)" by metis
qed

lemma roll_formula_cases:
  assumes "roll_formula draw source b rng = (Inr (res, v), rng')"
  obtains f where "parse_formula source = Inr f" and "resolve draw f b rng = (Inr res, rng')" and "v = roll_value res"
  using assms by (auto simp: roll_formula_def split: sum.splits prod.splits eval_failure.splits)

lemma roll_formula_draws:
  assumes "roll_formula draw source b rng = (Inr (res, v), rng')"
  shows "rng' = ((\<lambda>r. snd (draw r)) ^^ rolls_in (r_dice res)) rng"
proof -
  obtain f where "resolve draw f b rng = (Inr res, rng')" using assms by (rule roll_formula_cases)
  then show ?thesis using resolve_recorded [of draw f b rng res rng'] by simp
qed

lemma rat_trunc_of_int [simp]: "rat_trunc (of_int n) = n"
  by (simp add: rat_trunc_def)

lemma f_to_i32_of_int: "is_i32 n \<Longrightarrow> f_to_i32 (Fin (of_int n)) = n"
  by (simp add: f_to_i32_def is_i32_def)

lemma i32_max_exact: "f64_of_int i32_max = Fin (of_int i32_max)"
  by (rule f64_of_int_exact) (simp add: int_limits)

lemma fmin_of_int: "fmin (Fin (of_int a)) (Fin (of_int b)) = Fin (of_int (min a b))"
  by (simp add: fmin_def min_def)

lemma offered_amount_eq:
  "offered_amount (Fin r) = max 0 (min i32_max (rat_round r)) \<and> offered_amount NegZero = 0 \<and> offered_amount NaN = 0 \<and>
   offered_amount (Inf s) = (if s then 0 else i32_max) \<and> 0 \<le> offered_amount v \<and> offered_amount v \<le> i32_max"
proof -
  have fin: "offered_amount (Fin r) = max 0 (min i32_max (rat_round r))" for r
  proof (cases "r < 0 \<and> rat_round r = 0")
    case True
    then show ?thesis unfolding offered_amount_def i32_max_exact
      by (simp add: fround_def fmax_def fmin_def f_to_i32_def int_limits signed_zero_def)
  next
    case False
    let ?n = "rat_round r"
    from False have up: "fmax (fround (Fin r)) (Fin 0) = Fin (of_int (max 0 ?n))"
      by (auto simp: fround_def fmax_def signed_zero_def)
    have "fmin (Fin (of_int (max 0 ?n))) (f64_of_int i32_max) = Fin (of_int (max 0 (min i32_max ?n)))"
      unfolding i32_max_exact fmin_of_int by (simp add: int_limits min_def max_def)
    then show ?thesis
      unfolding offered_amount_def up by (simp add: f_to_i32_of_int is_i32_def int_limits)
  qed
  have others: "offered_amount NegZero = 0" "offered_amount NaN = 0" "offered_amount (Inf True) = 0" "offered_amount (Inf False) = i32_max"
    unfolding offered_amount_def i32_max_exact
    by (simp_all add: fround_def fmax_def fmin_def f_to_i32_def int_limits rat_trunc_def)
  have "0 \<le> offered_amount v \<and> offered_amount v \<le> i32_max"
  proof (cases v)
    case (Inf b) then show ?thesis using others by (cases b) (simp_all add: int_limits)
  qed (use others fin in \<open>simp_all add: int_limits\<close>)
  then show ?thesis using fin others by simp
qed

text \<open>What a damage roll offers is the roll rounded half away from zero, held between nothing and the
  largest \<open>i32\<close>; NaN and every negative roll offer nothing.\<close>

theorem offered_amount_bounds:
  "offered_amount (Fin r) = max 0 (min i32_max (rat_round r)) \<and> offered_amount NegZero = 0 \<and> offered_amount NaN = 0 \<and>
   offered_amount (Inf s) = (if s then 0 else i32_max) \<and> 0 \<le> offered_amount v \<and> offered_amount v \<le> i32_max"
  by (rule offered_amount_eq)

text \<open>C12: the order the dice are drawn in is the rule's: first the to-hit roll; damage is rolled on a hit
  and only then, there being something to roll, with a total that reaches the target's defence, and
  the generator is asked for exactly the dice the two rolls record; a miss draws nothing more.\<close>

theorem attack_draws_in_order:
  assumes "attack_part draw part rng = (Inr out, rng')"
  shows "\<exists>rng1. roll_formula draw (pi_to_hit part) (pi_bindings part) rng = (Inr (po_to_hit out, po_total out), rng1) \<and>
    po_outcome out = judge (pi_has_target part) (pi_defence part) (po_total out) \<and>
    (case po_damage out of
       None \<Rightarrow> (po_outcome out \<noteq> outcome_hit \<or> pi_damage part = []) \<and>
         rng' = ((\<lambda>r. snd (draw r)) ^^ rolls_in (r_dice (po_to_hit out))) rng
     | Some (dmg, amount) \<Rightarrow>
         (\<exists>d. pi_has_target part \<and> pi_defence part = Some d \<and> fle (f64_of_int d) (po_total out)) \<and>
         0 \<le> amount \<and> amount \<le> i32_max \<and>
         rng' = ((\<lambda>r. snd (draw r)) ^^ (rolls_in (r_dice (po_to_hit out)) + rolls_in (r_dice dmg))) rng)"
proof -
  obtain res v rng1 where first: "roll_formula draw (pi_to_hit part) (pi_bindings part) rng = (Inr (res, v), rng1)"
    using assms by (auto simp: attack_part_def split: sum.splits prod.splits)
  have drew: "rng1 = ((\<lambda>r. snd (draw r)) ^^ rolls_in (r_dice res)) rng" by (rule roll_formula_draws [OF first])
  let ?outcome = "judge (pi_has_target part) (pi_defence part) v"
  have hit: "?outcome = outcome_hit \<longleftrightarrow> (\<exists>d. pi_has_target part \<and> pi_defence part = Some d \<and> fle (f64_of_int d) v)"
    by (auto simp: judge_def outcome_words split: option.split)
  have empty: "damage_source ds = None \<longleftrightarrow> ds = []" for ds by (auto simp: damage_source_def split: list.split)
  show ?thesis
  proof (cases "?outcome = outcome_hit \<and> pi_damage part \<noteq> []")
    case True
    then obtain src where src: "damage_source (pi_damage part) = Some src" using empty by fastforce
    obtain dmg w where second: "roll_formula draw src (pi_bindings part) rng1 = (Inr (dmg, w), rng')"
      and out: "out = \<lparr>po_to_hit = res, po_total = v, po_outcome = ?outcome, po_damage = Some (dmg, offered_amount w)\<rparr>"
      using assms True by (auto simp: attack_part_def first src Let_def split: sum.splits prod.splits)
    have "rng' = ((\<lambda>r. snd (draw r)) ^^ rolls_in (r_dice dmg)) rng1" by (rule roll_formula_draws [OF second])
    then show ?thesis using first drew True hit out offered_amount_eq [of 0 False w]
      by (auto simp: funpow_add add.commute)
  next
    case False
    then consider "?outcome \<noteq> outcome_hit" | "pi_damage part = []" by blast
    then have "out = \<lparr>po_to_hit = res, po_total = v, po_outcome = ?outcome, po_damage = None\<rparr> \<and> rng' = rng1"
    proof cases
      case 1
      then show ?thesis using assms by (simp add: attack_part_def first Let_def split: option.splits)
    next
      case 2
      then show ?thesis using assms by (simp add: attack_part_def first damage_source_def)
    qed
    then show ?thesis using first drew False by (intro exI [of _ rng1]) auto
  qed
qed

definition sword :: part_in where
  "sword = \<lparr>pi_to_hit = U ''1d20'', pi_damage = [U ''1d8''], pi_bindings = Map.empty, pi_has_target = True, pi_defence = Some 12\<rparr>"

lemma parse_die: "parse_formula (U ''1d20'') = Inr \<lparr>f_source = U ''1d20'', f_ast =
    Dice (DiceTerm (Number (Fin (of_nat 1))) (SNumeric (Number (Fin (of_nat 20)))) [])\<rparr>"
  "parse_formula (U ''1d8'') = Inr \<lparr>f_source = U ''1d8'', f_ast =
    Dice (DiceTerm (Number (Fin (of_nat 1))) (SNumeric (Number (Fin (of_nat 8)))) [])\<rparr>"
  by (simp_all add: parse_formula_def parse_eval)

lemma sword_hits:
  "attack_part scripted_u32 sword (scripted_faces [14, 6]) =
    (Inr \<lparr>po_to_hit = \<lparr>r_formula = U ''1d20'', r_dice = [plain_die 20 14], r_kind = Total (Fin 14)\<rparr>, po_total = Fin 14,
      po_outcome = outcome_hit,
      po_damage = Some (\<lparr>r_formula = U ''1d8'', r_dice = [plain_die 8 6], r_kind = Total (Fin 6)\<rparr>, 6)\<rparr>,
     (scripted_faces [14, 6])\<lparr>sd_at := 2\<rparr>)"
proof -
  have at: "(scripted_faces [14, 6])\<lparr>sd_at := 0\<rparr> = scripted_faces [14, 6]" by (simp add: scripted_faces_def Let_def)
  have face: "named_face [14, 6] (Suc 0) = 6" by (simp add: named_face_def)
  have one: "resolve scripted_u32 \<lparr>f_source = U ''1d20'', f_ast =
        Dice (DiceTerm (Number (Fin (of_nat 1))) (SNumeric (Number (Fin (of_nat 20)))) [])\<rparr> Map.empty (scripted_faces [14, 6]) =
      (Inr \<lparr>r_formula = U ''1d20'', r_dice = [plain_die 20 14], r_kind = Total (Fin 14)\<rparr>, (scripted_faces [14, 6])\<lparr>sd_at := 1\<rparr>)"
    using scripted_resolve [of "[14, 6]" 0 1 20 "U ''1d20''" Map.empty]
    by (simp add: max_total_dice_def u32_max_def named_face_def at)
  have two: "resolve scripted_u32 \<lparr>f_source = U ''1d8'', f_ast =
        Dice (DiceTerm (Number (Fin (of_nat 1))) (SNumeric (Number (Fin (of_nat 8)))) [])\<rparr> Map.empty ((scripted_faces [14, 6])\<lparr>sd_at := 1\<rparr>) =
      (Inr \<lparr>r_formula = U ''1d8'', r_dice = [plain_die 8 6], r_kind = Total (Fin 6)\<rparr>, (scripted_faces [14, 6])\<lparr>sd_at := 2\<rparr>)"
    using scripted_resolve [of "[14, 6]" 1 1 8 "U ''1d8''" Map.empty]
    by (simp add: max_total_dice_def u32_max_def face)
  have first: "roll_formula scripted_u32 (U ''1d20'') Map.empty (scripted_faces [14, 6]) =
      (Inr (\<lparr>r_formula = U ''1d20'', r_dice = [plain_die 20 14], r_kind = Total (Fin 14)\<rparr>, Fin 14), (scripted_faces [14, 6])\<lparr>sd_at := 1\<rparr>)"
    unfolding roll_formula_def parse_die sum.case one prod.case by (simp add: roll_value_def)
  have second: "roll_formula scripted_u32 (U ''1d8'') Map.empty ((scripted_faces [14, 6])\<lparr>sd_at := 1\<rparr>) =
      (Inr (\<lparr>r_formula = U ''1d8'', r_dice = [plain_die 8 6], r_kind = Total (Fin 6)\<rparr>, Fin 6), (scripted_faces [14, 6])\<lparr>sd_at := 2\<rparr>)"
    unfolding roll_formula_def parse_die sum.case two prod.case by (simp add: roll_value_def)
  have hit: "judge True (Some 12) (Fin 14) = outcome_hit"
    by (simp add: judge_def f64_of_int_exact fle_def)
  have six: "offered_amount (Fin 6) = 6"
  proof -
    have "rat_round 6 = 6" by (simp add: rat_round_def floor_eq_iff)
    then show ?thesis using offered_amount_eq [of 6] by (simp add: int_limits)
  qed
  show ?thesis
    by (simp add: attack_part_def sword_def first second [unfolded One_nat_def] hit six damage_source_def del: U_simps)
qed

lemma attack_draws_in_order_witness:
  "\<exists>rng1. roll_formula scripted_u32 (pi_to_hit sword) (pi_bindings sword) (scripted_faces [14, 6]) =
    (Inr (\<lparr>r_formula = U ''1d20'', r_dice = [plain_die 20 14], r_kind = Total (Fin 14)\<rparr>, Fin 14), rng1)"
  using attack_draws_in_order [OF sword_hits] by auto

end
