(* ===== verification/Combat_Budget.thy ===== *)
theory Combat_Budget
  imports Ieee Combat_Attack
begin

text \<open>
  What a turn affords and what it has spent, and how far an attack reaches
  (crates/thunderforge-combat/src: budget.rs up to the flags, reach.rs except the scene it measures,
  and the declarations they read from manifest.rs). Counts are \<open>i32\<close>, distances \<open>f64\<close>.
\<close>

section \<open>Declared and spent\<close>

record turn_declared =
  td_action :: "nat option"        \<comment> \<open>\<open>u32\<close>\<close>
  td_bonus_action :: "nat option"
  td_reaction :: "nat option"
  td_movement :: "ustring option"  \<comment> \<open>the key of the pack's movement block\<close>

record spent =
  sp_action :: int                 \<comment> \<open>\<open>i32\<close>\<close>
  sp_bonus_action :: int
  sp_reaction :: int
  sp_movement :: f64
  sp_per_round :: "int option"
  sp_remaining :: "int option"

datatype spend = SpendAction | SpendBonusAction | SpendReaction | SpendMovement f64 | SpendLegendary int

definition take_spend :: "spend \<Rightarrow> spent \<Rightarrow> spent" where
  "take_spend what s =
     (case what of
        SpendAction \<Rightarrow> s\<lparr>sp_action := wrap_i32 (sp_action s + 1)\<rparr>
      | SpendBonusAction \<Rightarrow> s\<lparr>sp_bonus_action := wrap_i32 (sp_bonus_action s + 1)\<rparr>
      | SpendReaction \<Rightarrow> s\<lparr>sp_reaction := wrap_i32 (sp_reaction s + 1)\<rparr>
      | SpendMovement distance \<Rightarrow> s\<lparr>sp_movement := fadd binary64 (sp_movement s) (fmax distance (Fin 0))\<rparr>
      | SpendLegendary cost \<Rightarrow> s\<lparr>sp_remaining := map_option (\<lambda>r. wrap_i32 (r - cost)) (sp_remaining s)\<rparr>)"

definition start_turn :: "spent \<Rightarrow> spent" where
  "start_turn s = s\<lparr>sp_action := 0, sp_bonus_action := 0, sp_reaction := 0, sp_movement := Fin 0,
     sp_remaining := sp_per_round s\<rparr>"

section \<open>The budget\<close>

record budget_line =
  bl_allowed :: f64
  bl_spent :: f64
  bl_remaining :: f64

definition tidy :: "f64 \<Rightarrow> f64" where
  "tidy v = fdiv binary64 (fround (fmul binary64 v (Fin 100))) (Fin 100)"

definition budget_line_new :: "f64 \<Rightarrow> f64 \<Rightarrow> budget_line" where
  "budget_line_new allowed spent_so_far =
     \<lparr>bl_allowed = tidy allowed, bl_spent = tidy spent_so_far, bl_remaining = tidy (fsub binary64 allowed spent_so_far)\<rparr>"

definition is_overspent :: "budget_line \<Rightarrow> bool" where
  "is_overspent line = flt (bl_allowed line) (bl_spent line)"

record turn_budget =
  tb_action :: budget_line
  tb_bonus_action :: budget_line
  tb_reaction :: budget_line
  tb_movement :: budget_line
  tb_legendary :: "budget_line option"
  tb_unit :: ustring

definition whole_allowance :: "nat option \<Rightarrow> f64" where
  "whole_allowance n = f64_of_int (int (case n of Some k \<Rightarrow> k | None \<Rightarrow> 0))"

definition resolve_budget :: "turn_declared \<Rightarrow> f64 \<Rightarrow> spent \<Rightarrow> ustring \<Rightarrow> turn_budget" where
  "resolve_budget declared speed s u =
     \<lparr>tb_action = budget_line_new (whole_allowance (td_action declared)) (f64_of_int (sp_action s)),
      tb_bonus_action = budget_line_new (whole_allowance (td_bonus_action declared)) (f64_of_int (sp_bonus_action s)),
      tb_reaction = budget_line_new (whole_allowance (td_reaction declared)) (f64_of_int (sp_reaction s)),
      tb_movement = budget_line_new (if td_movement declared \<noteq> None then speed else Fin 0) (sp_movement s),
      tb_legendary =
        (case (sp_per_round s, sp_remaining s) of
           (Some per_round, Some remaining) \<Rightarrow>
             Some (budget_line_new (f64_of_int per_round) (f64_of_int (wrap_i32 (per_round - remaining))))
         | _ \<Rightarrow> None),
      tb_unit = u\<rparr>"

section \<open>Spending\<close>

definition spend_for_attack :: "action_cost \<Rightarrow> int \<Rightarrow> spend option" where
  "spend_for_attack cost legendary_cost =
     (case cost of
        CostAction \<Rightarrow> Some SpendAction
      | CostBonusAction \<Rightarrow> Some SpendBonusAction
      | CostReaction \<Rightarrow> Some SpendReaction
      | CostLegendary \<Rightarrow> Some (SpendLegendary (max legendary_cost 0))
      | CostFree \<Rightarrow> None)"

fun is_legendary :: "spend \<Rightarrow> bool" where
  "is_legendary (SpendLegendary _) = True"
| "is_legendary _ = False"

definition line_of :: "turn_budget \<Rightarrow> spend \<Rightarrow> budget_line option" where
  "line_of budget what =
     (case what of
        SpendAction \<Rightarrow> Some (tb_action budget)
      | SpendBonusAction \<Rightarrow> Some (tb_bonus_action budget)
      | SpendReaction \<Rightarrow> Some (tb_reaction budget)
      | SpendMovement _ \<Rightarrow> Some (tb_movement budget)
      | SpendLegendary _ \<Rightarrow> tb_legendary budget)"

definition flags_after_spend :: "turn_budget \<Rightarrow> spend \<Rightarrow> bool \<Rightarrow> ustring list" where
  "flags_after_spend budget what own_turn =
     (if (case line_of budget what of None \<Rightarrow> True | Some line \<Rightarrow> is_overspent line) then [flag_overspent] else []) @
     (if is_legendary what \<and> own_turn then [flag_legendary_on_own_turn] else [])"

definition flags_before_spend :: "turn_budget \<Rightarrow> spend \<Rightarrow> bool \<Rightarrow> ustring list" where
  "flags_before_spend budget what own_turn =
     (let needed = (case what of SpendLegendary cost \<Rightarrow> f64_of_int cost | _ \<Rightarrow> Fin 1) in
      (if (case line_of budget what of None \<Rightarrow> True | Some line \<Rightarrow> flt (bl_remaining line) needed)
       then [flag_overspent] else []) @
      (if is_legendary what \<and> own_turn then [flag_legendary_on_own_turn] else []))"

section \<open>Reach\<close>

record reach =
  re_reach :: "f64 option"
  re_range_normal :: "f64 option"
  re_range_long :: "f64 option"
  re_needs_sight :: bool

text \<open>The literal \<open>1e-6\<close>.\<close>

definition slack :: f64 where "slack = rnd binary64 (1 / 1000000)"

definition within_limit :: "f64 \<Rightarrow> f64 \<Rightarrow> bool" where
  "within_limit distance limit = fle distance (fadd binary64 limit slack)"

definition flags_for :: "f64 \<Rightarrow> reach \<Rightarrow> bool \<Rightarrow> ustring list" where
  "flags_for distance r line_of_sight =
     (case (re_reach r, re_range_normal r, re_range_long r) of
        (None, None, None) \<Rightarrow> [flag_no_reach_declared]
      | (melee, normal, long) \<Rightarrow>
          if (case melee of Some m \<Rightarrow> within_limit distance m | None \<Rightarrow> False) then []
          else if normal = None \<and> long = None then [flag_out_of_reach]
          else
            let near = (case normal of Some n \<Rightarrow> n | None \<Rightarrow> (case long of Some l \<Rightarrow> l | None \<Rightarrow> Fin 0));
                far = fmax (case long of Some l \<Rightarrow> l | None \<Rightarrow> near) near in
            if \<not> within_limit distance far then [flag_beyond_range]
            else if \<not> within_limit distance near then [flag_long_range]
            else []) @
     (if re_needs_sight r \<and> \<not> line_of_sight then [flag_no_line_of_sight] else [])"

definition is_melee :: "f64 option \<Rightarrow> reach \<Rightarrow> bool" where
  "is_melee distance r =
     (case (distance, re_reach r) of
        (Some d, Some m) \<Rightarrow> within_limit d m
      | _ \<Rightarrow> False)"

section \<open>Tidy numbers\<close>

lemma tidy_of_int:
  assumes "\<bar>n\<bar> \<le> 90071992547409"
  shows "tidy (Fin (of_int n)) = Fin (of_int n)"
proof (cases "n = 0")
  case True
  then show ?thesis by (simp add: tidy_def fmul_def fdiv_def fround_def rat_round_def signed_zero_def floor_eq_iff)
next
  case False
  have "rnd binary64 (of_int (n * 100)) = Fin (of_int (n * 100))"
    by (rule rnd64_of_int) (use assms in \<open>simp add: abs_mult\<close>)
  then have m: "fmul binary64 (Fin (of_int n)) (Fin 100) = Fin (of_int (n * 100))"
    using False by (simp add: fmul_def)
  have r: "rat_round (of_int (n * 100)) = n * 100"
    unfolding rat_round_def by (auto simp: floor_eq_iff ceiling_eq_iff simp del: of_int_mult)
  have "fround (Fin (of_int (n * 100))) = Fin (of_int (n * 100))"
    unfolding fround_def to_integral.simps r using False by simp
  moreover have "fdiv binary64 (Fin (of_int (n * 100))) (Fin 100) = rnd binary64 (of_int n)"
    using False by (simp add: fdiv_def Let_def)
  moreover have "rnd binary64 (of_int n) = Fin (of_int n)"
    by (rule rnd64_of_int) (use assms in simp)
  ultimately show ?thesis using m by (simp add: tidy_def)
qed

lemma fsub_of_int:
  assumes "\<bar>a\<bar> \<le> 4294967296" and "\<bar>b\<bar> \<le> 4294967296"
  shows "fsub binary64 (Fin (of_int a)) (Fin (of_int b)) = Fin (of_int (a - b))"
proof -
  have "rnd binary64 (of_int (a - b)) = Fin (of_int (a - b))" by (rule rnd64_of_int) (use assms in linarith)
  then show ?thesis using assms by (auto simp: fsub_def fadd_def)
qed

text \<open>A line of whole numbers: what is left is a difference, overspending a comparison.\<close>

lemma line_of_ints:
  assumes "\<bar>a\<bar> \<le> 4294967296" and "\<bar>b\<bar> \<le> 4294967296"
  shows "budget_line_new (f64_of_int a) (f64_of_int b) =
    \<lparr>bl_allowed = Fin (of_int a), bl_spent = Fin (of_int b), bl_remaining = Fin (of_int (a - b))\<rparr>"
proof -
  have "tidy (Fin (of_int (a - b))) = Fin (of_int (a - b))" by (rule tidy_of_int) (use assms in linarith)
  then show ?thesis using assms by (simp add: budget_line_new_def f64_of_int_exact fsub_of_int tidy_of_int)
qed

lemma overspent_iff:
  assumes "\<bar>a\<bar> \<le> 4294967296" and "\<bar>b\<bar> \<le> 4294967296"
  shows "is_overspent (budget_line_new (f64_of_int a) (f64_of_int b)) \<longleftrightarrow> a < b"
  by (simp add: line_of_ints [OF assms] is_overspent_def)

lemma too_little_left_iff:
  assumes "\<bar>a\<bar> \<le> 4294967296" and "\<bar>b\<bar> \<le> 4294967296" and "\<bar>c\<bar> \<le> 4294967296"
  shows "flt (bl_remaining (budget_line_new (f64_of_int a) (f64_of_int b))) (f64_of_int c) \<longleftrightarrow> a < b + c"
proof -
  have "f64_of_int c = Fin (of_int c)" by (rule f64_of_int_exact) (use assms in linarith)
  then show ?thesis by (simp add: line_of_ints [OF assms(1,2)]) linarith
qed

text \<open>Counts that are \<open>i32\<close> with room for one more, and a legendary pool whose arithmetic stays in
  \<open>i32\<close> after a cost.\<close>

definition counts_ok :: "spent \<Rightarrow> bool" where
  "counts_ok s \<longleftrightarrow> (\<forall>n \<in> {sp_action s, sp_bonus_action s, sp_reaction s}. is_i32 n \<and> n < i32_max)"

definition pool_ok :: "spent \<Rightarrow> int \<Rightarrow> bool" where
  "pool_ok s cost \<longleftrightarrow> (case (sp_per_round s, sp_remaining s) of
     (Some p, Some r) \<Rightarrow> is_i32 p \<and> is_i32 (p - r) \<and> is_i32 (r - cost) \<and> is_i32 (p - (r - cost))
   | _ \<Rightarrow> True)"

definition allowance_ok :: "turn_declared \<Rightarrow> bool" where
  "allowance_ok d \<longleftrightarrow> (\<forall>n. n \<in> set_option (td_action d) \<union> set_option (td_bonus_action d) \<union> set_option (td_reaction d) \<longrightarrow> n \<le> u32_max)"

lemma i32_abs: "is_i32 n \<Longrightarrow> \<bar>n\<bar> \<le> 4294967296"
  by (auto simp: is_i32_def int_limits)

lemma count_line_agrees:
  assumes "is_i32 n" and "n < i32_max" and "\<forall>k \<in> set_option a. k \<le> u32_max"
  shows "flt (bl_remaining (budget_line_new (whole_allowance a) (f64_of_int n))) (Fin 1) \<longleftrightarrow>
    is_overspent (budget_line_new (whole_allowance a) (f64_of_int (wrap_i32 (n + 1))))"
proof -
  have n: "\<bar>n\<bar> \<le> 4294967296" "is_i32 (n + 1)" "\<bar>n + 1\<bar> \<le> 4294967296"
    using assms(1,2) by (auto simp: is_i32_def int_limits)
  define m where "m = int (case a of Some k \<Rightarrow> k | None \<Rightarrow> 0)"
  have m: "\<bar>m\<bar> \<le> 4294967296" using assms(3) by (auto simp: m_def u32_max_def split: option.split)
  have one: "f64_of_int 1 = Fin 1" by (simp add: f64_of_int_exact)
  show ?thesis
    using too_little_left_iff [OF m n(1), of 1] overspent_iff [OF m n(3)] n(2)
    unfolding whole_allowance_def m_def [symmetric] by (simp add: one)
qed

text \<open>C35: the warning shown before an attack is the flag it is recorded with: for every cost an attack
  can have, the flags foreseen on the budget before the spend are those judged on the budget after
  it, whatever else has been spent and whosever turn it is.\<close>

theorem warning_foretells_flags:
  assumes "spend_for_attack cost c = Some what" and "counts_ok s" and "allowance_ok declared"
    and "pool_ok s (max c 0)" and "is_i32 c"
  shows "flags_before_spend (resolve_budget declared speed s u) what own_turn =
    flags_after_spend (resolve_budget declared speed (take_spend what s) u) what own_turn"
proof -
  have count: "\<forall>n \<in> {sp_action s, sp_bonus_action s, sp_reaction s}. is_i32 n \<and> n < i32_max"
    using assms(2) by (simp add: counts_ok_def)
  have pool: "flt (bl_remaining (budget_line_new (f64_of_int p) (f64_of_int (wrap_i32 (p - r))))) (f64_of_int (max c 0)) \<longleftrightarrow>
      is_overspent (budget_line_new (f64_of_int p) (f64_of_int (wrap_i32 (p - wrap_i32 (r - max c 0)))))"
    if "sp_per_round s = Some p" "sp_remaining s = Some r" for p r
  proof -
    have i: "is_i32 p" "is_i32 (p - r)" "is_i32 (r - max c 0)" "is_i32 (p - (r - max c 0))"
      using assms(4) that by (simp_all add: pool_ok_def)
    have c: "is_i32 (max c 0)" using assms(5) by (auto simp: is_i32_def int_limits)
    show ?thesis
      using too_little_left_iff [OF i(1,2) [THEN i32_abs] i32_abs [OF c]] overspent_iff [OF i(1,4) [THEN i32_abs]] i
      by simp
  qed
  have counts: "\<forall>k \<in> set_option (td_action declared). k \<le> u32_max"
    "\<forall>k \<in> set_option (td_bonus_action declared). k \<le> u32_max"
    "\<forall>k \<in> set_option (td_reaction declared). k \<le> u32_max"
    using assms(3) by (simp_all add: allowance_ok_def)
  note lines = count_line_agrees [OF _ _ counts(1), of "sp_action s"] count_line_agrees [OF _ _ counts(2), of "sp_bonus_action s"]
    count_line_agrees [OF _ _ counts(3), of "sp_reaction s"]
  note defs = flags_before_spend_def flags_after_spend_def line_of_def resolve_budget_def take_spend_def
  show ?thesis
  proof (cases cost)
    case CostLegendary
    then have what: "what = SpendLegendary (max c 0)" using assms(1) by (simp add: spend_for_attack_def)
    show ?thesis
    proof (cases "sp_per_round s = None \<or> sp_remaining s = None")
      case True
      then show ?thesis unfolding what defs by (cases "sp_per_round s"; cases "sp_remaining s") simp_all
    next
      case False
      then obtain p r where "sp_per_round s = Some p" "sp_remaining s = Some r" by auto
      then show ?thesis unfolding what defs using pool by simp
    qed
  qed (use assms(1) lines count in \<open>auto simp: spend_for_attack_def defs\<close>)
qed

definition turn_5e :: turn_declared where
  "turn_5e = \<lparr>td_action = Some 1, td_bonus_action = Some 1, td_reaction = Some 1, td_movement = Some (U ''walk'')\<rparr>"

definition half_spent :: spent where
  "half_spent = \<lparr>sp_action = 1, sp_bonus_action = 0, sp_reaction = 0, sp_movement = Fin 10, sp_per_round = Some 3, sp_remaining = Some 1\<rparr>"

lemma warning_foretells_flags_witness:
  "flags_before_spend (resolve_budget turn_5e (Fin 30) half_spent (U ''ft'')) (SpendLegendary 2) True =
   flags_after_spend (resolve_budget turn_5e (Fin 30) (take_spend (SpendLegendary 2) half_spent) (U ''ft'')) (SpendLegendary 2) True"
  by (rule warning_foretells_flags [of CostLegendary 2])
    (simp_all add: spend_for_attack_def counts_ok_def allowance_ok_def pool_ok_def half_spent_def turn_5e_def is_i32_def int_limits)

section \<open>Farther is never better\<close>

lemma fle_Fin [simp]: "fle (Fin a) (Fin b) \<longleftrightarrow> a \<le> b"
  by (auto simp: fle_def)

lemma fle_trans: "fle x y \<Longrightarrow> fle y z \<Longrightarrow> fle x z"
  by (cases x; cases y; cases z) (auto simp: fle_def)

definition range_rank :: "ustring list \<Rightarrow> nat" where
  "range_rank flags =
     (if flag_beyond_range \<in> set flags \<or> flag_out_of_reach \<in> set flags then 2
      else if flag_long_range \<in> set flags then 1 else 0)"

lemma flags_distinct [simp]:
  "distinct [flag_out_of_reach, flag_long_range, flag_beyond_range, flag_no_line_of_sight, flag_no_reach_declared]"
  by (simp add: flag_words)

text \<open>Distance never helps: the farther an attack, the worse its range flag, none, then long range,
  then beyond range or out of reach; and an attack that counts as a melee one has no range flag.\<close>

theorem farther_is_never_better:
  assumes "fle near far"
  shows "range_rank (flags_for near r sight) \<le> range_rank (flags_for far r sight) \<and>
    (is_melee (Some near) r \<longrightarrow> set (flags_for near r sight) \<subseteq> {flag_no_line_of_sight})"
proof -
  have closer: "within_limit near l" if "within_limit far l" for l
    using assms that fle_trans unfolding within_limit_def by blast
  have d: "flag_out_of_reach \<noteq> flag_no_line_of_sight" "flag_long_range \<noteq> flag_no_line_of_sight" "flag_beyond_range \<noteq> flag_no_line_of_sight"
    "flag_out_of_reach \<noteq> flag_no_reach_declared" "flag_long_range \<noteq> flag_no_reach_declared" "flag_beyond_range \<noteq> flag_no_reach_declared"
    "flag_long_range \<noteq> flag_out_of_reach" "flag_beyond_range \<noteq> flag_out_of_reach" "flag_beyond_range \<noteq> flag_long_range"
    using flags_distinct by auto
  show ?thesis
    using closer d d [symmetric]
    by (cases "re_reach r"; cases "re_range_normal r"; cases "re_range_long r")
      (auto simp: range_rank_def flags_for_def is_melee_def Let_def)
qed

lemma farther_is_never_better_witness:
  "range_rank (flags_for (Fin 5) \<lparr>re_reach = Some (Fin 5), re_range_normal = Some (Fin 20), re_range_long = Some (Fin 60), re_needs_sight = True\<rparr> True)
   \<le> range_rank (flags_for (Fin 70) \<lparr>re_reach = Some (Fin 5), re_range_normal = Some (Fin 20), re_range_long = Some (Fin 60), re_needs_sight = True\<rparr> True)"
  using farther_is_never_better [of "Fin 5" "Fin 70"] by simp

end
