(* ===== verification/Combat_Hp.thy ===== *)
theory Combat_Hp
  imports TF_Prelude
begin

text \<open>
  Damage, healing and being in the fight (crates/thunderforge-combat/src: hit_points.rs, and the
  declarations it reads from manifest.rs). Amounts are \<open>i32\<close> with the wrap-around of a release
  build written out. A slot is a JSON value of another crate: the calls the code makes on one are
  parameters, and the laws a lemma needs of them are its hypotheses.
\<close>

section \<open>Hit points\<close>

record hp_declared =
  shp_slot :: ustring
  shp_current :: ustring
  shp_max :: ustring
  shp_temporary :: "ustring option"

datatype hp_change = Damage | Healing

record hit_points =
  hp_current :: int  \<comment> \<open>\<open>i32\<close>\<close>
  hp_max :: int
  hp_temporary :: int

definition downed_by_hit_points :: ustring where "downed_by_hit_points = U ''hit_points''"
definition downed_by_game_master :: ustring where "downed_by_game_master = U ''game_master''"

definition apply_to :: "hit_points \<Rightarrow> hp_change \<Rightarrow> int \<Rightarrow> hit_points" where
  "apply_to before kind amount0 =
     (let amount = max amount0 0 in
      case kind of
        Damage \<Rightarrow>
          let temporary = max (hp_temporary before) 0;
              absorbed = min temporary amount;
              rest = wrap_i32 (amount - absorbed) in
          \<lparr>hp_current = max (wrap_i32 (hp_current before - rest)) 0, hp_max = hp_max before,
           hp_temporary = wrap_i32 (temporary - absorbed)\<rparr>
      | Healing \<Rightarrow>
          \<lparr>hp_current =
             (if hp_max before \<le> hp_current before then hp_current before
              else min (sat_i32 (hp_current before + amount)) (hp_max before)),
           hp_max = hp_max before, hp_temporary = hp_temporary before\<rparr>)"

text \<open>The new \<open>(active, downed_by)\<close>, when anything changes.\<close>

definition standing_after :: "int \<Rightarrow> bool \<Rightarrow> ustring option \<Rightarrow> (bool \<times> ustring option) option" where
  "standing_after current active downed_by =
     (if current \<le> 0 then (if active then Some (False, Some downed_by_hit_points) else None)
      else if downed_by = Some downed_by_hit_points then Some (True, None) else None)"

section \<open>Hit points in a slot\<close>

text \<open>The calls on a JSON value: \<open>get\<close>, \<open>as_i64\<close>, the map of an object (\<open>as_object\<close>, cloned, empty for
  any other value), \<open>insert\<close> and \<open>contains_key\<close> of a map, and a map and an integer as values.\<close>

record ('v, 'm) json_api =
  js_get :: "'v \<Rightarrow> ustring \<Rightarrow> 'v option"
  js_as_i64 :: "'v \<Rightarrow> int option"
  js_map_of :: "'v \<Rightarrow> 'm"
  js_insert :: "'m \<Rightarrow> ustring \<Rightarrow> 'v \<Rightarrow> 'm"
  js_contains :: "'m \<Rightarrow> ustring \<Rightarrow> bool"
  js_object :: "'m \<Rightarrow> 'v"
  js_int :: "int \<Rightarrow> 'v"

definition read_int :: "('v, 'm) json_api \<Rightarrow> 'v \<Rightarrow> ustring \<Rightarrow> int option" where
  "read_int js slot field =
     map_option (\<lambda>v. max i32_min (min v i32_max)) (Option.bind (js_get js slot field) (js_as_i64 js))"

definition read_hit_points :: "('v, 'm) json_api \<Rightarrow> 'v \<Rightarrow> hp_declared \<Rightarrow> ustring + hit_points" where
  "read_hit_points js slot declared =
     (case read_int js slot (shp_max declared) of
        None \<Rightarrow> Inl (U ''That creature has no maximum hit points recorded'')
      | Some mx \<Rightarrow> Inr
          \<lparr>hp_current = (case read_int js slot (shp_current declared) of Some n \<Rightarrow> n | None \<Rightarrow> mx),
           hp_max = mx,
           hp_temporary =
             (case Option.bind (shp_temporary declared) (read_int js slot) of Some n \<Rightarrow> n | None \<Rightarrow> 0)\<rparr>)"

definition write_hit_points :: "('v, 'm) json_api \<Rightarrow> 'v \<Rightarrow> hp_declared \<Rightarrow> hit_points \<Rightarrow> 'v" where
  "write_hit_points js slot declared value =
     (let out = js_insert js (js_map_of js slot) (shp_current declared) (js_int js (hp_current value)) in
      case shp_temporary declared of
        Some field \<Rightarrow>
          if js_contains js out field \<or> hp_temporary value \<noteq> 0
          then js_object js (js_insert js out field (js_int js (hp_temporary value))) else js_object js out
      | None \<Rightarrow> js_object js out)"

section \<open>The arithmetic\<close>

text \<open>A creature that is not below zero, its numbers of type \<open>i32\<close>.\<close>

definition hp_ok :: "hit_points \<Rightarrow> bool" where
  "hp_ok h \<longleftrightarrow> 0 \<le> hp_current h \<and> is_i32 (hp_current h) \<and> is_i32 (hp_max h) \<and> is_i32 (hp_temporary h)"

lemma i32I: "i32_min \<le> n \<Longrightarrow> n \<le> i32_max \<Longrightarrow> is_i32 n"
  by (simp add: is_i32_def)

lemma damage_eq:
  assumes "hp_ok h" and "is_i32 n"
  shows "apply_to h Damage n =
    (let t = max (hp_temporary h) 0; d = max n 0 in
     h\<lparr>hp_current := max (hp_current h - max (d - t) 0) 0, hp_temporary := max (t - d) 0\<rparr>)"
proof -
  define t where "t = max (hp_temporary h) 0"
  define d where "d = max n 0"
  have b: "0 \<le> t" "t \<le> 2147483647" "0 \<le> d" "d \<le> 2147483647" "0 \<le> hp_current h" "hp_current h \<le> 2147483647"
    using assms by (auto simp: hp_ok_def is_i32_def int_limits t_def d_def)
  have m: "d - min t d = max (d - t) 0" "t - min t d = max (t - d) 0" by (simp_all add: max_def min_def)
  have "is_i32 (max (d - t) 0)" "is_i32 (max (t - d) 0)" using b by (auto simp: is_i32_def int_limits)
  moreover have "is_i32 (hp_current h - max (d - t) 0)" using b by (auto simp: is_i32_def int_limits max_def)
  ultimately show ?thesis unfolding t_def [symmetric] d_def [symmetric] apply_to_def Let_def using m by simp
qed

lemma healing_eq:
  assumes "hp_ok h"
  shows "apply_to h Healing n = h\<lparr>hp_current := max (hp_current h) (min (hp_current h + max n 0) (hp_max h))\<rparr>"
  using assms by (auto simp: apply_to_def hp_ok_def sat_i32_def is_i32_def int_limits min_def max_def)

lemma drains_twice:
  fixes t a b :: int
  assumes "0 \<le> a" and "0 \<le> b"
  shows "max (a - t) 0 + max (b - max (t - a) 0) 0 = max (a + b - t) 0"
    and "max (max (t - a) 0 - b) 0 = max (t - (a + b)) 0"
  using assms by (cases "a \<le> t"; auto simp: max_def)+

lemma heals_twice:
  fixes c m a b :: int
  assumes "0 \<le> a" and "0 \<le> b"
  shows "max (max c (min (c + a) m)) (min (max c (min (c + a) m) + b) m) = max c (min (c + (a + b)) m)"
  using assms by (auto simp: max_def min_def)

text \<open>Damage drains one pool, temporary hit points first: what is left of both together is what there
  was less the damage, never below nothing, and current hit points are touched only by what the
  temporary ones could not take.\<close>

theorem damage_drains_pool:
  assumes "hp_ok h" and "0 \<le> hp_temporary h" and "0 \<le> n" and "is_i32 n"
  shows "hp_current (apply_to h Damage n) + hp_temporary (apply_to h Damage n) = max 0 (hp_current h + hp_temporary h - n) \<and>
    (hp_current (apply_to h Damage n) = hp_current h \<or> hp_temporary (apply_to h Damage n) = 0) \<and>
    hp_max (apply_to h Damage n) = hp_max h"
proof -
  have "0 \<le> hp_current h" using assms(1) by (simp add: hp_ok_def)
  then show ?thesis using assms by (auto simp: damage_eq Let_def max_def)
qed

lemma damage_drains_pool_witness:
  "hp_current (apply_to \<lparr>hp_current = 9, hp_max = 12, hp_temporary = 5\<rparr> Damage 8) +
   hp_temporary (apply_to \<lparr>hp_current = 9, hp_max = 12, hp_temporary = 5\<rparr> Damage 8) = 6"
  using damage_drains_pool [of "\<lparr>hp_current = 9, hp_max = 12, hp_temporary = 5\<rparr>" 8]
  by (simp add: hp_ok_def is_i32_def int_limits)

text \<open>C34: changes of one kind add up, and keep the creature sound: two hits are one hit of their sum, two
  healings one healing, whatever the temporary hit points and whether or not the current is above
  the maximum; healing never leaves the current above both where it was and the maximum.\<close>

theorem changes_add_up:
  assumes "hp_ok h" and "0 \<le> a" and "0 \<le> b" and "is_i32 (a + b)"
  shows "apply_to (apply_to h kind a) kind b = apply_to h kind (a + b) \<and> hp_ok (apply_to h kind a) \<and>
    hp_current (apply_to h Healing a) \<le> max (hp_current h) (hp_max h) \<and> hp_current h \<le> hp_current (apply_to h Healing a)"
proof -
  have i: "is_i32 a" "is_i32 b" using assms by (auto simp: is_i32_def int_limits)
  have ok: "hp_ok (apply_to h kind a)"
  proof (cases kind)
    case Damage
    show ?thesis unfolding Damage damage_eq [OF assms(1) i(1)] Let_def
      using assms(1,2) by (auto simp: hp_ok_def is_i32_def int_limits)
  next
    case Healing
    show ?thesis unfolding Healing healing_eq [OF assms(1)]
      using assms(1) by (auto simp: hp_ok_def is_i32_def int_limits)
  qed
  moreover have "apply_to (apply_to h kind a) kind b = apply_to h kind (a + b)"
  proof (cases kind)
    case Damage
    show ?thesis
      using ok assms i unfolding Damage
      by (simp add: damage_eq Let_def hp_ok_def max_absorb1 drains_twice)
  next
    case Healing
    show ?thesis
      using ok assms unfolding Healing by (simp add: healing_eq max_absorb1 heals_twice)
  qed
  ultimately show ?thesis by (auto simp: healing_eq [OF assms(1)])
qed

lemma changes_add_up_witness:
  "apply_to (apply_to \<lparr>hp_current = 9, hp_max = 12, hp_temporary = 5\<rparr> Damage 3) Damage 4 =
   apply_to \<lparr>hp_current = 9, hp_max = 12, hp_temporary = 5\<rparr> Damage 7"
  using changes_add_up [of "\<lparr>hp_current = 9, hp_max = 12, hp_temporary = 5\<rparr>" 3 4 Damage]
  by (simp add: hp_ok_def is_i32_def int_limits)

section \<open>Out of the fight and back\<close>

text \<open>What the server keeps of a combatant's standing, changed in three ways: a hit-point change, after
  which its rows follow (\<open>follow_zero\<close>), and the Game Master's switch.\<close>

record fighter =
  fi_hp :: hit_points
  fi_active :: bool
  fi_downed_by :: "ustring option"

definition follow_zero :: "int \<Rightarrow> fighter \<Rightarrow> fighter" where
  "follow_zero current f =
     (if current \<le> 0
      then (if fi_active f then f\<lparr>fi_active := False, fi_downed_by := Some downed_by_hit_points\<rparr> else f)
      else (if fi_downed_by f = Some downed_by_hit_points then f\<lparr>fi_active := True, fi_downed_by := None\<rparr> else f))"

definition change_fighter :: "hp_change \<Rightarrow> int \<Rightarrow> fighter \<Rightarrow> ustring + fighter" where
  "change_fighter kind amount f =
     (if amount < 0 then Inl (U ''An amount of hit points cannot be negative'')
      else let after = apply_to (fi_hp f) kind amount in Inr (follow_zero (hp_current after) (f\<lparr>fi_hp := after\<rparr>)))"

definition switch_fighter :: "bool \<Rightarrow> fighter \<Rightarrow> fighter" where
  "switch_fighter active f =
     f\<lparr>fi_active := active, fi_downed_by := (if active then None else Some downed_by_game_master)\<rparr>"

text \<open>A combatant joins the fight active, with the hit points it has, whatever they are. Its row follows a
  change made through its own token. Hit points also change behind its row, and the row does not follow:
  \<open>update_actor_system_data\<close> (graphql/mutations_actor_system_data.rs) writes the sheet as it is given, and
  damage to another token of the same actor looks for that token's row. The flag says that this has
  happened since the row last followed.\<close>

inductive in_fight :: "fighter \<Rightarrow> bool \<Rightarrow> bool" where
  joins: "in_fight \<lparr>fi_hp = h, fi_active = True, fi_downed_by = None\<rparr> False"
| changed: "in_fight f behind \<Longrightarrow> change_fighter kind n f = Inr g \<Longrightarrow> in_fight g False"
| switched: "in_fight f behind \<Longrightarrow> in_fight (switch_fighter on f) behind"
| rewritten: "in_fight f behind \<Longrightarrow> in_fight (f\<lparr>fi_hp := h\<rparr>) True"

lemma words_differ [simp]: "downed_by_hit_points \<noteq> downed_by_game_master" "downed_by_game_master \<noteq> downed_by_hit_points"
  by (simp_all add: downed_by_hit_points_def downed_by_game_master_def)

text \<open>The server's rows follow exactly what the shared rule says.\<close>

lemma follow_zero_rule:
  "follow_zero current f = (case standing_after current (fi_active f) (fi_downed_by f) of
     None \<Rightarrow> f | Some (a, d) \<Rightarrow> f\<lparr>fi_active := a, fi_downed_by := d\<rparr>)"
  by (simp add: follow_zero_def standing_after_def)

lemma hp_ok_apply: "hp_ok h \<Longrightarrow> is_i32 n \<Longrightarrow> hp_ok (apply_to h kind n)"
  by (cases kind) (auto simp: damage_eq healing_eq Let_def hp_ok_def is_i32_def int_limits)

definition standing_ok :: "fighter \<Rightarrow> bool" where
  "standing_ok f \<longleftrightarrow> (fi_active f \<longleftrightarrow> fi_downed_by f = None) \<and>
     fi_downed_by f \<in> {None, Some downed_by_hit_points, Some downed_by_game_master}"

lemma change_settles:
  assumes "standing_ok f" and "change_fighter kind n f = Inr g"
  shows "standing_ok g" and "fi_downed_by g = Some downed_by_hit_points \<Longrightarrow> hp_current (fi_hp g) \<le> 0"
    and "fi_downed_by f = Some downed_by_game_master \<Longrightarrow> \<not> fi_active g \<and> fi_downed_by g = Some downed_by_game_master"
    and "fi_downed_by f \<noteq> Some downed_by_game_master \<Longrightarrow> fi_active g \<longleftrightarrow> 0 < hp_current (fi_hp g)"
proof -
  obtain h where g: "g = follow_zero (hp_current h) (f\<lparr>fi_hp := h\<rparr>)"
    using assms(2) by (auto simp: change_fighter_def Let_def split: if_splits)
  show "standing_ok g" using assms(1) by (auto simp: g follow_zero_def standing_ok_def)
  show "fi_downed_by g = Some downed_by_hit_points \<Longrightarrow> hp_current (fi_hp g) \<le> 0" by (simp add: g follow_zero_def split: if_splits)
  show "fi_downed_by f = Some downed_by_game_master \<Longrightarrow> \<not> fi_active g \<and> fi_downed_by g = Some downed_by_game_master"
    using assms(1) by (simp add: g follow_zero_def standing_ok_def)
  show "fi_downed_by f \<noteq> Some downed_by_game_master \<Longrightarrow> fi_active g \<longleftrightarrow> 0 < hp_current (fi_hp g)"
    using assms(1) by (auto simp: g follow_zero_def standing_ok_def)
qed

lemma in_fight_standing:
  "in_fight f behind \<Longrightarrow> standing_ok f \<and> (\<not> behind \<and> fi_downed_by f = Some downed_by_hit_points \<longrightarrow> hp_current (fi_hp f) \<le> 0)"
proof (induction rule: in_fight.induct)
  case (changed f behind kind n g)
  then show ?case using change_settles(1,2) by blast
qed (simp_all add: standing_ok_def switch_fighter_def)

text \<open>C33: in a fight, a combatant is out exactly when something is recorded to have taken it out, either its hit
  points or the Game Master. When its row last followed a change of its hit points, it is out by them
  only at zero or below; hit points written behind the row may leave it standing as it was until the next
  change through its token, which settles it again. No damage or healing brings back one the Game Master
  took down.\<close>

theorem standing_is_accounted_for:
  assumes "in_fight f behind"
  shows "(fi_active f \<longleftrightarrow> fi_downed_by f = None) \<and>
    fi_downed_by f \<in> {None, Some downed_by_hit_points, Some downed_by_game_master} \<and>
    (\<not> behind \<and> fi_downed_by f = Some downed_by_hit_points \<longrightarrow> hp_current (fi_hp f) \<le> 0) \<and>
    (change_fighter kind n f = Inr g \<longrightarrow>
       (fi_downed_by f = Some downed_by_game_master \<longrightarrow> \<not> fi_active g \<and> fi_downed_by g = Some downed_by_game_master) \<and>
       (fi_downed_by f \<noteq> Some downed_by_game_master \<longrightarrow> (fi_active g \<longleftrightarrow> 0 < hp_current (fi_hp g))))"
proof -
  have "standing_ok f" using in_fight_standing [OF assms] by blast
  note settles = change_settles(3,4) [OF this]
  show ?thesis using in_fight_standing [OF assms] settles by (intro conjI impI) (simp_all add: standing_ok_def)
qed

definition bandit :: fighter where
  "bandit = \<lparr>fi_hp = \<lparr>hp_current = 4, hp_max = 11, hp_temporary = 0\<rparr>, fi_active = True, fi_downed_by = None\<rparr>"

lemma standing_is_accounted_for_witness:
  "change_fighter Damage 9 bandit = Inr (bandit\<lparr>fi_hp := \<lparr>hp_current = 0, hp_max = 11, hp_temporary = 0\<rparr>,
      fi_active := False, fi_downed_by := Some downed_by_hit_points\<rparr>) \<and>
   hp_current (fi_hp (bandit\<lparr>fi_hp := \<lparr>hp_current = 0, hp_max = 11, hp_temporary = 0\<rparr>,
      fi_active := False, fi_downed_by := Some downed_by_hit_points\<rparr>)) = 0"
proof -
  let ?g = "bandit\<lparr>fi_hp := \<lparr>hp_current = 0, hp_max = 11, hp_temporary = 0\<rparr>, fi_active := False, fi_downed_by := Some downed_by_hit_points\<rparr>"
  have b: "in_fight bandit False" unfolding bandit_def by (rule joins)
  have g: "change_fighter Damage 9 bandit = Inr ?g"
    by (simp add: change_fighter_def bandit_def apply_to_def follow_zero_def Let_def wrap_i32_def)
  have "in_fight ?g False" by (rule changed [OF b g])
  from standing_is_accounted_for [OF this] show ?thesis using g by simp
qed

section \<open>Hit points in a slot, read and written\<close>

text \<open>What is written to a slot reads back: with a JSON object that keeps what is inserted, the hit
  points written over a slot that names the maximum are the hit points read, temporary ones
  included when the pack declares them, and every other field reads as it did.\<close>

theorem hit_points_round_trip:
  assumes "\<And>m k x k'. js_get js (js_object js (js_insert js m k x)) k' = (if k' = k then Some x else js_get js (js_object js m) k')"
    and "\<And>v k. js_get js (js_object js (js_map_of js v)) k = js_get js v k"
    and "\<And>m k. js_contains js m k \<longleftrightarrow> js_get js (js_object js m) k \<noteq> None"
    and "\<And>n. js_as_i64 js (js_int js n) = Some n"
    and "shp_current declared \<noteq> shp_max declared"
    and "shp_temporary declared \<notin> {Some (shp_current declared), Some (shp_max declared)}"
    and "is_i32 (hp_current h)" and "is_i32 (hp_temporary h)"
    and "read_int js slot (shp_max declared) = Some (hp_max h)"
    and "hp_temporary h = 0 \<or> shp_temporary declared \<noteq> None"
  shows "read_hit_points js (write_hit_points js slot declared h) declared = Inr h \<and>
    (field \<noteq> shp_current declared \<longrightarrow> shp_temporary declared \<noteq> Some field \<longrightarrow>
       js_get js (write_hit_points js slot declared h) field = js_get js slot field)"
proof -
  have clamp: "max i32_min (min n i32_max) = n" if "is_i32 n" for n using that by (auto simp: is_i32_def)
  show ?thesis
    using assms(5-10)
    by (cases "shp_temporary declared")
      (auto simp: read_hit_points_def write_hit_points_def read_int_def Let_def assms(1-4) clamp
        split: option.splits)
qed

text \<open>A JSON object as a map, to see the hypotheses met.\<close>

datatype jvalue = JInt int | JObj "(ustring \<times> jvalue) list"

definition jmap :: "(jvalue, (ustring \<times> jvalue) list) json_api" where
  "jmap = \<lparr>js_get = (\<lambda>v k. case v of JObj m \<Rightarrow> map_of m k | _ \<Rightarrow> None),
     js_as_i64 = (\<lambda>v. case v of JInt n \<Rightarrow> Some n | _ \<Rightarrow> None),
     js_map_of = (\<lambda>v. case v of JObj m \<Rightarrow> m | _ \<Rightarrow> []),
     js_insert = (\<lambda>m k x. (k, x) # m), js_contains = (\<lambda>m k. map_of m k \<noteq> None), js_object = JObj, js_int = JInt\<rparr>"

lemma hit_points_round_trip_witness:
  "read_hit_points jmap (write_hit_points jmap (JObj [(U ''max'', JInt 11), (U ''ac'', JInt 15)])
      \<lparr>shp_slot = U ''resourceData'', shp_current = U ''hp'', shp_max = U ''max'', shp_temporary = Some (U ''temp'')\<rparr>
      \<lparr>hp_current = 4, hp_max = 11, hp_temporary = 2\<rparr>)
      \<lparr>shp_slot = U ''resourceData'', shp_current = U ''hp'', shp_max = U ''max'', shp_temporary = Some (U ''temp'')\<rparr>
    = Inr \<lparr>hp_current = 4, hp_max = 11, hp_temporary = 2\<rparr>"
  by (rule hit_points_round_trip [THEN conjunct1])
    (auto simp: jmap_def read_int_def is_i32_def int_limits split: jvalue.split)

end
