(* ===== verification/Combat_Tracker.thy ===== *)
theory Combat_Tracker
  imports Combat_Order Combat_Budget Combat_Hp
begin

text \<open>
  The shared initiative tracker of the server (crates/thunderforge-server/src/graphql/mutations_combat.rs,
  mutations_combat_lair.rs and the auto-apply setting of mutations_attacks.rs, with the budget rows of
  combat/budget.rs and combat/legendary.rs): its tables as lists of rows, one
  definition per handler, each statement of a handler in the order it is executed and kept even when a
  later one refuses, as the code runs them outside a transaction. A handler is given what it asks the
  rest of the server: who runs a world, whether play is paused, the clock and the next id. The
  foreign keys are those of the migration: a combatant that goes takes its budget along and clears
  the turn it holds, an actor takes its combatants along, a world its combats.
\<close>

section \<open>Rows\<close>

record combat_row =
  cb_id :: uuid
  cb_world :: uuid
  cb_scene :: "uuid option"
  cb_round :: int  \<comment> \<open>\<open>i32\<close>\<close>
  cb_turn :: "uuid option"
  cb_ended :: "nat option"
  cb_created_by :: uuid
  cb_updated :: nat
  cb_auto_apply :: "bool option"

record combatant_row =
  co_id :: uuid
  co_combat :: uuid
  co_actor :: "uuid option"
  co_token :: "uuid option"
  co_label :: ustring
  co_initiative :: int
  co_tiebreak :: int
  co_npc :: bool
  co_active :: bool
  co_updated :: nat
  co_downed_by :: "ustring option"
  co_kind :: ustring

record tracker =
  tk_combats :: "combat_row list"
  tk_combatants :: "combatant_row list"
  tk_budgets :: "(uuid \<times> spent) list"
  tk_events :: "(uuid \<times> uuid) list"  \<comment> \<open>the world told, and the combat that changed\<close>

text \<open>What a handler asks of the rest of the server.\<close>

record request =
  rq_user :: uuid
  rq_runs :: "uuid \<Rightarrow> bool"        \<comment> \<open>\<open>is_dm_of_world\<close>, \<open>actor_in_world\<close>\<close>
  rq_paused :: "uuid \<Rightarrow> bool"      \<comment> \<open>\<open>refuse_if_paused\<close>\<close>
  rq_now :: nat
  rq_fresh :: uuid                 \<comment> \<open>\<open>Uuid::now_v7\<close>\<close>
  rq_readable :: "uuid \<Rightarrow> bool"    \<comment> \<open>\<open>readable_token_names_sync\<close>\<close>
  rq_per_round :: "uuid \<Rightarrow> uuid option \<Rightarrow> uuid option \<Rightarrow> int option"  \<comment> \<open>\<open>per_round_for\<close>\<close>

datatype refusal = Refused_with ustring | Play_paused | Database_error

section \<open>Queries\<close>

definition seat_of :: "combatant_row \<Rightarrow> uuid seat" where
  "seat_of c = \<lparr>seat_id = co_id c, initiative = co_initiative c, tiebreak = co_tiebreak c, is_active = co_active c\<rparr>"

text \<open>\<open>sort_combatants\<close>: the shared order, through the row's \<open>Seat\<close>.\<close>

lift_definition by_row :: "combatant_row comparator" is "\<lambda>a b. turn_order (seat_of a) (seat_of b)"
  by unfold_locales (auto simp: turn_order_def)

definition sort_combatants :: "combatant_row list \<Rightarrow> combatant_row list" where
  "sort_combatants rows = Sorting_Algorithms.sort by_row rows"

definition next_turn_index :: "combatant_row list \<Rightarrow> uuid option \<Rightarrow> (nat \<times> bool) option" where
  "next_turn_index ordered active_id = next_turn (map seat_of ordered) active_id"

definition unknown_combatant :: ustring where "unknown_combatant = U ''Unknown''"

definition rows_of :: "tracker \<Rightarrow> uuid \<Rightarrow> combatant_row list" where
  "rows_of t combat = filter (\<lambda>c. co_combat c = combat) (tk_combatants t)"

definition combat_world :: "tracker \<Rightarrow> uuid \<Rightarrow> refusal + combat_row" where
  "combat_world t combat =
     (case find (\<lambda>c. cb_id c = combat) (tk_combats t) of
        None \<Rightarrow> Inl (Refused_with (U ''Combat not found''))
      | Some c \<Rightarrow> Inr c)"

definition find_active_combat :: "tracker \<Rightarrow> uuid \<Rightarrow> combat_row option" where
  "find_active_combat t w = find (\<lambda>c. cb_world c = w \<and> cb_ended c = None) (tk_combats t)"

definition find_combatant :: "tracker \<Rightarrow> uuid \<Rightarrow> refusal + combatant_row" where
  "find_combatant t combatant =
     (case find (\<lambda>c. co_id c = combatant) (tk_combatants t) of
        None \<Rightarrow> Inl (Refused_with (U ''Combatant not found''))
      | Some c \<Rightarrow> Inr c)"

text \<open>What is shown, without the resolved budgets: the combat and its combatants in turn order, their
  names kept from whoever may not read them.\<close>

definition redact :: "request \<Rightarrow> uuid \<Rightarrow> combatant_row \<Rightarrow> combatant_row" where
  "redact rq w c =
     (if \<not> rq_runs rq w \<and> (case co_token c of Some tok \<Rightarrow> \<not> rq_readable rq tok | None \<Rightarrow> False)
      then c\<lparr>co_label := unknown_combatant\<rparr> else c)"

definition load_combat :: "request \<Rightarrow> tracker \<Rightarrow> combat_row \<Rightarrow> combat_row \<times> combatant_row list" where
  "load_combat rq t combat =
     (combat, map (redact rq (cb_world combat)) (sort_combatants (rows_of t (cb_id combat))))"

section \<open>Statements\<close>

definition update_combat :: "uuid \<Rightarrow> (combat_row \<Rightarrow> combat_row) \<Rightarrow> tracker \<Rightarrow> tracker" where
  "update_combat combat f t = t\<lparr>tk_combats := map (\<lambda>c. if cb_id c = combat then f c else c) (tk_combats t)\<rparr>"

definition update_combatant_row :: "uuid \<Rightarrow> (combatant_row \<Rightarrow> combatant_row) \<Rightarrow> tracker \<Rightarrow> tracker" where
  "update_combatant_row combatant f t =
     t\<lparr>tk_combatants := map (\<lambda>c. if co_id c = combatant then f c else c) (tk_combatants t)\<rparr>"

definition record_event :: "uuid \<Rightarrow> uuid \<Rightarrow> tracker \<Rightarrow> tracker" where
  "record_event w combat t = t\<lparr>tk_events := tk_events t @ [(w, combat)]\<rparr>"

definition touch_and_broadcast :: "request \<Rightarrow> uuid \<Rightarrow> uuid \<Rightarrow> tracker \<Rightarrow> tracker" where
  "touch_and_broadcast rq combat w t = record_event w combat (update_combat combat (\<lambda>c. c\<lparr>cb_updated := rq_now rq\<rparr>) t)"

definition no_spend :: "int option \<Rightarrow> spent" where
  "no_spend per_round = \<lparr>sp_action = 0, sp_bonus_action = 0, sp_reaction = 0, sp_movement = Fin 0,
     sp_per_round = per_round, sp_remaining = per_round\<rparr>"

text \<open>\<open>create_for\<close> and \<open>create_budget_for\<close>: a second call does nothing.\<close>

definition create_budget :: "uuid \<Rightarrow> int option \<Rightarrow> tracker \<Rightarrow> tracker" where
  "create_budget combatant per_round t =
     (if map_of (tk_budgets t) combatant = None
      then t\<lparr>tk_budgets := tk_budgets t @ [(combatant, no_spend per_round)]\<rparr> else t)"

definition update_budget :: "uuid \<Rightarrow> (spent \<Rightarrow> spent) \<Rightarrow> tracker \<Rightarrow> tracker" where
  "update_budget combatant f t =
     t\<lparr>tk_budgets := map (\<lambda>(i, s). if i = combatant then (i, f s) else (i, s)) (tk_budgets t)\<rparr>"

definition start_turn_row :: "uuid \<Rightarrow> tracker \<Rightarrow> tracker" where
  "start_turn_row combatant t = update_budget combatant start_turn (create_budget combatant None t)"

text \<open>\<open>spend\<close>. The database refuses a budget for a combatant it does not have, and a column out of its range.\<close>

definition spend_fits :: "spend \<Rightarrow> spent \<Rightarrow> bool" where
  "spend_fits what s =
     (case what of
        SpendAction \<Rightarrow> is_i32 (sp_action s + 1)
      | SpendBonusAction \<Rightarrow> is_i32 (sp_bonus_action s + 1)
      | SpendReaction \<Rightarrow> is_i32 (sp_reaction s + 1)
      | SpendMovement distance \<Rightarrow>
          is_finite (sp_movement s) \<and> is_finite (fmax distance (Fin 0)) \<longrightarrow>
          is_finite (fadd binary64 (sp_movement s) (fmax distance (Fin 0)))
      | SpendLegendary cost \<Rightarrow> (case sp_remaining s of None \<Rightarrow> True | Some r \<Rightarrow> is_i32 (r - cost)))"

definition spend_row :: "uuid \<Rightarrow> spend \<Rightarrow> tracker \<Rightarrow> (refusal + spent) \<times> tracker" where
  "spend_row combatant what t =
     (if \<forall>c \<in> set (tk_combatants t). co_id c \<noteq> combatant then (Inl Database_error, t)
      else
        let t1 = create_budget combatant None t in
        case map_of (tk_budgets t1) combatant of
          None \<Rightarrow> (Inl Database_error, t1)
        | Some s \<Rightarrow>
            if spend_fits what s then (Inr (take_spend what s), update_budget combatant (take_spend what) t1)
            else (Inl Database_error, t1))"

definition delete_combatant :: "uuid \<Rightarrow> tracker \<Rightarrow> tracker" where
  "delete_combatant combatant t =
     t\<lparr>tk_combatants := filter (\<lambda>c. co_id c \<noteq> combatant) (tk_combatants t),
       tk_budgets := filter (\<lambda>(i, s). i \<noteq> combatant) (tk_budgets t),
       tk_combats := map (\<lambda>c. if cb_turn c = Some combatant then c\<lparr>cb_turn := None\<rparr> else c) (tk_combats t)\<rparr>"

section \<open>Handlers\<close>

type_synonym answer = "(refusal + combat_row \<times> combatant_row list) \<times> tracker"

definition reload :: "request \<Rightarrow> uuid \<Rightarrow> tracker \<Rightarrow> answer" where
  "reload rq combat t =
     (case combat_world t combat of Inl e \<Rightarrow> (Inl e, t) | Inr c \<Rightarrow> (Inr (load_combat rq t c), t))"

definition start_combat :: "request \<Rightarrow> uuid \<Rightarrow> uuid option \<Rightarrow> tracker \<Rightarrow> answer" where
  "start_combat rq w sc t =
     (if \<not> rq_runs rq w then (Inl (Refused_with (U ''Only the GM may start combat'')), t)
      else if rq_paused rq w then (Inl Play_paused, t)
      else case find_active_combat t w of
        Some existing \<Rightarrow> (Inr (load_combat rq t existing), t)
      | None \<Rightarrow>
          if \<exists>c \<in> set (tk_combats t). cb_id c = rq_fresh rq then (Inl Database_error, t)
          else
            let c = \<lparr>cb_id = rq_fresh rq, cb_world = w, cb_scene = sc, cb_round = 1, cb_turn = None, cb_ended = None,
                     cb_created_by = rq_user rq, cb_updated = rq_now rq, cb_auto_apply = None\<rparr>;
                t1 = record_event w (cb_id c) (t\<lparr>tk_combats := tk_combats t @ [c]\<rparr>) in
            (Inr (load_combat rq t1 c), t1))"

record add_input =
  ai_combat :: uuid
  ai_label :: ustring
  ai_actor :: "uuid option"
  ai_token :: "uuid option"
  ai_initiative :: "int option"
  ai_tiebreak :: "int option"
  ai_npc :: "bool option"

definition or_default :: "'a \<Rightarrow> 'a option \<Rightarrow> 'a" where
  "or_default d x = (case x of Some v \<Rightarrow> v | None \<Rightarrow> d)"

definition add_combatant :: "request \<Rightarrow> add_input \<Rightarrow> tracker \<Rightarrow> answer" where
  "add_combatant rq input t =
     (let label = trim (ai_label input) in
      if label = [] then (Inl (Refused_with (U ''Combatant needs a name'')), t)
      else case combat_world t (ai_combat input) of
        Inl e \<Rightarrow> (Inl e, t)
      | Inr combat \<Rightarrow>
          if \<not> rq_runs rq (cb_world combat) then (Inl (Refused_with (U ''Only the GM may change combat'')), t)
          else if rq_paused rq (cb_world combat) then (Inl Play_paused, t)
          else if \<exists>c \<in> set (tk_combatants t). co_id c = rq_fresh rq then (Inl Database_error, t)
          else
            let row = \<lparr>co_id = rq_fresh rq, co_combat = ai_combat input, co_actor = ai_actor input, co_token = ai_token input,
                       co_label = label, co_initiative = or_default 0 (ai_initiative input),
                       co_tiebreak = or_default 0 (ai_tiebreak input), co_npc = or_default False (ai_npc input),
                       co_active = True, co_updated = rq_now rq, co_downed_by = None, co_kind = U ''creature''\<rparr>;
                t1 = t\<lparr>tk_combatants := tk_combatants t @ [row]\<rparr>;
                t2 = create_budget (co_id row) (rq_per_round rq (cb_world combat) (ai_token input) (ai_actor input)) t1 in
            reload rq (ai_combat input) (touch_and_broadcast rq (ai_combat input) (cb_world combat) t2))"

record update_input =
  ui_combatant :: uuid
  ui_initiative :: "int option"
  ui_tiebreak :: "int option"
  ui_active :: "bool option"
  ui_label :: "ustring option"

definition update_when :: "uuid \<Rightarrow> 'a option \<Rightarrow> ('a \<Rightarrow> combatant_row \<Rightarrow> combatant_row) \<Rightarrow> nat \<Rightarrow> tracker \<Rightarrow> tracker" where
  "update_when combatant x f now t =
     (case x of None \<Rightarrow> t | Some v \<Rightarrow> update_combatant_row combatant (\<lambda>c. (f v c)\<lparr>co_updated := now\<rparr>) t)"

text \<open>Each field is its own statement: an empty name is refused after the fields before it are written.\<close>

definition update_combatant :: "request \<Rightarrow> update_input \<Rightarrow> tracker \<Rightarrow> answer" where
  "update_combatant rq input t =
     (case find_combatant t (ui_combatant input) of
        Inl e \<Rightarrow> (Inl e, t)
      | Inr row \<Rightarrow>
      case combat_world t (co_combat row) of
        Inl e \<Rightarrow> (Inl e, t)
      | Inr combat \<Rightarrow>
          if \<not> rq_runs rq (cb_world combat) then (Inl (Refused_with (U ''Only the GM may change combat'')), t)
          else if rq_paused rq (cb_world combat) then (Inl Play_paused, t)
          else
            let i = ui_combatant input; now = rq_now rq;
                t1 = update_when i (ui_initiative input) (\<lambda>v c. c\<lparr>co_initiative := v\<rparr>) now t;
                t2 = update_when i (ui_tiebreak input) (\<lambda>v c. c\<lparr>co_tiebreak := v\<rparr>) now t1;
                t3 = update_when i (ui_active input) (\<lambda>v c. c\<lparr>co_active := v,
                       co_downed_by := (if v then None else Some downed_by_game_master)\<rparr>) now t2 in
            if map_option trim (ui_label input) = Some []
            then (Inl (Refused_with (U ''Combatant needs a name'')), t3)
            else
              let t4 = update_when i (ui_label input) (\<lambda>v c. c\<lparr>co_label := trim v\<rparr>) now t3 in
              reload rq (cb_id combat) (touch_and_broadcast rq (cb_id combat) (cb_world combat) t4))"

definition hand_off :: "uuid \<Rightarrow> uuid \<Rightarrow> tracker \<Rightarrow> tracker" where
  "hand_off combat combatant t =
     (let ordered = sort_combatants (rows_of t combat);
          successor = (case next_turn_index ordered (Some combatant) of
              None \<Rightarrow> None
            | Some (idx, _) \<Rightarrow> (let i = co_id (ordered ! idx) in if i = combatant then None else Some i));
          t1 = update_combat combat (\<lambda>c. c\<lparr>cb_turn := successor\<rparr>) t in
      case successor of None \<Rightarrow> t1 | Some i \<Rightarrow> start_turn_row i t1)"

definition remove_combatant :: "request \<Rightarrow> uuid \<Rightarrow> tracker \<Rightarrow> answer" where
  "remove_combatant rq combatant t =
     (case find_combatant t combatant of
        Inl e \<Rightarrow> (Inl e, t)
      | Inr row \<Rightarrow>
      case combat_world t (co_combat row) of
        Inl e \<Rightarrow> (Inl e, t)
      | Inr combat \<Rightarrow>
          if \<not> rq_runs rq (cb_world combat) then (Inl (Refused_with (U ''Only the GM may change combat'')), t)
          else if rq_paused rq (cb_world combat) then (Inl Play_paused, t)
          else
            let t1 = (if cb_turn combat = Some combatant then hand_off (cb_id combat) combatant t else t);
                t2 = delete_combatant combatant t1 in
            reload rq (cb_id combat) (touch_and_broadcast rq (cb_id combat) (cb_world combat) t2))"

definition advance_turn :: "request \<Rightarrow> uuid \<Rightarrow> tracker \<Rightarrow> answer" where
  "advance_turn rq combat_id t =
     (case combat_world t combat_id of
        Inl e \<Rightarrow> (Inl e, t)
      | Inr combat \<Rightarrow>
          if \<not> rq_runs rq (cb_world combat) then (Inl (Refused_with (U ''Only the GM may advance the turn'')), t)
          else if cb_ended combat \<noteq> None then (Inl (Refused_with (U ''This combat has already ended'')), t)
          else if rq_paused rq (cb_world combat) then (Inl Play_paused, t)
          else
            let ordered = sort_combatants (rows_of t combat_id) in
            case next_turn_index ordered (cb_turn combat) of
              None \<Rightarrow> (Inl (Refused_with (U ''No active combatants to advance to'')), t)
            | Some (idx, wrapped) \<Rightarrow>
                let i = co_id (ordered ! idx);
                    t1 = update_combat combat_id (\<lambda>c. c\<lparr>cb_turn := Some i,
                           cb_round := (if wrapped then wrap_i32 (cb_round combat + 1) else cb_round combat)\<rparr>) t;
                    t2 = start_turn_row i t1 in
                reload rq combat_id (touch_and_broadcast rq combat_id (cb_world combat) t2))"

definition end_combat :: "request \<Rightarrow> uuid \<Rightarrow> tracker \<Rightarrow> answer" where
  "end_combat rq combat_id t =
     (case combat_world t combat_id of
        Inl e \<Rightarrow> (Inl e, t)
      | Inr combat \<Rightarrow>
          if \<not> rq_runs rq (cb_world combat) then (Inl (Refused_with (U ''Only the GM may end combat'')), t)
          else if rq_paused rq (cb_world combat) then (Inl Play_paused, t)
          else reload rq combat_id (touch_and_broadcast rq combat_id (cb_world combat)
                 (update_combat combat_id (\<lambda>c. c\<lparr>cb_ended := Some (rq_now rq)\<rparr>) t)))"

text \<open>\<open>add_lair_combatant_impl\<close> (graphql/mutations_combat_lair.rs): a combatant that is no creature, added
  without a budget.\<close>

definition lair_initiative :: int where "lair_initiative = 20"
definition lair_tiebreak :: int where "lair_tiebreak = -1"
definition kind_lair :: ustring where "kind_lair = U ''lair''"

definition add_lair_combatant :: "request \<Rightarrow> uuid \<Rightarrow> ustring \<Rightarrow> tracker \<Rightarrow> answer" where
  "add_lair_combatant rq combat_id name t =
     (let label = trim name in
      if label = [] then (Inl (Refused_with (U ''A lair needs a name'')), t)
      else case combat_world t combat_id of
        Inl e \<Rightarrow> (Inl e, t)
      | Inr combat \<Rightarrow>
          if \<not> rq_runs rq (cb_world combat) then (Inl (Refused_with (U ''Only the GM may change combat'')), t)
          else if cb_ended combat \<noteq> None then (Inl (Refused_with (U ''This combat has already ended'')), t)
          else if rq_paused rq (cb_world combat) then (Inl Play_paused, t)
          else if \<exists>c \<in> set (tk_combatants t). co_id c = rq_fresh rq then (Inl Database_error, t)
          else
            let row = \<lparr>co_id = rq_fresh rq, co_combat = combat_id, co_actor = None, co_token = None, co_label = label,
                       co_initiative = lair_initiative, co_tiebreak = lair_tiebreak, co_npc = True, co_active = True,
                       co_updated = rq_now rq, co_downed_by = None, co_kind = kind_lair\<rparr>;
                t1 = t\<lparr>tk_combatants := tk_combatants t @ [row]\<rparr> in
            reload rq combat_id (touch_and_broadcast rq combat_id (cb_world combat) t1))"

text \<open>\<open>set_combat_auto_apply_impl\<close> (graphql/mutations_attacks.rs).\<close>

definition set_combat_auto_apply :: "request \<Rightarrow> uuid \<Rightarrow> bool option \<Rightarrow> tracker \<Rightarrow> answer" where
  "set_combat_auto_apply rq combat_id enabled t =
     (case combat_world t combat_id of
        Inl e \<Rightarrow> (Inl e, t)
      | Inr combat \<Rightarrow>
          if \<not> rq_runs rq (cb_world combat)
          then (Inl (Refused_with (U ''Only the Game Master may change auto-apply for an encounter'')), t)
          else if rq_paused rq (cb_world combat) then (Inl Play_paused, t)
          else reload rq combat_id (touch_and_broadcast rq combat_id (cb_world combat)
                 (update_combat combat_id (\<lambda>c. c\<lparr>cb_auto_apply := enabled\<rparr>) t)))"

text \<open>What the foreign keys do when a row the tracker names goes: an actor takes its combatants along, a world
  its combats with everybody in them, and a scene is forgotten.\<close>

definition delete_combatants :: "(combatant_row \<Rightarrow> bool) \<Rightarrow> tracker \<Rightarrow> tracker" where
  "delete_combatants gone t = foldl (\<lambda>t c. delete_combatant (co_id c) t) t (filter gone (tk_combatants t))"

definition actor_deleted :: "uuid \<Rightarrow> tracker \<Rightarrow> tracker" where
  "actor_deleted a t = delete_combatants (\<lambda>c. co_actor c = Some a) t"

definition world_deleted :: "uuid \<Rightarrow> tracker \<Rightarrow> tracker" where
  "world_deleted w t =
     (let t1 = delete_combatants (\<lambda>r. \<exists>c \<in> set (tk_combats t). cb_id c = co_combat r \<and> cb_world c = w) t in
      t1\<lparr>tk_combats := filter (\<lambda>c. cb_world c \<noteq> w) (tk_combats t1)\<rparr>)"

definition scene_deleted :: "uuid \<Rightarrow> tracker \<Rightarrow> tracker" where
  "scene_deleted sc t = t\<lparr>tk_combats := map (\<lambda>c. if cb_scene c = Some sc then c\<lparr>cb_scene := None\<rparr> else c) (tk_combats t)\<rparr>"

definition active_combat :: "request \<Rightarrow> bool \<Rightarrow> uuid \<Rightarrow> tracker \<Rightarrow> refusal + (combat_row \<times> combatant_row list) option" where
  "active_combat rq member w t =
     (if \<not> member then Inl (Refused_with (U ''You are not a member of this world''))
      else Inr (map_option (load_combat rq t) (find_active_combat t w)))"

section \<open>Hit points and standing\<close>

text \<open>\<open>follow_zero\<close> of combat/hit_points.rs: the rows of a creature in the running combat of its world,
  marked out at zero, or back in above it.\<close>

definition is_this_creature :: "uuid \<Rightarrow> uuid option \<Rightarrow> combatant_row \<Rightarrow> bool" where
  "is_this_creature tok linked_actor c \<longleftrightarrow>
     co_token c = Some tok \<or> co_token c = None \<and> linked_actor \<noteq> None \<and> co_actor c = linked_actor"

definition follow_zero_rows :: "request \<Rightarrow> uuid \<Rightarrow> uuid \<Rightarrow> uuid option \<Rightarrow> int \<Rightarrow> tracker \<Rightarrow> uuid option \<times> tracker" where
  "follow_zero_rows rq w tok linked_actor current t =
     (case find_active_combat t w of
        None \<Rightarrow> (None, t)
      | Some combat \<Rightarrow>
          let changes = (\<lambda>c. co_combat c = cb_id combat \<and> is_this_creature tok linked_actor c \<and>
                (if current \<le> 0 then co_active c else co_downed_by c = Some downed_by_hit_points));
              change = (\<lambda>c. if current \<le> 0
                then c\<lparr>co_active := False, co_downed_by := Some downed_by_hit_points, co_updated := rq_now rq\<rparr>
                else c\<lparr>co_active := True, co_downed_by := None, co_updated := rq_now rq\<rparr>);
              t1 = t\<lparr>tk_combatants := map (\<lambda>c. if changes c then change c else c) (tk_combatants t)\<rparr> in
          if \<exists>c \<in> set (tk_combatants t). changes c
          then (Some (cb_id combat), update_combat (cb_id combat) (\<lambda>c. c\<lparr>cb_updated := rq_now rq\<rparr>) t1)
          else (None, t1))"

section \<open>The tables stay sound\<close>

text \<open>Ids are unique, a world has one running combat at most, a combatant's combat is there, the turn is
  held by a combatant of the combat, a budget belongs to a combatant, and every creature has one. A lair
  is given none when it is added, and one when its turn first comes.\<close>

definition tracker_ok :: "tracker \<Rightarrow> bool" where
  "tracker_ok t \<longleftrightarrow>
     distinct (map cb_id (tk_combats t)) \<and> distinct (map co_id (tk_combatants t)) \<and>
     (\<forall>c \<in> set (tk_combats t). \<forall>d \<in> set (tk_combats t).
        cb_world c = cb_world d \<and> cb_ended c = None \<and> cb_ended d = None \<longrightarrow> cb_id c = cb_id d) \<and>
     co_combat ` set (tk_combatants t) \<subseteq> cb_id ` set (tk_combats t) \<and>
     (\<forall>c \<in> set (tk_combats t). \<forall>i. cb_turn c = Some i \<longrightarrow> (\<exists>r \<in> set (tk_combatants t). co_id r = i \<and> co_combat r = cb_id c)) \<and>
     distinct (map fst (tk_budgets t)) \<and> fst ` set (tk_budgets t) \<subseteq> co_id ` set (tk_combatants t) \<and>
     (\<forall>r \<in> set (tk_combatants t). co_kind r \<noteq> kind_lair \<longrightarrow> co_id r \<in> fst ` set (tk_budgets t))"

lemma seat_of_sel [simp]:
  "seat_id (seat_of c) = co_id c" "is_active (seat_of c) = co_active c"
  by (simp_all add: seat_of_def)

lemma sort_combatants_mset [simp]: "mset (sort_combatants rows) = mset rows"
  by (simp add: sort_combatants_def)

lemma sort_combatants_set [simp]: "set (sort_combatants rows) = set rows"
  by (simp add: sort_combatants_def)

lemma sort_combatants_distinct: "distinct (map co_id rows) \<Longrightarrow> distinct (map co_id (sort_combatants rows))"
  by (metis mset_eq_imp_distinct_iff mset_map sort_combatants_mset)

lemma tracker_okI:
  assumes "distinct (map cb_id (tk_combats t))" and "distinct (map co_id (tk_combatants t))"
    and "\<And>c d. c \<in> set (tk_combats t) \<Longrightarrow> d \<in> set (tk_combats t) \<Longrightarrow> cb_world c = cb_world d \<Longrightarrow>
      cb_ended c = None \<Longrightarrow> cb_ended d = None \<Longrightarrow> cb_id c = cb_id d"
    and "\<And>r. r \<in> set (tk_combatants t) \<Longrightarrow> co_combat r \<in> cb_id ` set (tk_combats t)"
    and "\<And>c i. c \<in> set (tk_combats t) \<Longrightarrow> cb_turn c = Some i \<Longrightarrow> \<exists>r \<in> set (tk_combatants t). co_id r = i \<and> co_combat r = cb_id c"
    and "distinct (map fst (tk_budgets t))" and "fst ` set (tk_budgets t) \<subseteq> co_id ` set (tk_combatants t)"
    and "\<And>r. r \<in> set (tk_combatants t) \<Longrightarrow> co_kind r \<noteq> kind_lair \<Longrightarrow> co_id r \<in> fst ` set (tk_budgets t)"
  shows "tracker_ok t"
proof -
  have "co_combat ` set (tk_combatants t) \<subseteq> cb_id ` set (tk_combats t)" by (rule image_subsetI) (rule assms(4))
  moreover have "\<forall>c \<in> set (tk_combats t). \<forall>d \<in> set (tk_combats t).
        cb_world c = cb_world d \<and> cb_ended c = None \<and> cb_ended d = None \<longrightarrow> cb_id c = cb_id d"
    by (intro ballI impI) (elim conjE, rule assms(3))
  moreover have "\<forall>c \<in> set (tk_combats t). \<forall>i. cb_turn c = Some i \<longrightarrow> (\<exists>r \<in> set (tk_combatants t). co_id r = i \<and> co_combat r = cb_id c)"
    by (intro ballI allI impI) (rule assms(5))
  moreover have "\<forall>r \<in> set (tk_combatants t). co_kind r \<noteq> kind_lair \<longrightarrow> co_id r \<in> fst ` set (tk_budgets t)"
    by (intro ballI impI) (rule assms(8))
  ultimately show ?thesis unfolding tracker_ok_def using assms(1,2,6,7) by (intro conjI)
qed

lemma tracker_okD:
  assumes "tracker_ok t"
  shows "distinct (map cb_id (tk_combats t))" and "distinct (map co_id (tk_combatants t))"
    and "c \<in> set (tk_combats t) \<Longrightarrow> d \<in> set (tk_combats t) \<Longrightarrow> cb_world c = cb_world d \<Longrightarrow>
      cb_ended c = None \<Longrightarrow> cb_ended d = None \<Longrightarrow> cb_id c = cb_id d"
    and "r \<in> set (tk_combatants t) \<Longrightarrow> co_combat r \<in> cb_id ` set (tk_combats t)"
    and "c \<in> set (tk_combats t) \<Longrightarrow> cb_turn c = Some i \<Longrightarrow> \<exists>r \<in> set (tk_combatants t). co_id r = i \<and> co_combat r = cb_id c"
    and "distinct (map fst (tk_budgets t))" and "fst ` set (tk_budgets t) \<subseteq> co_id ` set (tk_combatants t)"
    and "r \<in> set (tk_combatants t) \<Longrightarrow> co_kind r \<noteq> kind_lair \<Longrightarrow> co_id r \<in> fst ` set (tk_budgets t)"
proof -
  note ok = assms [unfolded tracker_ok_def]
  show "distinct (map cb_id (tk_combats t))" "distinct (map co_id (tk_combatants t))" "distinct (map fst (tk_budgets t))"
    "fst ` set (tk_budgets t) \<subseteq> co_id ` set (tk_combatants t)"
    using ok by simp_all
  show "r \<in> set (tk_combatants t) \<Longrightarrow> co_kind r \<noteq> kind_lair \<Longrightarrow> co_id r \<in> fst ` set (tk_budgets t)"
    using ok by (elim conjE) simp
  show "c \<in> set (tk_combats t) \<Longrightarrow> d \<in> set (tk_combats t) \<Longrightarrow> cb_world c = cb_world d \<Longrightarrow>
      cb_ended c = None \<Longrightarrow> cb_ended d = None \<Longrightarrow> cb_id c = cb_id d"
    using ok [THEN conjunct2, THEN conjunct2, THEN conjunct1] by blast
  show "r \<in> set (tk_combatants t) \<Longrightarrow> co_combat r \<in> cb_id ` set (tk_combats t)"
    using ok by (elim conjE) blast
  show "c \<in> set (tk_combats t) \<Longrightarrow> cb_turn c = Some i \<Longrightarrow> \<exists>r \<in> set (tk_combatants t). co_id r = i \<and> co_combat r = cb_id c"
    using ok [THEN conjunct2, THEN conjunct2, THEN conjunct2, THEN conjunct2, THEN conjunct1] by blast
qed

lemmas ok_turns = tracker_okD(5)

text \<open>Statements that rewrite rows in place, keys untouched.\<close>

lemma ok_map:
  assumes ok: "tracker_ok t" and cs: "tk_combats t' = map g (tk_combats t)"
    and rs: "tk_combatants t' = map h (tk_combatants t)" and bs: "map fst (tk_budgets t') = map fst (tk_budgets t)"
    and g: "\<And>c. cb_id (g c) = cb_id c" "\<And>c. cb_world (g c) = cb_world c" "\<And>c. cb_ended (g c) = None \<Longrightarrow> cb_ended c = None"
    and h: "\<And>r. co_id (h r) = co_id r" "\<And>r. co_combat (h r) = co_combat r" "\<And>r. co_kind (h r) = co_kind r"
    and turn: "\<And>c i. c \<in> set (tk_combats t) \<Longrightarrow> cb_turn (g c) = Some i \<Longrightarrow>
      \<exists>r \<in> set (tk_combatants t). co_id r = i \<and> co_combat r = cb_id c"
  shows "tracker_ok t'"
proof (rule tracker_okI)
  show "distinct (map cb_id (tk_combats t'))" using tracker_okD(1) [OF ok] by (simp add: cs comp_def g)
  show "distinct (map co_id (tk_combatants t'))" using tracker_okD(2) [OF ok] by (simp add: rs comp_def h)
  show "distinct (map fst (tk_budgets t'))" using tracker_okD(6) [OF ok] by (simp add: bs)
  have keys: "fst ` set (tk_budgets t') = fst ` set (tk_budgets t)" using bs by (metis set_map)
  then show "fst ` set (tk_budgets t') \<subseteq> co_id ` set (tk_combatants t')"
    using tracker_okD(7) [OF ok] by (simp add: rs image_image h)
  fix r assume "r \<in> set (tk_combatants t')" "co_kind r \<noteq> kind_lair"
  then show "co_id r \<in> fst ` set (tk_budgets t')"
    using tracker_okD(8) [OF ok] unfolding keys rs by (auto simp: h)
next
  fix c d
  assume "c \<in> set (tk_combats t')" "d \<in> set (tk_combats t')" and w: "cb_world c = cb_world d" "cb_ended c = None" "cb_ended d = None"
  then obtain c0 d0 where "c0 \<in> set (tk_combats t)" "d0 \<in> set (tk_combats t)" "c = g c0" "d = g d0" by (auto simp: cs)
  then show "cb_id c = cb_id d" using tracker_okD(3) [OF ok, of c0 d0] w g by simp
next
  fix r assume "r \<in> set (tk_combatants t')"
  then show "co_combat r \<in> cb_id ` set (tk_combats t')"
    using tracker_okD(4) [OF ok] by (auto simp: rs cs image_image g h)
next
  fix c i assume "c \<in> set (tk_combats t')" "cb_turn c = Some i"
  then obtain c0 where "c0 \<in> set (tk_combats t)" "c = g c0" "cb_turn (g c0) = Some i" by (auto simp: cs)
  then show "\<exists>r \<in> set (tk_combatants t'). co_id r = i \<and> co_combat r = cb_id c"
    using turn by (fastforce simp: rs g h)
qed

lemma ok_update_combat:
  assumes "tracker_ok t"
    and "\<And>c. cb_id (f c) = cb_id c" and "\<And>c. cb_world (f c) = cb_world c" and "\<And>c. cb_ended (f c) = None \<Longrightarrow> cb_ended c = None"
    and "\<And>c i. c \<in> set (tk_combats t) \<Longrightarrow> cb_id c = combat \<Longrightarrow> cb_turn (f c) = Some i \<Longrightarrow> cb_turn c = Some i \<or>
      (\<exists>r \<in> set (tk_combatants t). co_id r = i \<and> co_combat r = combat)"
  shows "tracker_ok (update_combat combat f t)"
proof (rule ok_map [OF assms(1), where g = "\<lambda>c. if cb_id c = combat then f c else c" and h = "\<lambda>r. r"])
  fix c i
  assume c: "c \<in> set (tk_combats t)" "cb_turn (if cb_id c = combat then f c else c) = Some i"
  have "cb_turn c = Some i \<or> (\<exists>r \<in> set (tk_combatants t). co_id r = i \<and> co_combat r = cb_id c)"
    using c assms(5) by (cases "cb_id c = combat") auto
  then show "\<exists>r \<in> set (tk_combatants t). co_id r = i \<and> co_combat r = cb_id c"
    using assms(1) c(1) unfolding tracker_ok_def by blast
next
  fix c assume "cb_ended (if cb_id c = combat then f c else c) = None"
  then show "cb_ended c = None" using assms(4) by (cases "cb_id c = combat") auto
qed (simp_all add: update_combat_def assms(2,3))

lemma ok_update_combatant:
  assumes "tracker_ok t" and "\<And>c. co_id (f c) = co_id c" and "\<And>c. co_combat (f c) = co_combat c"
    and "\<And>c. co_kind (f c) = co_kind c"
  shows "tracker_ok (update_combatant_row combatant f t)"
proof (rule ok_map [OF assms(1), where g = "\<lambda>c. c" and h = "\<lambda>c. if co_id c = combatant then f c else c"])
qed (simp_all add: update_combatant_row_def assms(2-4) ok_turns [OF assms(1)])

lemma ok_record_event [simp]: "tracker_ok (record_event w c t) = tracker_ok t"
  by (simp add: tracker_ok_def record_event_def)

lemma ok_touch: "tracker_ok t \<Longrightarrow> tracker_ok (touch_and_broadcast rq c w t)"
  unfolding touch_and_broadcast_def ok_record_event by (rule ok_update_combat) auto

lemma ok_update_budget: assumes "tracker_ok t" shows "tracker_ok (update_budget combatant f t)"
proof (rule ok_map [OF assms, where g = "\<lambda>c. c" and h = "\<lambda>c. c"])
  show "map fst (tk_budgets (update_budget combatant f t)) = map fst (tk_budgets t)"
    by (auto simp: update_budget_def)
qed (simp_all add: update_budget_def ok_turns [OF assms])

lemma ok_create_budget:
  assumes ok: "tracker_ok t" and r: "r \<in> set (tk_combatants t)"
  shows "tracker_ok (create_budget (co_id r) p t)"
proof (cases "map_of (tk_budgets t) (co_id r)")
  case None
  then have eq: "create_budget (co_id r) p t = t\<lparr>tk_budgets := tk_budgets t @ [(co_id r, no_spend p)]\<rparr>"
    and no: "co_id r \<notin> fst ` set (tk_budgets t)" by (simp_all add: create_budget_def map_of_eq_None_iff)
  show ?thesis
    unfolding eq
  proof (rule tracker_okI, goal_cases)
    case (3 c d) then show ?case using tracker_okD(3) [OF ok, of c d] by simp
  next
    case (4 q) then show ?case using tracker_okD(4) [OF ok, of q] by simp
  next
    case (5 c i) then show ?case using ok_turns [OF ok, of c i] by simp
  next
    case 6 then show ?case using tracker_okD(6) [OF ok] no by simp
  next
    case 7 then show ?case using tracker_okD(7) [OF ok] r by simp
  next
    case (8 q) then show ?case using tracker_okD(8) [OF ok, of q] by simp
  qed (use tracker_okD(1,2) [OF ok] in simp_all)
qed (simp add: create_budget_def ok)

lemma ok_start_turn: "tracker_ok t \<Longrightarrow> r \<in> set (tk_combatants t) \<Longrightarrow> tracker_ok (start_turn_row (co_id r) t)"
  by (simp add: start_turn_row_def ok_create_budget ok_update_budget)

text \<open>A new combatant: a lair without a budget, a creature with one.\<close>

lemma ok_add_lair:
  assumes ok: "tracker_ok t" and new: "co_id row \<notin> co_id ` set (tk_combatants t)" and home: "co_combat row \<in> cb_id ` set (tk_combats t)"
    and budget: "co_kind row \<noteq> kind_lair \<Longrightarrow> bs = [(co_id row, sp)]" "co_kind row = kind_lair \<Longrightarrow> bs = []"
  shows "tracker_ok (t\<lparr>tk_combatants := tk_combatants t @ [row], tk_budgets := tk_budgets t @ bs\<rparr>)"
proof -
  have no: "co_id row \<notin> fst ` set (tk_budgets t)" using new tracker_okD(7) [OF ok] by blast
  have bs: "bs = [(co_id row, sp)] \<and> co_kind row \<noteq> kind_lair \<or> bs = [] \<and> co_kind row = kind_lair" using budget by blast
  show ?thesis
  proof (rule tracker_okI, goal_cases)
    case 2 then show ?case using tracker_okD(2) [OF ok] new by simp
  next
    case (3 c d) then show ?case using tracker_okD(3) [OF ok, of c d] by simp
  next
    case (4 r) then show ?case using tracker_okD(4) [OF ok, of r] home by auto
  next
    case (5 c i) then show ?case using ok_turns [OF ok, of c i] by auto
  next
    case 6 then show ?case using tracker_okD(6) [OF ok] no bs by (elim disjE) simp_all
  next
    case 7 then show ?case using tracker_okD(7) [OF ok] bs by (elim disjE) auto
  next
    case (8 r) then show ?case using tracker_okD(8) [OF ok, of r] bs by (elim disjE) auto
  qed (use tracker_okD(1) [OF ok] in simp)
qed

lemma ok_add:
  assumes ok: "tracker_ok t" and new: "co_id row \<notin> co_id ` set (tk_combatants t)" and home: "co_combat row \<in> cb_id ` set (tk_combats t)"
    and creature: "co_kind row \<noteq> kind_lair"
  shows "tracker_ok (create_budget (co_id row) p (t\<lparr>tk_combatants := tk_combatants t @ [row]\<rparr>))"
proof -
  have "co_id row \<notin> fst ` set (tk_budgets t)" using new tracker_okD(7) [OF ok] by blast
  then have "map_of (tk_budgets t) (co_id row) = None" by (simp add: map_of_eq_None_iff)
  then have "create_budget (co_id row) p (t\<lparr>tk_combatants := tk_combatants t @ [row]\<rparr>) =
      t\<lparr>tk_combatants := tk_combatants t @ [row], tk_budgets := tk_budgets t @ [(co_id row, no_spend p)]\<rparr>"
    by (simp add: create_budget_def)
  then show ?thesis using ok_add_lair [OF ok new home] creature by simp
qed

lemma ok_delete:
  assumes ok: "tracker_ok t" shows "tracker_ok (delete_combatant combatant t)"
proof -
  let ?g = "\<lambda>c. if cb_turn c = Some combatant then c\<lparr>cb_turn := None\<rparr> else c"
  have g: "cb_id (?g c) = cb_id c" "cb_world (?g c) = cb_world c" "cb_ended (?g c) = cb_ended c" for c by auto
  have budgets: "map fst (filter (\<lambda>(i, s). i \<noteq> combatant) bs) = filter (\<lambda>i. i \<noteq> combatant) (map fst bs)" for bs :: "(uuid \<times> spent) list"
    by (induction bs) auto
  show ?thesis
    unfolding delete_combatant_def
  proof (rule tracker_okI, goal_cases)
    case 1 then show ?case using tracker_okD(1) [OF ok] by (simp add: comp_def g)
  next
    case 2 then show ?case using tracker_okD(2) [OF ok] by (simp add: distinct_map_filter)
  next
    case (3 c d)
    then obtain c0 d0 where "c0 \<in> set (tk_combats t)" "d0 \<in> set (tk_combats t)" "c = ?g c0" "d = ?g d0" by auto
    then show ?case using 3 tracker_okD(3) [OF ok, of c0 d0] by (simp add: g)
  next
    case (4 r)
    have "cb_id ` set (map ?g (tk_combats t)) = cb_id ` set (tk_combats t)" by (simp only: set_map image_image g)
    then show ?case using 4 tracker_okD(4) [OF ok, of r] by simp
  next
    case (5 c i)
    then obtain c0 where c0: "c0 \<in> set (tk_combats t)" "c = ?g c0" by auto
    then have "cb_turn c0 = Some i" "i \<noteq> combatant" using 5(2) by (auto split: if_splits)
    then show ?case using ok_turns [OF ok c0(1)] c0(2) by (auto simp: g)
  next
    case 6 then show ?case using tracker_okD(6) [OF ok] by (simp add: budgets)
  next
    case 7
    have "fst ` set (filter (\<lambda>(i, s). i \<noteq> combatant) (tk_budgets t)) = fst ` set (tk_budgets t) - {combatant}" by force
    also have "\<dots> \<subseteq> co_id ` set (tk_combatants t) - {combatant}" using tracker_okD(7) [OF ok] by blast
    also have "\<dots> = co_id ` set (filter (\<lambda>c. co_id c \<noteq> combatant) (tk_combatants t))" by auto
    finally show ?case by simp
  next
    case (8 r)
    then show ?case using tracker_okD(8) [OF ok, of r] by (auto simp: image_iff)
  qed
qed

lemma combat_world_Inr: "combat_world t i = Inr c \<Longrightarrow> c \<in> set (tk_combats t) \<and> cb_id c = i"
  by (auto simp: combat_world_def find_Some_iff split: option.splits)

lemma find_combatant_Inr: "find_combatant t i = Inr r \<Longrightarrow> r \<in> set (tk_combatants t) \<and> co_id r = i"
  by (auto simp: find_combatant_def find_Some_iff split: option.splits)

lemma reload_state [simp]: "snd (reload rq combat t) = t"
  by (auto simp: reload_def split: sum.split)

lemma next_turn_bound: "next_turn xs h = Some (j, w) \<Longrightarrow> j < length xs"
  by (auto simp: next_turn_def try_offsets_find Let_def split: if_splits prod.splits)

text \<open>The row the turn goes to.\<close>

lemma next_row:
  assumes "next_turn_index (sort_combatants (rows_of t combat)) h = Some (j, w)"
  shows "sort_combatants (rows_of t combat) ! j \<in> set (tk_combatants t) \<and> co_combat (sort_combatants (rows_of t combat) ! j) = combat"
proof -
  let ?xs = "sort_combatants (rows_of t combat)"
  have "j < length ?xs" using next_turn_bound [of "map seat_of ?xs"] assms by (simp add: next_turn_index_def)
  then have "?xs ! j \<in> set ?xs" by (rule nth_mem)
  then show ?thesis by (simp add: rows_of_def)
qed

lemma ok_give_turn:
  assumes ok: "tracker_ok t" and r: "r \<in> set (tk_combatants t)" "co_combat r = combat"
    and f: "\<And>c. cb_id (f c) = cb_id c" "\<And>c. cb_world (f c) = cb_world c" "\<And>c. cb_ended (f c) = cb_ended c"
      "\<And>c. cb_turn (f c) = Some (co_id r)"
  shows "tracker_ok (start_turn_row (co_id r) (update_combat combat f t))"
proof (rule ok_start_turn)
  show "tracker_ok (update_combat combat f t)" by (rule ok_update_combat [OF ok]) (use r f in auto)
  show "r \<in> set (tk_combatants (update_combat combat f t))" using r by (simp add: update_combat_def)
qed

lemma ok_start_combat: "tracker_ok t \<Longrightarrow> tracker_ok (snd (start_combat rq w sc t))"
proof -
  assume ok: "tracker_ok t"
  let ?c = "\<lparr>cb_id = rq_fresh rq, cb_world = w, cb_scene = sc, cb_round = 1, cb_turn = None, cb_ended = None,
     cb_created_by = rq_user rq, cb_updated = rq_now rq, cb_auto_apply = None\<rparr>"
  have "tracker_ok (t\<lparr>tk_combats := tk_combats t @ [?c]\<rparr>)"
    if none: "find_active_combat t w = None" and new: "\<not> (\<exists>c \<in> set (tk_combats t). cb_id c = rq_fresh rq)"
  proof (rule tracker_okI, goal_cases)
    case 1 then show ?case using tracker_okD(1) [OF ok] new by auto
  next
    case (3 c d)
    have idle: "cb_ended e \<noteq> None" if "e \<in> set (tk_combats t)" "cb_world e = w" for e
      using none that by (auto simp: find_active_combat_def find_None_iff)
    have old: "e = ?c \<or> e \<in> set (tk_combats t)" if "e \<in> set (tk_combats (t\<lparr>tk_combats := tk_combats t @ [?c]\<rparr>))" for e
      using that by auto
    show ?case
    proof (cases "cb_world c = w")
      case True
      then have "c = ?c" "d = ?c" using old 3 idle by metis+
      then show ?thesis by simp
    next
      case False
      then have "c \<noteq> ?c" "d \<noteq> ?c" using 3(3) by auto
      then show ?thesis using 3 old tracker_okD(3) [OF ok, of c d] by blast
    qed
  next
    case (4 r) then show ?case using tracker_okD(4) [OF ok, of r] by auto
  next
    case (5 c i) then show ?case using ok_turns [OF ok, of c i] by auto
  qed (use tracker_okD [OF ok] in simp_all)
  then show ?thesis using ok by (simp add: start_combat_def Let_def split: option.split)
qed

lemma ok_add_combatant: "tracker_ok t \<Longrightarrow> tracker_ok (snd (add_combatant rq input t))"
proof -
  assume ok: "tracker_ok t"
  have "tracker_ok (create_budget (co_id row) p (t\<lparr>tk_combatants := tk_combatants t @ [row]\<rparr>))"
    if "combat_world t (ai_combat input) = Inr c" "co_combat row = ai_combat input" "\<not> (\<exists>r \<in> set (tk_combatants t). co_id r = co_id row)"
      "co_kind row = U ''creature''"
    for c row p
  proof (rule ok_add [OF ok])
    show "co_id row \<notin> co_id ` set (tk_combatants t)" using that(3) by auto
    have "c \<in> set (tk_combats t)" "cb_id c = co_combat row" using combat_world_Inr [OF that(1)] that(2) by simp_all
    then show "co_combat row \<in> cb_id ` set (tk_combats t)" by (metis imageI)
    show "co_kind row \<noteq> kind_lair" by (simp add: that(4) kind_lair_def)
  qed
  note fresh = this [where row = "\<lparr>co_id = i, co_combat = ai_combat input, co_actor = a, co_token = k, co_label = l,
      co_initiative = n, co_tiebreak = m, co_npc = b, co_active = True, co_updated = u, co_downed_by = None, co_kind = U ''creature''\<rparr>"
      for i a k l n m b u, simplified]
  show ?thesis using ok
    by (auto simp: add_combatant_def Let_def intro!: ok_touch fresh split: sum.split)
qed

lemma ok_update_when:
  "tracker_ok t \<Longrightarrow> (\<And>v c. co_id (f v c) = co_id c) \<Longrightarrow> (\<And>v c. co_combat (f v c) = co_combat c) \<Longrightarrow>
     (\<And>v c. co_kind (f v c) = co_kind c) \<Longrightarrow> tracker_ok (update_when i x f now t)"
  by (auto simp: update_when_def intro!: ok_update_combatant split: option.split)

lemma ok_update_combatant_handler: "tracker_ok t \<Longrightarrow> tracker_ok (snd (update_combatant rq input t))"
  by (auto simp: update_combatant_def Let_def intro!: ok_touch ok_update_when split: sum.split)

lemma ok_hand_off: "tracker_ok t \<Longrightarrow> tracker_ok (hand_off combat combatant t)"
proof (cases "next_turn_index (sort_combatants (rows_of t combat)) (Some combatant)")
  case None
  assume "tracker_ok t"
  then show ?thesis using None by (auto simp: hand_off_def intro!: ok_update_combat)
next
  case (Some p)
  assume ok: "tracker_ok t"
  obtain j w where p: "p = (j, w)" by (cases p)
  let ?r = "sort_combatants (rows_of t combat) ! j"
  have r: "?r \<in> set (tk_combatants t)" "co_combat ?r = combat" using next_row Some p by blast+
  show ?thesis
  proof (cases "co_id ?r = combatant")
    case True
    then show ?thesis using ok Some p by (auto simp: hand_off_def Let_def intro!: ok_update_combat)
  next
    case False
    then have "hand_off combat combatant t = start_turn_row (co_id ?r) (update_combat combat (\<lambda>c. c\<lparr>cb_turn := Some (co_id ?r)\<rparr>) t)"
      using Some p by (simp add: hand_off_def Let_def)
    then show ?thesis using ok_give_turn [OF ok r, where f = "\<lambda>c. c\<lparr>cb_turn := Some (co_id ?r)\<rparr>"] by simp
  qed
qed

lemma ok_remove_combatant: "tracker_ok t \<Longrightarrow> tracker_ok (snd (remove_combatant rq combatant t))"
  by (auto simp: remove_combatant_def Let_def intro!: ok_touch ok_delete ok_hand_off split: sum.split)

lemma ok_advance_turn: "tracker_ok t \<Longrightarrow> tracker_ok (snd (advance_turn rq combat t))"
proof -
  assume ok: "tracker_ok t"
  have "tracker_ok (start_turn_row (co_id (sort_combatants (rows_of t combat) ! j))
      (update_combat combat (\<lambda>c. c\<lparr>cb_turn := Some (co_id (sort_combatants (rows_of t combat) ! j)), cb_round := n\<rparr>) t))"
    if "next_turn_index (sort_combatants (rows_of t combat)) h = Some (j, w)" for h j w n
    using next_row [OF that] by (intro ok_give_turn [OF ok]) auto
  then show ?thesis using ok
    by (auto simp: advance_turn_def Let_def intro!: ok_touch split: sum.split option.split)
qed

lemma ok_end_combat: "tracker_ok t \<Longrightarrow> tracker_ok (snd (end_combat rq combat t))"
  by (auto simp: end_combat_def intro!: ok_touch ok_update_combat split: sum.split)

lemma ok_spend: "tracker_ok t \<Longrightarrow> tracker_ok (snd (spend_row i what t))"
proof (cases "\<exists>r \<in> set (tk_combatants t). co_id r = i")
  case True
  assume ok: "tracker_ok t"
  from True have "tracker_ok (create_budget i None t)" using ok_create_budget [OF ok] by blast
  then show ?thesis using ok by (auto simp: spend_row_def Let_def ok_update_budget split: option.split)
qed (simp add: spend_row_def)

lemma ok_add_lair_combatant: "tracker_ok t \<Longrightarrow> tracker_ok (snd (add_lair_combatant rq i name t))"
proof -
  assume ok: "tracker_ok t"
  have "tracker_ok (t\<lparr>tk_combatants := tk_combatants t @ [row]\<rparr>)"
    if "combat_world t i = Inr c" "co_combat row = i" "\<forall>r \<in> set (tk_combatants t). co_id r \<noteq> co_id row" "co_kind row = kind_lair" for c row
  proof -
    have "co_combat row \<in> cb_id ` set (tk_combats t)" using combat_world_Inr [OF that(1)] that(2) by (metis imageI)
    moreover have "co_id row \<notin> co_id ` set (tk_combatants t)" using that(3) by auto
    ultimately show ?thesis using ok_add_lair [OF ok, of row "[]"] that(4) by simp
  qed
  then show ?thesis using ok
    by (auto simp: add_lair_combatant_def Let_def intro!: ok_touch split: sum.split)
qed

lemma ok_auto_apply: "tracker_ok t \<Longrightarrow> tracker_ok (snd (set_combat_auto_apply rq i enabled t))"
  by (auto simp: set_combat_auto_apply_def intro!: ok_touch ok_update_combat split: sum.split)

lemma ok_deletes: "tracker_ok t \<Longrightarrow> tracker_ok (foldl (\<lambda>t c. delete_combatant (co_id c) t) t rs)"
  by (induction rs arbitrary: t) (simp_all add: ok_delete)

lemma deletes_rows:
  "tk_combatants (foldl (\<lambda>t c. delete_combatant (co_id c) t) t rs) = filter (\<lambda>c. co_id c \<notin> co_id ` set rs) (tk_combatants t)"
  by (induction rs arbitrary: t) (auto simp: delete_combatant_def intro: filter_cong)

lemma deletes_combats:
  "map cb_id (tk_combats (foldl (\<lambda>t c. delete_combatant (co_id c) t) t rs)) = map cb_id (tk_combats t) \<and>
   map cb_world (tk_combats (foldl (\<lambda>t c. delete_combatant (co_id c) t) t rs)) = map cb_world (tk_combats t)"
  by (induction rs arbitrary: t) (simp_all add: delete_combatant_def)

lemmas deletes_keep = deletes_rows deletes_combats [THEN conjunct1] deletes_combats [THEN conjunct2]

lemma ok_actor_deleted: "tracker_ok t \<Longrightarrow> tracker_ok (actor_deleted a t)"
  by (simp add: actor_deleted_def delete_combatants_def ok_deletes)

lemma ok_scene_deleted: assumes "tracker_ok t" shows "tracker_ok (scene_deleted sc t)"
proof (rule ok_map [OF assms, where g = "\<lambda>c. if cb_scene c = Some sc then c\<lparr>cb_scene := None\<rparr> else c" and h = "\<lambda>r. r"])
  fix c i assume "c \<in> set (tk_combats t)" "cb_turn (if cb_scene c = Some sc then c\<lparr>cb_scene := None\<rparr> else c) = Some i"
  then show "\<exists>r \<in> set (tk_combatants t). co_id r = i \<and> co_combat r = cb_id c"
    using ok_turns [OF assms, of c i] by (simp split: if_splits)
qed (auto simp: scene_deleted_def split: if_splits)

text \<open>With its combatants gone, a combat can go.\<close>

lemma ok_drop_combats:
  assumes ok: "tracker_ok t" and gone: "\<And>r. r \<in> set (tk_combatants t) \<Longrightarrow> \<exists>c \<in> set (tk_combats t). cb_id c = co_combat r \<and> P c"
  shows "tracker_ok (t\<lparr>tk_combats := filter P (tk_combats t)\<rparr>)"
proof (rule tracker_okI, goal_cases)
  case 1 then show ?case using tracker_okD(1) [OF ok] by (simp add: distinct_map_filter)
next
  case 2 then show ?case using tracker_okD(2) [OF ok] by simp
next
  case (3 c d) then show ?case using tracker_okD(3) [OF ok, of c d] by simp
next
  case (4 r) then show ?case using gone [of r] by (auto simp: rev_image_eqI)
next
  case (5 c i) then show ?case using ok_turns [OF ok, of c i] by simp
next
  case (8 r) then show ?case using tracker_okD(8) [OF ok, of r] by simp
qed (use tracker_okD(6,7) [OF ok] in simp_all)

lemma ok_world_deleted: assumes ok: "tracker_ok t" shows "tracker_ok (world_deleted w t)"
proof -
  let ?gone = "\<lambda>r. \<exists>c \<in> set (tk_combats t). cb_id c = co_combat r \<and> cb_world c = w"
  define t1 where "t1 = delete_combatants ?gone t"
  have ok1: "tracker_ok t1" using ok_deletes [OF ok] by (simp add: t1_def delete_combatants_def)
  have keep: "map cb_id (tk_combats t1) = map cb_id (tk_combats t)" "map cb_world (tk_combats t1) = map cb_world (tk_combats t)"
    by (simp_all add: t1_def delete_combatants_def deletes_keep)
  have "\<exists>c \<in> set (tk_combats t1). cb_id c = co_combat r \<and> cb_world c \<noteq> w" if r: "r \<in> set (tk_combatants t1)" for r
  proof -
    obtain c1 where c1: "c1 \<in> set (tk_combats t1)" "cb_id c1 = co_combat r" using tracker_okD(4) [OF ok1 r] by auto
    then obtain n where n: "n < length (tk_combats t1)" "c1 = tk_combats t1 ! n" by (metis in_set_conv_nth)
    have len: "length (tk_combats t1) = length (tk_combats t)" using keep(1) by (metis length_map)
    have same: "cb_id c1 = cb_id (tk_combats t ! n)" "cb_world c1 = cb_world (tk_combats t ! n)"
      using keep n len by (metis nth_map)+
    have "r \<in> set (tk_combatants t)" "\<not> ?gone r"
      using r by (auto simp: t1_def delete_combatants_def deletes_keep)
    then have "cb_world c1 \<noteq> w" using same c1(2) n(1) len nth_mem by metis
    then show ?thesis using c1 by blast
  qed
  from ok_drop_combats [OF ok1 this] show ?thesis by (simp add: world_deleted_def t1_def Let_def)
qed

lemma ok_follow_zero: "tracker_ok t \<Longrightarrow> tracker_ok (snd (follow_zero_rows rq w tok act current t))"
proof (cases "find_active_combat t w")
  case (Some combat)
  assume ok: "tracker_ok t"
  have rows: "tracker_ok (t\<lparr>tk_combatants := map h (tk_combatants t)\<rparr>)"
    if "\<And>r. co_id (h r) = co_id r" "\<And>r. co_combat (h r) = co_combat r" "\<And>r. co_kind (h r) = co_kind r" for h
    by (rule ok_map [OF ok, where g = "\<lambda>c. c" and h = h]) (simp_all add: that ok_turns [OF ok])
  have touched: "tracker_ok (update_combat i (\<lambda>c. c\<lparr>cb_updated := n\<rparr>) u)" if "tracker_ok u" for i n u
    by (rule ok_update_combat [OF that]) auto
  show ?thesis
    using ok by (simp add: follow_zero_rows_def Let_def Some touched rows)
qed (simp add: follow_zero_rows_def)

text \<open>Everything the server can have done to its tracker: each statement of its Rust code that writes to these
  tables is in one of these, and so is what their foreign keys do.\<close>

definition no_combats :: tracker where
  "no_combats = \<lparr>tk_combats = [], tk_combatants = [], tk_budgets = [], tk_events = []\<rparr>"

inductive served :: "tracker \<Rightarrow> bool" where
  nothing: "served no_combats"
| started: "served t \<Longrightarrow> served (snd (start_combat rq w sc t))"
| added: "served t \<Longrightarrow> served (snd (add_combatant rq input t))"
| updated: "served t \<Longrightarrow> served (snd (update_combatant rq change t))"
| removed: "served t \<Longrightarrow> served (snd (remove_combatant rq combatant t))"
| advanced: "served t \<Longrightarrow> served (snd (advance_turn rq combat t))"
| ended: "served t \<Longrightarrow> served (snd (end_combat rq combat t))"
| spent: "served t \<Longrightarrow> served (snd (spend_row combatant what t))"
| hurt_or_healed: "served t \<Longrightarrow> served (snd (follow_zero_rows rq w tok linked_actor current t))"
| lair_added: "served t \<Longrightarrow> served (snd (add_lair_combatant rq combat name t))"
| auto_apply_set: "served t \<Longrightarrow> served (snd (set_combat_auto_apply rq combat enabled t))"
| actor_gone: "served t \<Longrightarrow> served (actor_deleted a t)"
| world_gone: "served t \<Longrightarrow> served (world_deleted w t)"
| scene_gone: "served t \<Longrightarrow> served (scene_deleted sc t)"

lemmas handlers_ok = ok_start_combat ok_add_combatant ok_update_combatant_handler ok_remove_combatant ok_advance_turn
  ok_end_combat ok_spend ok_follow_zero ok_add_lair_combatant ok_auto_apply ok_actor_deleted ok_world_deleted ok_scene_deleted

lemma no_combats_ok: "tracker_ok no_combats"
  by (simp add: tracker_ok_def no_combats_def)

lemma served_ok: "served t \<Longrightarrow> tracker_ok t"
  by (induction rule: served.induct) (rule no_combats_ok handlers_ok; assumption?)+

text \<open>A combatant is out exactly when something is recorded to have taken it out.\<close>

definition accounted :: "combatant_row \<Rightarrow> bool" where
  "accounted c \<longleftrightarrow> (co_active c \<longleftrightarrow> co_downed_by c = None) \<and>
     co_downed_by c \<in> {None, Some downed_by_hit_points, Some downed_by_game_master}"

definition all_accounted :: "tracker \<Rightarrow> bool" where
  "all_accounted t = list_all accounted (tk_combatants t)"

lemma accounted_statements [simp]:
  "all_accounted (update_combat i f t) = all_accounted t" "all_accounted (record_event w i t) = all_accounted t"
  "all_accounted (touch_and_broadcast rq i w t) = all_accounted t" "all_accounted (create_budget i p t) = all_accounted t"
  "all_accounted (update_budget i g t) = all_accounted t" "all_accounted (start_turn_row i t) = all_accounted t"
  "all_accounted (hand_off j i t) = all_accounted t"
  by (simp_all add: all_accounted_def update_combat_def record_event_def touch_and_broadcast_def create_budget_def
    update_budget_def start_turn_row_def hand_off_def Let_def split: option.split)

lemma accounted_map: "all_accounted t \<Longrightarrow> (\<And>c. accounted c \<Longrightarrow> accounted (h c)) \<Longrightarrow>
    all_accounted (t\<lparr>tk_combatants := map h (tk_combatants t)\<rparr>)"
  by (simp add: all_accounted_def list_all_iff)

lemma accounted_updated [simp]: "accounted (c\<lparr>co_updated := u\<rparr>) = accounted c"
  by (simp add: accounted_def)

lemma accounted_update_when:
  assumes "all_accounted t" and "\<And>v c. accounted c \<Longrightarrow> accounted (f v c)"
  shows "all_accounted (update_when i x f now t)"
proof (cases x)
  case (Some v)
  have "accounted (if co_id c = i then (f v c)\<lparr>co_updated := now\<rparr> else c)" if "accounted c" for c
    using assms(2) [OF that] that by simp
  then show ?thesis using accounted_map [OF assms(1)] Some by (simp add: update_when_def update_combatant_row_def)
qed (simp add: update_when_def assms(1))

lemma accounted_changes:
  "accounted c \<Longrightarrow> accounted (c\<lparr>co_initiative := v\<rparr>)" "accounted c \<Longrightarrow> accounted (c\<lparr>co_tiebreak := v\<rparr>)"
  "accounted c \<Longrightarrow> accounted (c\<lparr>co_label := l\<rparr>)"
  "accounted (c\<lparr>co_active := up, co_downed_by := (if up then None else Some downed_by_game_master)\<rparr>)"
  "accounted (c\<lparr>co_active := False, co_downed_by := Some downed_by_hit_points\<rparr>)" "accounted (c\<lparr>co_active := True, co_downed_by := None\<rparr>)"
  by (auto simp: accounted_def)

lemma accounted_handlers:
  assumes "all_accounted t"
  shows "all_accounted (snd (start_combat rq w sc t))" "all_accounted (snd (add_combatant rq input t))"
    "all_accounted (snd (update_combatant rq change t))" "all_accounted (snd (remove_combatant rq combatant t))"
    "all_accounted (snd (advance_turn rq combat t))" "all_accounted (snd (end_combat rq combat t))"
    "all_accounted (snd (spend_row combatant what t))" "all_accounted (snd (follow_zero_rows rq w tok act current t))"
    "all_accounted (snd (add_lair_combatant rq combat name t))" "all_accounted (snd (set_combat_auto_apply rq combat enabled t))"
    "all_accounted (actor_deleted a t)" "all_accounted (world_deleted w t)" "all_accounted (scene_deleted place t)"
proof -
  show "all_accounted (snd (add_lair_combatant rq combat name t))"
    using assms by (simp add: add_lair_combatant_def Let_def split: sum.split) (simp add: all_accounted_def accounted_def)
  show "all_accounted (snd (set_combat_auto_apply rq combat enabled t))"
    using assms by (simp add: set_combat_auto_apply_def split: sum.split)
  show "all_accounted (actor_deleted a t)" "all_accounted (world_deleted w t)" "all_accounted (scene_deleted place t)"
    using assms by (simp_all add: actor_deleted_def world_deleted_def scene_deleted_def delete_combatants_def Let_def
      all_accounted_def deletes_keep list_all_iff)
  show "all_accounted (snd (start_combat rq w sc t))"
    using assms by (simp add: start_combat_def Let_def split: option.split) (simp add: all_accounted_def)
  show "all_accounted (snd (add_combatant rq input t))"
    using assms by (simp add: add_combatant_def Let_def split: sum.split) (simp add: all_accounted_def accounted_def)
  show "all_accounted (snd (update_combatant rq change t))"
    using assms by (auto simp: update_combatant_def Let_def simp del: if_split intro!: accounted_update_when accounted_changes split: sum.split if_split_asm)
  have "all_accounted (delete_combatant combatant u)" if "all_accounted u" for u
    using that by (auto simp: all_accounted_def delete_combatant_def list_all_iff)
  then show "all_accounted (snd (remove_combatant rq combatant t))"
    using assms by (auto simp: remove_combatant_def Let_def split: sum.split)
  show "all_accounted (snd (advance_turn rq combat t))"
    using assms by (auto simp: advance_turn_def Let_def split: sum.split option.split)
  show "all_accounted (snd (end_combat rq combat t))"
    using assms by (auto simp: end_combat_def split: sum.split)
  show "all_accounted (snd (spend_row combatant what t))"
    using assms by (auto simp: spend_row_def Let_def split: option.split)
  show "all_accounted (snd (follow_zero_rows rq w tok act current t))"
  proof (cases "find_active_combat t w")
    case (Some combat)
    have "all_accounted (t\<lparr>tk_combatants := map (\<lambda>c. if P c
        then if current \<le> 0 then c\<lparr>co_active := False, co_downed_by := Some downed_by_hit_points, co_updated := rq_now rq\<rparr>
          else c\<lparr>co_active := True, co_downed_by := None, co_updated := rq_now rq\<rparr>
        else c) (tk_combatants t)\<rparr>)" for P
      by (rule accounted_map [OF assms]) (simp add: accounted_def)
    then show ?thesis by (simp add: follow_zero_rows_def Let_def Some)
  qed (simp add: follow_zero_rows_def assms)
qed

lemma served_accounted: "served t \<Longrightarrow> all_accounted t"
  by (induction rule: served.induct) (simp add: all_accounted_def no_combats_def, (rule accounted_handlers; assumption)+)

text \<open>C7: whatever requests came, whoever made them, refused or not, the tracker's tables stay sound: a
  world never has two running combats, the turn is never held by a combatant that is gone or of
  another combat, every creature in it has one budget and nobody two, and a combatant is out of the fight exactly when
  its row says whether its hit points or the Game Master took it out.\<close>

theorem tracker_stays_sound:
  assumes "served t"
  shows "tracker_ok t \<and> all_accounted t"
  using served_ok [OF assms] served_accounted [OF assms] by (rule conjI)

text \<open>C27: the rows of the tracker follow a creature's hit points by the shared rule, the one the browser's
  demo uses: in the running combat of its world the creature's combatants stand as
  \<open>standing_after\<close> says, everybody else as before, and the combat is reported exactly when
  somebody's standing changed.\<close>

theorem rows_follow_the_rule:
  assumes "find_active_combat t w = Some combat"
    and stands: "stands = (\<lambda>c. if co_combat c = cb_id combat \<and> is_this_creature tok linked_actor c
      then standing_after current (co_active c) (co_downed_by c) else None)"
  shows "map (\<lambda>c. (co_id c, co_active c, co_downed_by c)) (tk_combatants (snd (follow_zero_rows rq w tok linked_actor current t))) =
      map (\<lambda>c. (co_id c, case stands c of None \<Rightarrow> (co_active c, co_downed_by c) | Some s \<Rightarrow> s)) (tk_combatants t) \<and>
    fst (follow_zero_rows rq w tok linked_actor current t) =
      (if \<exists>c \<in> set (tk_combatants t). stands c \<noteq> None then Some (cb_id combat) else None)"
  using assms(1) by (auto simp: stands follow_zero_rows_def standing_after_def Let_def update_combat_def)

definition the_gm :: request where
  "the_gm = \<lparr>rq_user = 1, rq_runs = (\<lambda>w. w = 5), rq_paused = (\<lambda>w. False), rq_now = 9, rq_fresh = 40,
     rq_readable = (\<lambda>k. False), rq_per_round = (\<lambda>w k a. None)\<rparr>"

lemma tracker_stays_sound_witness:
  "tracker_ok (snd (start_combat the_gm 5 None no_combats)) \<and> all_accounted (snd (start_combat the_gm 5 None no_combats))"
  by (rule tracker_stays_sound) (rule served.started, rule served.nothing)


section \<open>Rounds of a running fight\<close>

lemma combat_world_update:
  assumes "\<And>c. cb_id (f c) = cb_id c" and "combat_world t i = Inr c"
  shows "combat_world (update_combat i f t) i = Inr (f c)"
proof -
  have "find (\<lambda>c. cb_id c = i) (map (\<lambda>c. if cb_id c = i then f c else c) cs) = map_option f (find (\<lambda>c. cb_id c = i) cs)" for cs
    by (induction cs) (auto simp: assms(1))
  then show ?thesis using assms(2) by (auto simp: combat_world_def update_combat_def split: option.splits)
qed

lemma combat_world_cong: "tk_combats s = tk_combats t \<Longrightarrow> combat_world s i = combat_world t i"
  by (simp add: combat_world_def)

text \<open>What the statements leave alone.\<close>

lemma statements_keep [simp]:
  "tk_combats (create_budget i p t) = tk_combats t" "tk_combatants (create_budget i p t) = tk_combatants t"
  "tk_combats (update_budget i g t) = tk_combats t" "tk_combatants (update_budget i g t) = tk_combatants t"
  "tk_combats (start_turn_row i t) = tk_combats t" "tk_combatants (start_turn_row i t) = tk_combatants t"
  "tk_combats (record_event w i t) = tk_combats t" "tk_combatants (record_event w i t) = tk_combatants t"
  "tk_combatants (update_combat i f t) = tk_combatants t"
  "tk_combatants (touch_and_broadcast rq i w t) = tk_combatants t"
  by (simp_all add: create_budget_def update_budget_def start_turn_row_def record_event_def update_combat_def touch_and_broadcast_def)

lemma combat_world_touch:
  "combat_world t i = Inr c \<Longrightarrow> combat_world (touch_and_broadcast rq i w t) i = Inr (c\<lparr>cb_updated := rq_now rq\<rparr>)"
  unfolding touch_and_broadcast_def
  by (subst combat_world_cong [where t = "update_combat i (\<lambda>c. c\<lparr>cb_updated := rq_now rq\<rparr>) t"]) (simp_all add: combat_world_update)

text \<open>The seats of a combat, in turn order, and the state the turn is in.\<close>

definition seats_of :: "tracker \<Rightarrow> uuid \<Rightarrow> uuid seat list" where
  "seats_of t combat = map seat_of (sort_combatants (rows_of t combat))"

definition may_run :: "request \<Rightarrow> combat_row \<Rightarrow> bool" where
  "may_run rq c \<longleftrightarrow> rq_runs rq (cb_world c) \<and> \<not> rq_paused rq (cb_world c)"

lemma seats_distinct: "tracker_ok t \<Longrightarrow> distinct (map seat_id (seats_of t i))"
  using sort_combatants_distinct [of "rows_of t i"] tracker_okD(2) [of t]
  by (simp add: seats_of_def comp_def rows_of_def distinct_map_filter)

lemma next_seat_None:
  assumes "distinct (map seat_id xs)" and "next_seat xs h = None"
  shows "filter is_active xs = []"
proof (cases "\<exists>i. h = Some i \<and> i \<in> seat_id ` set xs")
  case True
  then obtain s where s: "h = Some (seat_id s)" "s \<in> set xs" by auto
  then obtain before after where xs: "xs = before @ s # after" by (auto dest: split_list)
  then show ?thesis
    using next_seat_after [OF xs assms(1)] assms(2) s(1)
    by (auto simp: find_append find_None split: option.splits if_splits)
next
  case False
  then have "next_seat xs h = map_option (\<lambda>c. (c, False)) (find is_active xs)" by (intro next_seat_enter) auto
  then show ?thesis using assms(2) by (simp add: find_None)
qed

lemma advance_passes_turn:
  assumes ok: "tracker_ok t" and c: "combat_world t i = Inr c" "may_run rq c" "cb_ended c = None"
    and pass: "pass_turn (seats_of t i) (cb_turn c, cb_round c) = (h, r)" "filter is_active (seats_of t i) \<noteq> []"
    and small: "is_i32 r"
  shows "combat_world (snd (advance_turn rq i t)) i = Inr (c\<lparr>cb_turn := h, cb_round := r, cb_updated := rq_now rq\<rparr>) \<and>
    tk_combatants (snd (advance_turn rq i t)) = tk_combatants t"
proof (cases "next_turn_index (sort_combatants (rows_of t i)) (cb_turn c)")
  case None
  then have "next_seat (seats_of t i) (cb_turn c) = None" by (simp add: next_seat_def next_turn_index_def seats_of_def)
  then show ?thesis using pass(2) next_seat_None [OF seats_distinct [OF ok]] by blast
next
  case (Some p)
  obtain j w where p: "p = (j, w)" by (cases p)
  let ?xs = "sort_combatants (rows_of t i)"
  have "j < length ?xs" using next_turn_bound [of "map seat_of ?xs"] Some p by (simp add: next_turn_index_def)
  then have hr: "h = Some (co_id (?xs ! j))" "r = (if w then cb_round c + 1 else cb_round c)"
    using pass(1) Some p by (simp_all add: pass_turn_def next_turn_index_def seats_of_def)
  have r: "(if w then wrap_i32 (cb_round c + 1) else cb_round c) = r" using hr(2) small by auto
  define t1 where "t1 = start_turn_row (co_id (?xs ! j)) (update_combat i (\<lambda>c'. c'\<lparr>cb_turn := h, cb_round := r\<rparr>) t)"
  have step: "snd (advance_turn rq i t) = touch_and_broadcast rq i (cb_world c) t1"
    using c Some p by (simp add: advance_turn_def may_run_def Let_def r hr(1) [symmetric] t1_def)
  have "combat_world (update_combat i (\<lambda>c'. c'\<lparr>cb_turn := h, cb_round := r\<rparr>) t) i = Inr (c\<lparr>cb_turn := h, cb_round := r\<rparr>)"
    using c(1) by (simp add: combat_world_update)
  then have "combat_world t1 i = Inr (c\<lparr>cb_turn := h, cb_round := r\<rparr>)"
    unfolding t1_def by (subst combat_world_cong [OF statements_keep(5)])
  then show ?thesis unfolding step by (simp add: combat_world_touch t1_def)
qed

text \<open>Advancing again and again.\<close>

definition advances :: "request \<Rightarrow> uuid \<Rightarrow> nat \<Rightarrow> tracker \<Rightarrow> tracker" where
  "advances rq i k = (\<lambda>t. snd (advance_turn rq i t)) ^^ k"

lemma advances_pass_turns:
  assumes ok: "tracker_ok t" and c: "combat_world t i = Inr c" "may_run rq c" "cb_ended c = None" "cb_turn c = None"
    and order: "filter is_active (seats_of t i) \<noteq> []"
    and small: "is_i32 (cb_round c)" "is_i32 (cb_round c + int (k div length (filter is_active (seats_of t i))))"
  shows "combat_world (advances rq i (Suc k) t) i =
      Inr (c\<lparr>cb_turn := fst ((pass_turn (seats_of t i) ^^ Suc k) (None, cb_round c)),
             cb_round := snd ((pass_turn (seats_of t i) ^^ Suc k) (None, cb_round c)), cb_updated := rq_now rq\<rparr>) \<and>
    tk_combatants (advances rq i (Suc k) t) = tk_combatants t \<and> tracker_ok (advances rq i (Suc k) t)"
  using small(2)
proof (induction k)
  case 0
  obtain h r where p: "pass_turn (seats_of t i) (cb_turn c, cb_round c) = (h, r)" by (metis surj_pair)
  have "r = cb_round c"
    using p turns_of_the_round [OF seats_distinct [OF ok, of i] order, of 0 "cb_round c"] c(4) by simp
  then show ?case
    using advance_passes_turn [OF ok c(1-3) p order] small(1) p ok_advance_turn [OF ok] c(4) by (simp add: advances_def)
next
  case (Suc k)
  let ?xs = "seats_of t i" and ?s = "advances rq i (Suc k) t"
  let ?n = "length (filter is_active ?xs)" and ?q = "(pass_turn ?xs ^^ Suc k) (None, cb_round c)"
  have bound: "is_i32 (cb_round c + int (k div ?n))"
    using small(1) Suc.prems div_le_mono [of k "Suc k" ?n] unfolding is_i32_def by linarith
  note IH = Suc.IH [OF bound]
  have xs: "seats_of ?s i = ?xs" using IH by (simp add: seats_of_def rows_of_def)
  let ?d = "c\<lparr>cb_turn := fst ?q, cb_round := snd ?q, cb_updated := rq_now rq\<rparr>"
  obtain h r where p: "pass_turn ?xs ?q = (h, r)" by (metis surj_pair)
  then have q: "(pass_turn ?xs ^^ Suc (Suc k)) (None, cb_round c) = (h, r)" by simp
  then have r: "r = cb_round c + int (Suc k div ?n)"
    using turns_of_the_round [OF seats_distinct [OF ok, of i] order, of "Suc k" "cb_round c"] by simp
  have "combat_world (snd (advance_turn rq i ?s)) i = Inr (?d\<lparr>cb_turn := h, cb_round := r, cb_updated := rq_now rq\<rparr>) \<and>
      tk_combatants (snd (advance_turn rq i ?s)) = tk_combatants ?s"
    by (rule advance_passes_turn) (use IH c p order r Suc.prems in \<open>simp_all add: may_run_def xs\<close>)
  then show ?case
    unfolding q using IH ok_advance_turn [of ?s rq i] by (simp add: advances_def)
qed

text \<open>C10: once started, a fight goes round. Take a combat that has not ended and in which nobody holds the turn
  yet, with some combatant active, in tables that are sound, and let someone who runs its world, whose play is not
  paused, advance the turn again and again. Each request succeeds, and \<open>k\<close> advances after the first the turn is
  held by the \<open>k\<close>-th active combatant of the initiative order, counting from nought and round again past the end,
  the round having grown by one for each time through, as long as it stays within 32 bits.\<close>

theorem fight_goes_round:
  assumes "tracker_ok t" and "combat_world t i = Inr c" and "may_run rq c" and "cb_ended c = None" and "cb_turn c = None"
    and active: "filter co_active (sort_combatants (rows_of t i)) = order" "order \<noteq> []"
    and "is_i32 (cb_round c)" and "is_i32 (cb_round c + int (k div length order))"
  shows "\<exists>d. combat_world (advances rq i (Suc k) t) i = Inr d \<and>
    cb_turn d = Some (co_id (order ! (k mod length order))) \<and> cb_round d = cb_round c + int (k div length order)"
proof -
  have act: "filter is_active (seats_of t i) = map seat_of order"
    unfolding seats_of_def active(1) [symmetric] by (induction "sort_combatants (rows_of t i)") (simp_all add: filter_map comp_def)
  have "k mod length order < length order" using active(2) by simp
  moreover have "(pass_turn (seats_of t i) ^^ Suc k) (None, cb_round c) =
      (Some (seat_id (map seat_of order ! (k mod length order))), cb_round c + int (k div length order))"
    using turns_of_the_round [OF seats_distinct [OF assms(1)], of i k "cb_round c"] active(2) act by simp
  ultimately show ?thesis
    using advances_pass_turns [OF assms(1-5), of k] assms(8,9) active(2) act by simp
qed


definition skirmish :: "uuid option \<Rightarrow> tracker" where
  "skirmish turn = \<lparr>
     tk_combats = [\<lparr>cb_id = 40, cb_world = 5, cb_scene = None, cb_round = 1, cb_turn = turn, cb_ended = None,
                    cb_created_by = 1, cb_updated = 0, cb_auto_apply = None\<rparr>],
     tk_combatants = map (\<lambda>(i, n, up). \<lparr>co_id = i, co_combat = 40, co_actor = None, co_token = Some i, co_label = [],
                    co_initiative = n, co_tiebreak = 0, co_npc = True, co_active = up, co_updated = 0,
                    co_downed_by = None, co_kind = []\<rparr>) [(7, 12, True), (3, 12, False), (9, 17, True)],
     tk_budgets = map (\<lambda>i. (i, no_spend None)) [7, 3, 9],
     tk_events = []\<rparr>"

lemma compare_by_row [simp]: "compare by_row a b = turn_order (seat_of a) (seat_of b)"
  by (simp add: by_row.rep_eq)

lemma skirmish_ok: "turn \<in> {None, Some 7, Some 9} \<Longrightarrow> tracker_ok (skirmish turn)"
  by (auto simp: tracker_ok_def skirmish_def)

lemma rows_follow_the_rule_witness:
  "fst (follow_zero_rows the_gm 5 7 None 0 (skirmish None)) = Some 40 \<and>
   map (\<lambda>c. (co_id c, co_active c, co_downed_by c)) (tk_combatants (snd (follow_zero_rows the_gm 5 7 None 0 (skirmish None)))) =
     [(7, False, Some downed_by_hit_points), (3, False, None), (9, True, None)]"
proof -
  have "find_active_combat (skirmish None) 5 = Some (hd (tk_combats (skirmish None)))"
    by (simp add: find_active_combat_def skirmish_def)
  note follows = rows_follow_the_rule [OF this refl, where tok = 7 and linked_actor = None and current = 0 and rq = the_gm]
  show ?thesis unfolding follows [THEN conjunct1] follows [THEN conjunct2] by (simp add: skirmish_def standing_after_def is_this_creature_def ex_bool_eq)
qed

lemma fight_goes_round_witness:
  "\<exists>d. combat_world (advances the_gm 40 (Suc 3) (skirmish None)) 40 = Inr d \<and> cb_turn d = Some 7 \<and> cb_round d = 2"
proof -
  let ?row = "\<lambda>i n. \<lparr>co_id = i, co_combat = 40, co_actor = None, co_token = Some i, co_label = [], co_initiative = n, co_tiebreak = 0,
     co_npc = True, co_active = True, co_updated = 0, co_downed_by = None, co_kind = []\<rparr>"
  have active: "filter co_active (sort_combatants (rows_of (skirmish None) 40)) = [?row 9 17, ?row 7 12]"
    by (simp add: skirmish_def rows_of_def sort_combatants_def seat_of_def turn_order_def cmp_of_def)
  have "length [?row 9 17, ?row 7 12] = 2" by simp
  then have two: "3 mod length [?row 9 17, ?row 7 12] = 1" "3 div length [?row 9 17, ?row 7 12] = 1" by presburger+
  have fight: "combat_world (skirmish None) 40 = Inr (hd (tk_combats (skirmish None)))"
    by (simp add: combat_world_def skirmish_def)
  have "\<exists>d. combat_world (advances the_gm 40 (Suc 3) (skirmish None)) 40 = Inr d \<and>
      cb_turn d = Some (co_id ([?row 9 17, ?row 7 12] ! 1)) \<and> cb_round d = cb_round (hd (tk_combats (skirmish None))) + int 1"
    by (rule fight_goes_round [where k = 3 and order = "[?row 9 17, ?row 7 12]", OF skirmish_ok fight _ _ _ active, unfolded two])
      (simp_all add: may_run_def the_gm_def skirmish_def is_i32_def int_limits)
  then show ?thesis by (simp add: skirmish_def del: funpow.simps)
qed

section \<open>Removing whoever holds the turn\<close>

lemma find_is_mem: "find P xs = Some x \<Longrightarrow> x \<in> set xs"
  by (auto simp: find_Some_iff)

lemma find_seat: "find is_active (map seat_of rows) = map_option seat_of (find co_active rows)"
  by (induction rows) auto

lemma next_turn_index_seat:
  "map_option (\<lambda>(j, w). co_id (xs ! j)) (next_turn_index xs h) = map_option (\<lambda>(s, w). seat_id s) (next_seat (map seat_of xs) h)"
  using next_turn_bound [of "map seat_of xs" h]
  by (cases "next_turn (map seat_of xs) h") (auto simp: next_turn_index_def next_seat_def)

lemma other_id: "distinct (map co_id (before @ row # after)) \<Longrightarrow> r \<in> set (after @ before) \<Longrightarrow> co_id r \<noteq> co_id row"
  by (auto simp: image_iff)

lemma hand_off_successor:
  assumes d: "distinct (map co_id (before @ row # after))" and sorted: "sort_combatants (rows_of t i) = before @ row # after"
  shows "tk_combatants (hand_off i (co_id row) t) = tk_combatants t \<and>
    tk_combats (hand_off i (co_id row) t) =
      tk_combats (update_combat i (\<lambda>c. c\<lparr>cb_turn := map_option co_id (find co_active (after @ before))\<rparr>) t)"
proof -
  let ?xs = "before @ row # after"
  let ?heir = "case next_turn_index ?xs (Some (co_id row)) of
      None \<Rightarrow> None | Some (idx, _) \<Rightarrow> (let j = co_id (?xs ! idx) in if j = co_id row then None else Some j)"
  let ?who = "map_option (\<lambda>(s, w). seat_id s) (next_seat (map seat_of ?xs) (Some (co_id row)))"
  have heir: "?heir = Option.bind ?who (\<lambda>j. if j = co_id row then None else Some j)"
    unfolding next_turn_index_seat [symmetric]
    by (simp add: Let_def split: option.split)
  have other: "co_id r \<noteq> co_id row" if "find co_active after = Some r \<or> find co_active before = Some r" for r
    using that other_id [OF d] find_is_mem [of co_active after r] find_is_mem [of co_active before r] by auto
  have "next_seat (map seat_of ?xs) (Some (seat_id (seat_of row))) =
      (case find is_active (map seat_of after) of Some c \<Rightarrow> Some (c, False)
       | None \<Rightarrow> map_option (\<lambda>c. (c, True)) (find is_active (map seat_of before @ [seat_of row])))"
    by (rule next_seat_after) (use d in \<open>simp_all add: comp_def\<close>)
  then have who: "?who = (case find co_active after of Some r \<Rightarrow> Some (co_id r) | None \<Rightarrow>
      (case find co_active before of Some r \<Rightarrow> Some (co_id r) | None \<Rightarrow> if co_active row then Some (co_id row) else None))"
    by (simp add: find_seat find_append split: option.split)
  have "?heir = map_option co_id (find co_active (after @ before))"
    unfolding heir who by (simp add: find_append other split: option.split)
  then show ?thesis
    by (simp add: hand_off_def sorted Let_def update_combat_def split: option.split)
qed

lemma find_drop_turn:
  assumes "combat_world t i = Inr c" and "cb_turn c \<noteq> Some j"
  shows "combat_world (delete_combatant j t) i = Inr c"
proof -
  let ?g = "\<lambda>c. if cb_turn c = Some j then c\<lparr>cb_turn := None\<rparr> else c"
  have g: "find (\<lambda>c. cb_id c = i) (map ?g cs) = map_option ?g (find (\<lambda>c. cb_id c = i) cs)" for cs by (induction cs) auto
  have "find (\<lambda>c. cb_id c = i) (tk_combats t) = Some c" using assms(1) by (simp add: combat_world_def split: option.splits)
  then have "find (\<lambda>c. cb_id c = i) (map ?g (tk_combats t)) = Some c" unfolding g using assms(2) by simp
  moreover have "tk_combats (delete_combatant j t) = map ?g (tk_combats t)" by (simp add: delete_combatant_def)
  ultimately show ?thesis unfolding combat_world_def by (simp only: option.case)
qed

text \<open>C22: removing the combatant who holds the turn hands the turn to the next active combatant after it in
  the initiative order, starting over from the top past the end, and to nobody when there is no
  other; the combatant is gone from the fight; and the round stays what it was, also when the turn
  has started over from the top.\<close>

theorem removing_hands_on:
  assumes "tracker_ok t" and "find_combatant t j = Inr row" and "combat_world t (co_combat row) = Inr c" and "may_run rq c"
    and "cb_turn c = Some j" and "sort_combatants (rows_of t (cb_id c)) = before @ row # after"
  shows "\<exists>d. combat_world (snd (remove_combatant rq j t)) (cb_id c) = Inr d \<and>
    cb_turn d = map_option co_id (find co_active (after @ before)) \<and> cb_round d = cb_round c \<and>
    find_combatant (snd (remove_combatant rq j t)) j = Inl (Refused_with (U ''Combatant not found''))"
proof -
  have row: "co_id row = j" and i: "cb_id c = co_combat row" using find_combatant_Inr [OF assms(2)] combat_world_Inr [OF assms(3)] by auto
  have d: "distinct (map co_id (before @ row # after))"
    using sort_combatants_distinct [of "rows_of t (cb_id c)"] tracker_okD(2) [OF assms(1)] assms(6)
    by (simp add: rows_of_def distinct_map_filter)
  let ?heir = "map_option co_id (find co_active (after @ before))"
  let ?t1 = "hand_off (cb_id c) j t"
  have step: "snd (remove_combatant rq j t) = touch_and_broadcast rq (cb_id c) (cb_world c) (delete_combatant j ?t1)"
    using assms(2-5) by (simp add: remove_combatant_def may_run_def)
  have "co_id r \<noteq> j" if "find co_active (after @ before) = Some r" for r
  proof -
    have "r \<in> set (after @ before)" using that by (rule find_is_mem)
    then show ?thesis using other_id [OF d] row by simp
  qed
  then have neq: "?heir \<noteq> Some j" by auto
  have fight: "combat_world t (cb_id c) = Inr c" unfolding i by (rule assms(3))
  have "tk_combats ?t1 = tk_combats (update_combat (cb_id c) (\<lambda>c. c\<lparr>cb_turn := ?heir\<rparr>) t)"
    using hand_off_successor [OF d assms(6)] row by simp
  then have "combat_world ?t1 (cb_id c) = combat_world (update_combat (cb_id c) (\<lambda>c. c\<lparr>cb_turn := ?heir\<rparr>) t) (cb_id c)"
    by (rule combat_world_cong)
  also have "\<dots> = Inr (c\<lparr>cb_turn := ?heir\<rparr>)" by (rule combat_world_update [OF _ fight]) simp
  finally have "combat_world ?t1 (cb_id c) = Inr (c\<lparr>cb_turn := ?heir\<rparr>)" .
  then have "combat_world (delete_combatant j ?t1) (cb_id c) = Inr (c\<lparr>cb_turn := ?heir\<rparr>)"
    using neq by (intro find_drop_turn) simp_all
  then have "combat_world (snd (remove_combatant rq j t)) (cb_id c) = Inr (c\<lparr>cb_turn := ?heir, cb_updated := rq_now rq\<rparr>)"
    unfolding step by (simp add: combat_world_touch)
  moreover have "tk_combatants (snd (remove_combatant rq j t)) = filter (\<lambda>c. co_id c \<noteq> j) (tk_combatants ?t1)"
    unfolding step by (simp add: delete_combatant_def)
  then have "find (\<lambda>c. co_id c = j) (tk_combatants (snd (remove_combatant rq j t))) = None"
    by (auto simp: find_None_iff)
  then have "find_combatant (snd (remove_combatant rq j t)) j = Inl (Refused_with (U ''Combatant not found''))"
    by (simp add: find_combatant_def del: U_simps)
  ultimately show ?thesis by simp
qed

lemma removing_hands_on_witness:
  "\<exists>d. combat_world (snd (remove_combatant the_gm 7 (skirmish (Some 7)))) 40 = Inr d \<and> cb_turn d = Some 9 \<and> cb_round d = 1"
proof -
  let ?t = "skirmish (Some 7)"
  have xs: "sort_combatants (rows_of ?t (cb_id (hd (tk_combats ?t)))) = [tk_combatants ?t ! 2, tk_combatants ?t ! 1] @ hd (tk_combatants ?t) # []"
    by (simp add: skirmish_def rows_of_def sort_combatants_def seat_of_def turn_order_def cmp_of_def)
  have row: "find_combatant ?t 7 = Inr (hd (tk_combatants ?t))" by (simp add: find_combatant_def skirmish_def)
  have fight: "combat_world ?t (co_combat (hd (tk_combatants ?t))) = Inr (hd (tk_combats ?t))" by (simp add: combat_world_def skirmish_def)
  show ?thesis
    using removing_hands_on [OF skirmish_ok row fight _ _ xs, of the_gm]
    by (simp add: may_run_def the_gm_def skirmish_def del: U_simps) blast
qed

end
