(* ===== verification/Btree.thy ===== *)
theory Btree
  imports TF_Prelude
begin

text \<open>
  Ordered maps. \<open>std::collections::BTreeMap\<close> promises lookup, insertion, removal and iteration in
  ascending key order; \<open>ordered_map\<close> states that promise, and the components that use a
  \<open>BTreeMap\<close> rely on the lemmas proved inside it. Its model is an association list that is kept
  sorted and duplicate free.
\<close>

section \<open>The interface\<close>

locale ordered_map =
  fixes ins :: "'k::linorder \<Rightarrow> 'v \<Rightarrow> 'm \<Rightarrow> 'm"
    and del :: "'k \<Rightarrow> 'm \<Rightarrow> 'm"
    and look :: "'m \<Rightarrow> 'k \<Rightarrow> 'v option"
    and entries :: "'m \<Rightarrow> ('k \<times> 'v) list"
    and ok :: "'m \<Rightarrow> bool"
  assumes ok_ins: "ok m \<Longrightarrow> ok (ins k v m)"
    and ok_del: "ok m \<Longrightarrow> ok (del k m)"
    and look_ins: "ok m \<Longrightarrow> look (ins k v m) = (look m)(k \<mapsto> v)"
    and look_del: "ok m \<Longrightarrow> look (del k m) = (look m)(k := None)"
    and entries_sorted: "ok m \<Longrightarrow> sorted_wrt (<) (map fst (entries m))"
    and entries_look: "ok m \<Longrightarrow> map_of (entries m) = look m"
begin

lemma keys_distinct: "ok m \<Longrightarrow> distinct (map fst (entries m))"
  using entries_sorted strict_sorted_iff by blast

lemma entry_iff: "ok m \<Longrightarrow> (k, v) \<in> set (entries m) \<longleftrightarrow> look m k = Some v"
  using keys_distinct [of m] entries_look [of m] by (metis map_of_eq_Some_iff)

text \<open>Two maps with the same contents iterate alike: iteration order carries no history.\<close>

lemma entries_unique:
  assumes "ok m" and "ok n" and "look m = look n"
  shows "entries m = entries n"
proof (rule map_sorted_distinct_set_unique [where f = fst])
  show "set (entries m) = set (entries n)" using entry_iff [OF assms(1)] entry_iff [OF assms(2)] assms(3) by auto
  then show "inj_on fst (set (entries m) \<union> set (entries n))"
    using keys_distinct [OF assms(1)] by (simp add: distinct_map)
qed (use assms entries_sorted keys_distinct strict_sorted_iff in blast)+

text \<open>Pairs inserted in turn: the last of equal keys stays. Keys removed in turn are gone.\<close>

lemma ins_all:
  "ok m \<Longrightarrow> ok (foldl (\<lambda>m (k, v). ins k v m) m kvs) \<and>
     look (foldl (\<lambda>m (k, v). ins k v m) m kvs) = look m ++ map_of (rev kvs)"
proof (induction kvs arbitrary: m)
  case (Cons kv kvs)
  obtain k v where kv: "kv = (k, v)" by (cases kv)
  show ?case
    using Cons.IH [OF ok_ins [OF Cons.prems]]
    by (auto simp: kv look_ins [OF Cons.prems] map_add_def fun_eq_iff split: option.split)
qed simp

lemma del_all:
  "ok m \<Longrightarrow> ok (foldl (\<lambda>m k. del k m) m ks) \<and>
     look (foldl (\<lambda>m k. del k m) m ks) = (\<lambda>k. if k \<in> set ks then None else look m k)"
  by (induction ks arbitrary: m) (auto simp: ok_del look_del)

end

section \<open>The model\<close>

fun bt_insert :: "'k::linorder \<Rightarrow> 'v \<Rightarrow> ('k \<times> 'v) list \<Rightarrow> ('k \<times> 'v) list" where
  "bt_insert k v [] = [(k, v)]"
| "bt_insert k v ((k', v') # m) =
     (if k < k' then (k, v) # (k', v') # m
      else if k = k' then (k, v) # m
      else (k', v') # bt_insert k v m)"

definition bt_remove :: "'k::linorder \<Rightarrow> ('k \<times> 'v) list \<Rightarrow> ('k \<times> 'v) list" where
  "bt_remove k m = filter (\<lambda>(k', v). k' \<noteq> k) m"

definition bt_ok :: "('k::linorder \<times> 'v) list \<Rightarrow> bool" where
  "bt_ok m \<longleftrightarrow> sorted_wrt (<) (map fst m)"

lemma bt_insert_keys: "set (map fst (bt_insert k v m)) = insert k (set (map fst m))"
  by (induction k v m rule: bt_insert.induct) auto

lemma map_of_bt_remove: "map_of (bt_remove k m) = (map_of m)(k := None)"
  unfolding bt_remove_def by (induction m) (auto simp: fun_eq_iff)

interpretation btree: ordered_map bt_insert bt_remove map_of "\<lambda>m. m" bt_ok
proof unfold_locales
  fix m :: "('a::linorder \<times> 'b) list" and k v
  show "bt_ok m \<Longrightarrow> bt_ok (bt_insert k v m)"
    unfolding bt_ok_def
  proof (induction k v m rule: bt_insert.induct)
    case (2 k v k' v' m)
    then show ?case using bt_insert_keys [of k v m] by (auto simp: image_iff)
  qed simp
  show "bt_ok m \<Longrightarrow> bt_ok (bt_remove k m)"
    unfolding bt_ok_def bt_remove_def by (induction m) auto
  show "bt_ok m \<Longrightarrow> map_of (bt_insert k v m) = (map_of m)(k \<mapsto> v)"
    unfolding bt_ok_def by (induction k v m rule: bt_insert.induct) (auto simp: fun_eq_iff)
  show "bt_ok m \<Longrightarrow> map_of (bt_remove k m) = (map_of m)(k := None)"
    by (simp add: map_of_bt_remove)
qed (simp_all add: bt_ok_def)

lemma map_of_rev_distinct:
  assumes "distinct (map fst xs)"
  shows "map_of (rev xs) = map_of xs"
proof
  fix k
  have "distinct (map fst (rev xs))" using assms by (metis distinct_rev rev_map)
  then have "map_of (rev xs) k = Some v \<longleftrightarrow> map_of xs k = Some v" for v
    using map_of_eq_Some_iff [of "rev xs" k v] map_of_eq_Some_iff [of xs k v] assms by simp
  then show "map_of (rev xs) k = map_of xs k" by (cases "map_of xs k") (auto intro: option.exhaust)
qed

text \<open>\<open>iter().collect()\<close>.\<close>

definition bt_collect :: "('k::linorder \<times> 'v) list \<Rightarrow> ('k \<times> 'v) list" where
  "bt_collect kvs = foldl (\<lambda>m (k, v). bt_insert k v m) [] kvs"

lemma bt_ok_empty [simp]: "bt_ok []"
  by (simp add: bt_ok_def)

lemma bt_collect_ok [simp]: "bt_ok (bt_collect kvs)"
  and map_of_bt_collect: "map_of (bt_collect kvs) = map_of (rev kvs)"
  using btree.ins_all [of "[]" kvs] by (simp_all add: bt_collect_def)

end
