(* ===== verification/Moderation_Cases.thy ===== *)
theory Moderation_Cases
  imports Btree
begin

text \<open>
  Takedown notices of the server (crates/thunderforge-server/src: moderation/mod.rs, validation.rs,
  reach.rs and graphql/mutations_moderation.rs): the cases a notice opens, what counts as a strike, what
  is hidden while a case lasts, and how a takedown reaches the copies people took. The tables are
  lists of rows; time is counted in microseconds. A row is dated by the moment its transaction began,
  and \<open>commit\<close> moves the clock on, so that rows of different transactions are never dated alike.
\<close>

section \<open>Words\<close>

type_synonym instant = int

text \<open>A UUID: \<open>now_v7\<close> draws one that was never drawn before, from a supply without end.\<close>

type_synonym ident = nat

definition days :: "int \<Rightarrow> instant" where "days n = n * 86400000000"

definition notice_received :: ustring where "notice_received = U ''notice_received''"
definition notice_rejected_incomplete :: ustring where "notice_rejected_incomplete = U ''notice_rejected_incomplete''"
definition content_disabled :: ustring where "content_disabled = U ''content_disabled''"
definition counter_notice_received :: ustring where "counter_notice_received = U ''counter_notice_received''"
definition counter_notice_forwarded :: ustring where "counter_notice_forwarded = U ''counter_notice_forwarded''"
definition content_restored :: ustring where "content_restored = U ''content_restored''"
definition content_remains_disabled :: ustring where "content_remains_disabled = U ''content_remains_disabled''"
definition content_disabled_as_copy :: ustring where "content_disabled_as_copy = U ''content_disabled_as_copy''"

definition counts_as_strike :: "ustring \<Rightarrow> bool" where
  "counts_as_strike action \<longleftrightarrow> action = content_disabled \<or> action = content_remains_disabled"

definition is_disabled_status :: "ustring \<Rightarrow> bool" where
  "is_disabled_status action \<longleftrightarrow>
     action = content_disabled \<or> action = content_remains_disabled \<or> action = content_disabled_as_copy"

datatype moderation_entity_type = WorldActor | WorldItem | WorldLoreEntry | WorldAbility | Scene

fun entity_type_as_db_str :: "moderation_entity_type \<Rightarrow> ustring" where
  "entity_type_as_db_str WorldActor = U ''world_actor''"
| "entity_type_as_db_str WorldItem = U ''world_item''"
| "entity_type_as_db_str WorldLoreEntry = U ''world_lore_entry''"
| "entity_type_as_db_str WorldAbility = U ''world_ability''"
| "entity_type_as_db_str Scene = U ''scene''"

datatype moderation_action_type =
    NoticeReceived | NoticeRejectedIncomplete | ContentDisabled | CounterNoticeReceived | CounterNoticeForwarded
  | ContentRestored | ContentRemainsDisabled | ContentDisabledAsCopy

fun action_type_as_db_str :: "moderation_action_type \<Rightarrow> ustring" where
  "action_type_as_db_str NoticeReceived = notice_received"
| "action_type_as_db_str NoticeRejectedIncomplete = notice_rejected_incomplete"
| "action_type_as_db_str ContentDisabled = content_disabled"
| "action_type_as_db_str CounterNoticeReceived = counter_notice_received"
| "action_type_as_db_str CounterNoticeForwarded = counter_notice_forwarded"
| "action_type_as_db_str ContentRestored = content_restored"
| "action_type_as_db_str ContentRemainsDisabled = content_remains_disabled"
| "action_type_as_db_str ContentDisabledAsCopy = content_disabled_as_copy"

section \<open>Rows\<close>

record action =
  ac_case :: ident
  ac_parent :: "ident option"
  ac_type :: ustring
  ac_entity_type :: ustring
  ac_entity :: ident
  ac_world :: ident
  ac_account :: "ident option"
  ac_claimant_name :: ustring
  ac_claimant_contact :: ustring
  ac_work :: ustring
  ac_location :: ustring
  ac_good_faith :: bool
  ac_accuracy :: bool
  ac_signature :: ustring
  ac_validity :: "ustring option"
  ac_missing :: "ustring list option"
  ac_counter_notice :: "ident option"
  ac_due :: "instant option"
  ac_created :: instant
  ac_created_by :: "ident option"

record adoption =
  ad_source :: "ustring \<times> ident"
  ad_copy :: "ustring \<times> ident"
  ad_world :: ident
  ad_by :: ident
  ad_at :: instant

text \<open>A window on an account at the last rung (\<open>account_terminations\<close>).\<close>

record window =
  wi_id :: ident
  wi_account :: ident
  wi_opened :: instant
  wi_due :: instant
  wi_strikes :: int  \<comment> \<open>\<open>i32\<close>\<close>
  wi_requires_human :: bool
  wi_disables :: bool
  wi_appeal :: ustring
  wi_statement :: "ustring option"
  wi_filed :: "instant option"
  wi_resolved :: "instant option"
  wi_resolved_by :: "ident option"
  wi_note :: "ustring option"
  wi_closed :: "instant option"
  wi_reason :: "ustring option"

text \<open>A notice to a person: its kind with what its JSON says.\<close>

datatype said =
    Strike_recorded ident ustring ident ident int int int instant
  | Publishing_suspended ident ustring ident ident int int
  | Account_disabled int instant instant bool
  | Appeal_resolved bool "(instant \<times> bool) option"
  | Account_restored ustring
  | Share_taken_down ident nat
  | Adopted_copy_disabled "ident list" "ustring list"
  | Adopted_copy_restored ident ustring

record thing =
  th_world :: ident
  th_owner :: ident
  th_name :: ustring

record office =
  of_clock :: instant
  of_fresh :: ident                                \<comment> \<open>the next \<open>Uuid::now_v7\<close>\<close>
  of_actions :: "action list"
  of_adoptions :: "adoption list"
  of_windows :: "window list"
  of_notices :: "(ident \<times> said) list"
  of_users :: "(ident \<times> bool) list"              \<comment> \<open>with \<open>is_admin\<close>\<close>
  of_things :: "((ustring \<times> ident) \<times> thing) list"  \<comment> \<open>the content tables\<close>

section \<open>Statements\<close>

definition commit :: "office \<Rightarrow> office" where "commit o' = o'\<lparr>of_clock := of_clock o' + 1\<rparr>"

definition insert_action :: "action \<Rightarrow> office \<Rightarrow> office" where
  "insert_action row o' = o'\<lparr>of_actions := of_actions o' @ [row\<lparr>ac_created := of_clock o'\<rparr>]\<rparr>"

definition tell :: "ident \<Rightarrow> said \<Rightarrow> office \<Rightarrow> office" where
  "tell account s o' = o'\<lparr>of_notices := of_notices o' @ [(account, s)]\<rparr>"

definition now_v7 :: "office \<Rightarrow> ident \<times> office" where
  "now_v7 o' = (of_fresh o', o'\<lparr>of_fresh := of_fresh o' + 1\<rparr>)"

text \<open>A row that says nothing but what happened to which entity.\<close>

definition plain_action :: "ident \<Rightarrow> ident option \<Rightarrow> ustring \<Rightarrow> ustring \<Rightarrow> ident \<Rightarrow> ident \<Rightarrow> ident option \<Rightarrow> instant option \<Rightarrow> action" where
  "plain_action case_id parent action entity_type entity w account due =
     \<lparr>ac_case = case_id, ac_parent = parent, ac_type = action, ac_entity_type = entity_type, ac_entity = entity, ac_world = w,
      ac_account = account, ac_claimant_name = [], ac_claimant_contact = [], ac_work = [], ac_location = [],
      ac_good_faith = False, ac_accuracy = False, ac_signature = [], ac_validity = None, ac_missing = None,
      ac_counter_notice = None, ac_due = due, ac_created = 0, ac_created_by = None\<rparr>"

text \<open>\<open>ORDER BY created_at DESC LIMIT 1\<close>.\<close>

definition later :: "action option \<Rightarrow> action \<Rightarrow> action option" where
  "later best row = (case best of None \<Rightarrow> Some row | Some e \<Rightarrow> if ac_created e < ac_created row then Some row else Some e)"

definition latest_of :: "action list \<Rightarrow> action option" where
  "latest_of rows = foldl later None rows"

definition latest_event :: "office \<Rightarrow> ustring \<Rightarrow> ident \<Rightarrow> action option" where
  "latest_event o' entity_type entity =
     latest_of (filter (\<lambda>a. ac_entity_type a = entity_type \<and> ac_entity a = entity) (of_actions o'))"

definition last_of_case :: "office \<Rightarrow> ident \<Rightarrow> action option" where
  "last_of_case o' case_id = latest_of (filter (\<lambda>a. ac_case a = case_id) (of_actions o'))"

section \<open>Strikes\<close>

record strike =
  sk_case :: ident
  sk_entity_type :: ustring
  sk_entity :: ident
  sk_world :: ident
  sk_recorded :: instant

definition strike_of :: "action \<Rightarrow> strike" where
  "strike_of a = \<lparr>sk_case = ac_case a, sk_entity_type = ac_entity_type a, sk_entity = ac_entity a,
     sk_world = ac_world a, sk_recorded = ac_created a\<rparr>"

definition rows_within :: "instant \<Rightarrow> ident option \<Rightarrow> int \<Rightarrow> action list \<Rightarrow> action list" where
  "rows_within now only lookback_days actions =
     sort_key ac_created (filter (\<lambda>a. now - days lookback_days \<le> ac_created a \<and> ac_account a \<noteq> None \<and>
       (only \<noteq> None \<longrightarrow> ac_account a = only)) actions)"

definition judge_case :: "(ident \<times> action) list \<Rightarrow> action \<Rightarrow> (ident \<times> action) list" where
  "judge_case table row =
     (case map_of table (ac_case row) of
        None \<Rightarrow> bt_insert (ac_case row) row table
      | Some existing \<Rightarrow> if ac_created existing < ac_created row then bt_insert (ac_case row) row table else table)"

definition count_case :: "(ident \<times> strike list) list \<Rightarrow> action \<Rightarrow> (ident \<times> strike list) list" where
  "count_case table row =
     (if \<not> counts_as_strike (ac_type row) then table
      else case ac_account row of
        None \<Rightarrow> table
      | Some account \<Rightarrow>
          bt_insert account ((case map_of table account of None \<Rightarrow> [] | Some l \<Rightarrow> l) @ [strike_of row]) table)"

definition strikes_by_account :: "instant \<Rightarrow> ident option \<Rightarrow> int \<Rightarrow> action list \<Rightarrow> (ident \<times> strike list) list" where
  "strikes_by_account now only lookback_days actions =
     (let judged = foldl judge_case [] (rows_within now only lookback_days actions);
          counted = foldl count_case [] (map snd judged) in
      map (\<lambda>(account, l). (account, sort_key sk_recorded l)) counted)"

definition strikes_of :: "instant \<Rightarrow> ident \<Rightarrow> int \<Rightarrow> action list \<Rightarrow> strike list" where
  "strikes_of now account lookback_days actions =
     (case map_of (strikes_by_account now (Some account) lookback_days actions) account of None \<Rightarrow> [] | Some l \<Rightarrow> l)"

section \<open>What is hidden\<close>

definition entity_type_words :: "ustring list" where
  "entity_type_words = map entity_type_as_db_str [WorldActor, WorldItem, WorldAbility, WorldLoreEntry, Scene]"

definition name_of :: "office \<Rightarrow> ustring \<times> ident \<Rightarrow> ustring option" where
  "name_of o' e = (if fst e \<in> set entity_type_words then map_option th_name (map_of (of_things o') e) else None)"

definition adopter_of :: "office \<Rightarrow> ustring \<times> ident \<Rightarrow> ident option" where
  "adopter_of o' e = map_option ad_by (find (\<lambda>a. ad_copy a = e) (of_adoptions o'))"

definition tell_of_restoration :: "ident \<Rightarrow> ustring \<times> ident \<Rightarrow> office \<Rightarrow> office" where
  "tell_of_restoration case_id e o' =
     (if \<forall>a \<in> set (of_actions o'). ac_case a = case_id \<longrightarrow> ac_parent a = None then o'
      else case adopter_of o' e of
        None \<Rightarrow> o'
      | Some adopter \<Rightarrow>
          (case name_of o' e of None \<Rightarrow> o' | Some name \<Rightarrow> tell adopter (Adopted_copy_restored case_id name) o'))"

text \<open>The gate of every read. A forwarded counter-notice past its date is restored by the first read after it.\<close>

definition effective_status :: "ustring \<Rightarrow> ident \<Rightarrow> office \<Rightarrow> ustring option \<times> office" where
  "effective_status entity_type entity o' =
     (case latest_event o' entity_type entity of
        None \<Rightarrow> (None, o')
      | Some event \<Rightarrow>
          if ac_type event = counter_notice_forwarded then
            (case ac_due event of
               Some due_at \<Rightarrow>
                 if due_at \<le> of_clock o' then
                   (None, tell_of_restoration (ac_case event) (ac_entity_type event, ac_entity event)
                     (commit (insert_action (plain_action (ac_case event) None content_restored (ac_entity_type event)
                       (ac_entity event) (ac_world event) None None) o')))
                 else (Some content_disabled, o')
             | None \<Rightarrow> (Some content_disabled, o'))
          else if is_disabled_status (ac_type event) then (Some (ac_type event), o')
          else (None, o'))"

definition active_case_id :: "ustring \<Rightarrow> ident \<Rightarrow> office \<Rightarrow> ident option" where
  "active_case_id entity_type entity o' =
     (case latest_event o' entity_type entity of
        None \<Rightarrow> None
      | Some event \<Rightarrow>
          if is_disabled_status (ac_type event) \<or> ac_type event = counter_notice_forwarded then Some (ac_case event) else None)"

fun filter_visible :: "ustring \<Rightarrow> ('r \<Rightarrow> ident) \<Rightarrow> 'r list \<Rightarrow> office \<Rightarrow> 'r list \<times> office" where
  "filter_visible entity_type id_of [] o' = ([], o')"
| "filter_visible entity_type id_of (row # rows) o' =
     (let (status, o1) = effective_status entity_type (id_of row) o';
          (visible, o2) = filter_visible entity_type id_of rows o1 in
      (if status = None then row # visible else visible, o2))"

section \<open>Reaching the copies\<close>

definition record_adoption :: "ustring \<Rightarrow> ident \<Rightarrow> ident \<Rightarrow> ident \<Rightarrow> ident \<Rightarrow> office \<Rightarrow> office" where
  "record_adoption entity_type source copy destination adopter o' =
     o'\<lparr>of_adoptions := of_adoptions o' @ [\<lparr>ad_source = (entity_type, source), ad_copy = (entity_type, copy),
       ad_world = destination, ad_by = adopter, ad_at = of_clock o'\<rparr>]\<rparr>"

definition copies_from :: "adoption list \<Rightarrow> ustring \<times> ident \<Rightarrow> adoption list" where
  "copies_from adoptions source = sort_key ad_at (filter (\<lambda>a. ad_source a = source) adoptions)"

text \<open>The rows whose copy was not seen before, and what is seen then.\<close>

fun take_unseen :: "(ustring \<times> ident) list \<Rightarrow> adoption list \<Rightarrow> adoption list \<times> (ustring \<times> ident) list" where
  "take_unseen seen [] = ([], seen)"
| "take_unseen seen (a # rows) =
     (if ad_copy a \<in> set seen then take_unseen seen rows
      else let (new, seen') = take_unseen (ad_copy a # seen) rows in (a # new, seen'))"

lemma take_unseen_set:
  "take_unseen seen rows = (new, seen') \<Longrightarrow>
     set seen' = set seen \<union> ad_copy ` set rows \<and> set new \<subseteq> set rows \<and> ad_copy ` set new = ad_copy ` set rows - set seen \<and>
     distinct (map ad_copy new) \<and> length new = card (ad_copy ` set rows - set seen)"
proof (induction seen rows arbitrary: new seen' rule: take_unseen.induct)
  case (2 seen a rows)
  show ?case
  proof (cases "ad_copy a \<in> set seen")
    case True
    then have "take_unseen seen rows = (new, seen')" using "2.prems" by simp
    then show ?thesis using "2.IH"(1) [OF True, of new seen'] True by (simp add: insert_Diff_if insert_absorb subset_insertI2)
  next
    case False
    obtain n s where n: "take_unseen (ad_copy a # seen) rows = (n, s)" by (metis surj_pair)
    then have IH: "set s = insert (ad_copy a) (set seen) \<union> ad_copy ` set rows" "set n \<subseteq> set rows"
      "ad_copy ` set n = ad_copy ` set rows - insert (ad_copy a) (set seen)" "distinct (map ad_copy n)"
      "length n = card (ad_copy ` set rows - insert (ad_copy a) (set seen))"
      using "2.IH"(2) [OF False] by auto
    have split: "insert (ad_copy a) (ad_copy ` set rows) - set seen = insert (ad_copy a) (ad_copy ` set rows - insert (ad_copy a) (set seen))"
      using False by auto
    have new: "new = a # n" "seen' = s" using n "2.prems" False by simp_all
    have "ad_copy a \<notin> ad_copy ` set n" unfolding IH(3) by simp
    moreover have "insert (ad_copy a) (set seen) \<union> ad_copy ` set rows = set seen \<union> insert (ad_copy a) (ad_copy ` set rows)" by simp
    ultimately show ?thesis unfolding new using IH(1,2,4,5) IH(3) by (simp add: split subset_insertI2)
  qed
qed auto

lemma card_seen:
  assumes "finite A" and "F \<subseteq> A"
  shows "card (A - (S \<union> F)) + card (F - S) = card (A - S)"
proof -
  have "A - S = (A - (S \<union> F)) \<union> (F - S)" using assms(2) by blast
  moreover have "(A - (S \<union> F)) \<inter> (F - S) = {}" by blast
  moreover have "finite (A - (S \<union> F))" "finite (F - S)" using assms finite_subset by blast+
  ultimately show ?thesis by (metis card_Un_disjoint)
qed

lemma walk_decreases:
  assumes "take_unseen seen (copies_from adoptions source) = (new, seen')"
  shows "card (ad_copy ` set adoptions - set seen') + length new = card (ad_copy ` set adoptions - set seen)"
proof -
  have "ad_copy ` set (copies_from adoptions source) \<subseteq> ad_copy ` set adoptions" by (auto simp: copies_from_def)
  then show ?thesis
    using take_unseen_set [OF assms] card_seen [of "ad_copy ` set adoptions" _ "set seen"] by simp
qed

function copies_walk :: "adoption list \<Rightarrow> (ustring \<times> ident) list \<Rightarrow> (ustring \<times> ident) list \<Rightarrow> adoption list" where
  "copies_walk adoptions seen [] = []"
| "copies_walk adoptions seen (source # frontier) =
     (let (new, seen') = take_unseen seen (copies_from adoptions source) in
      new @ copies_walk adoptions seen' (frontier @ map ad_copy new))"
  by pat_completeness auto

termination
  by (relation "measure (\<lambda>(adoptions, seen, frontier). card (ad_copy ` set adoptions - set seen) + length frontier)")
    (auto dest: walk_decreases [OF sym])

definition copies_of :: "adoption list \<Rightarrow> ustring \<times> ident \<Rightarrow> adoption list" where
  "copies_of adoptions e = copies_walk adoptions [e] [e]"

section \<open>Child cases\<close>

definition insert_child_event :: "ident \<Rightarrow> ident \<Rightarrow> ustring \<Rightarrow> ustring \<Rightarrow> ident \<Rightarrow> ident \<Rightarrow> instant option \<Rightarrow> office \<Rightarrow> office" where
  "insert_child_event case_id parent action entity_type entity w due =
     insert_action (plain_action case_id (Some parent) action entity_type entity w None due)"

text \<open>The rows of a child case as its opening row describes it.\<close>

fun keep_first :: "ident list \<Rightarrow> action list \<Rightarrow> action list" where
  "keep_first seen [] = []"
| "keep_first seen (a # rows) =
     (if ac_case a \<in> set seen then keep_first seen rows else a # keep_first (ac_case a # seen) rows)"

definition child_cases :: "office \<Rightarrow> ident \<Rightarrow> action list" where
  "child_cases o' parent = keep_first [] (sort_key ac_created (filter (\<lambda>a. ac_parent a = Some parent) (of_actions o')))"

text \<open>One copy reached: skipped when its adopter has deleted it.\<close>

definition disable_copy :: "ident \<Rightarrow> adoption \<Rightarrow> office \<times> ident list \<times> (ident \<times> ident list \<times> ustring list) list \<Rightarrow>
    office \<times> ident list \<times> (ident \<times> ident list \<times> ustring list) list" where
  "disable_copy parent copy = (\<lambda>(o', children, by_adopter).
     case name_of o' (ad_copy copy) of
       None \<Rightarrow> (o', children, by_adopter)
     | Some name \<Rightarrow>
         let (child, o1) = now_v7 o';
             o2 = insert_child_event child parent content_disabled_as_copy (fst (ad_copy copy)) (snd (ad_copy copy)) (ad_world copy) None o1;
             (cases, names) = (case map_of by_adopter (ad_by copy) of None \<Rightarrow> ([], []) | Some e \<Rightarrow> e) in
         (o2, children @ [child], bt_insert (ad_by copy) (cases @ [child], names @ [name]) by_adopter))"

definition fan_out_disable :: "ident \<Rightarrow> ustring \<Rightarrow> ident \<Rightarrow> ident option \<Rightarrow> office \<Rightarrow> ident list \<times> office" where
  "fan_out_disable parent entity_type entity sharer o' =
     (let (o1, children, by_adopter) = foldl (\<lambda>s copy. disable_copy parent copy s) (o', [], [])
            (copies_of (of_adoptions o') (entity_type, entity));
          o2 = foldl (\<lambda>s (adopter, cases, names). tell adopter (Adopted_copy_disabled cases names) s) o1 by_adopter;
          o3 = (case sharer of
                  Some account \<Rightarrow> if children \<noteq> [] then tell account (Share_taken_down parent (length children)) o2 else o2
                | None \<Rightarrow> o2) in
      (children, commit o3))"

definition fan_out_forward :: "ident \<Rightarrow> instant \<Rightarrow> office \<Rightarrow> office" where
  "fan_out_forward parent due o' =
     commit (foldl (\<lambda>s child. insert_child_event (ac_case child) parent counter_notice_forwarded (ac_entity_type child)
       (ac_entity child) (ac_world child) (Some due) s) o' (child_cases o' parent))"

definition fan_out_resolve :: "ident \<Rightarrow> ustring \<Rightarrow> office \<Rightarrow> office" where
  "fan_out_resolve parent resolution o' =
     commit (foldl (\<lambda>s child.
       let s1 = insert_child_event (ac_case child) parent resolution (ac_entity_type child) (ac_entity child) (ac_world child) None s in
       if resolution = content_restored then tell_of_restoration (ac_case child) (ac_entity_type child, ac_entity child) s1 else s1)
       o' (child_cases o' parent))"

section \<open>What a notice must say\<close>

record notice_fields =
  nf_claimant_name :: ustring
  nf_claimant_contact :: ustring
  nf_work :: ustring
  nf_location :: ustring
  nf_good_faith :: bool
  nf_accuracy :: bool
  nf_signature :: ustring

definition blank :: "ustring \<Rightarrow> bool" where "blank s \<longleftrightarrow> trim s = []"

definition when_missing :: "bool \<Rightarrow> string \<Rightarrow> ustring list" where
  "when_missing missing name = (if missing then [U name] else [])"

definition validate_takedown_notice :: "notice_fields \<Rightarrow> ustring list" where
  "validate_takedown_notice f =
     when_missing (blank (nf_claimant_name f)) ''claimantName'' @
     when_missing (blank (nf_claimant_contact f)) ''claimantContact'' @
     when_missing (blank (nf_work f)) ''copyrightedWorkDescription'' @
     when_missing (blank (nf_location f)) ''infringingMaterialLocation'' @
     when_missing (\<not> nf_good_faith f) ''goodFaithStatement'' @
     when_missing (\<not> nf_accuracy f) ''accuracyStatement'' @
     when_missing (blank (nf_signature f)) ''signature''"

record counter_fields =
  cf_description :: ustring
  cf_mistake :: bool
  cf_consent :: bool
  cf_contact :: ustring
  cf_signature :: ustring

definition validate_counter_notice :: "counter_fields \<Rightarrow> ustring list" where
  "validate_counter_notice f =
     when_missing (blank (cf_description f)) ''removedMaterialDescription'' @
     when_missing (\<not> cf_mistake f) ''goodFaithMistakeStatement'' @
     when_missing (\<not> cf_consent f) ''consentToJurisdiction'' @
     when_missing (blank (cf_contact f)) ''contactInformation'' @
     when_missing (blank (cf_signature f)) ''signature''"

end
