(* ===== verification/Moderation_Standing.thy ===== *)
theory Moderation_Standing
  imports Moderation_Cases
begin

text \<open>
  What strikes cost an account (crates/thunderforge-server/src/moderation/standing.rs): the ladder, the
  window that opens at its last rung, appeals, the sweep, and deletion. The deletion of an account
  (users/mod.rs) is modelled as far as these tables see it: its row among the users and its notices.
\<close>

section \<open>The ladder\<close>

record ladder =
  la_warn_at :: int
  la_suspend_publishing_at :: int
  la_threshold :: int
  la_lookback_days :: int
  la_window_days :: int
  la_requires_human :: bool

definition ages_out_at :: "ladder \<Rightarrow> instant \<Rightarrow> instant" where
  "ages_out_at l recorded_at = recorded_at + days (la_lookback_days l)"

definition appeal_none :: ustring where "appeal_none = U ''none''"
definition appeal_open :: ustring where "appeal_open = U ''open''"
definition appeal_upheld :: ustring where "appeal_upheld = U ''upheld''"
definition appeal_rejected :: ustring where "appeal_rejected = U ''rejected''"

definition reason_appeal_upheld :: ustring where "reason_appeal_upheld = U ''appeal_upheld''"
definition reason_strikes_aged_out :: ustring where "reason_strikes_aged_out = U ''strikes_aged_out''"
definition reason_counter_notice :: ustring where "reason_counter_notice = U ''counter_notice''"
definition reason_deleted :: ustring where "reason_deleted = U ''deleted''"
definition reason_admin_reversed :: ustring where "reason_admin_reversed = U ''admin_reversed''"

record standing =
  sd_strikes :: "strike list"
  sd_ladder :: ladder
  sd_may_publish :: bool
  sd_disabled :: bool
  sd_window :: "window option"

definition with_termination :: "ladder \<Rightarrow> strike list \<Rightarrow> window option \<Rightarrow> standing" where
  "with_termination l strikes w =
     (let count = int (length strikes) in
      \<lparr>sd_strikes = strikes, sd_ladder = l,
       sd_may_publish = (count < la_suspend_publishing_at l \<and> count < la_threshold l \<and> w = None),
       sd_disabled = (case w of Some t \<Rightarrow> wi_disables t | None \<Rightarrow> False),
       sd_window = w\<rparr>)"

definition from_strikes :: "ladder \<Rightarrow> strike list \<Rightarrow> standing" where
  "from_strikes l strikes = with_termination l strikes None"

definition strike_count :: "standing \<Rightarrow> int" where "strike_count s = int (length (sd_strikes s))"

definition warned :: "standing \<Rightarrow> bool" where "warned s \<longleftrightarrow> la_warn_at (sd_ladder s) \<le> strike_count s"

section \<open>Windows\<close>

definition open_termination_of :: "office \<Rightarrow> ident \<Rightarrow> window option" where
  "open_termination_of o' account = find (\<lambda>w. wi_account w = account \<and> wi_closed w = None) (of_windows o')"

definition count_strikes :: "office \<Rightarrow> ident \<Rightarrow> ladder \<Rightarrow> int" where
  "count_strikes o' account l = int (length (strikes_of (of_clock o') account (la_lookback_days l) (of_actions o')))"

definition standing_of :: "office \<Rightarrow> ident \<Rightarrow> ladder \<Rightarrow> standing" where
  "standing_of o' account l =
     with_termination l (strikes_of (of_clock o') account (la_lookback_days l) (of_actions o')) (open_termination_of o' account)"

definition is_disabled :: "office \<Rightarrow> ident \<Rightarrow> bool" where
  "is_disabled o' account \<longleftrightarrow> (\<exists>w \<in> set (of_windows o'). wi_account w = account \<and> wi_closed w = None \<and> wi_disables w)"

definition termination_terms :: "ladder \<Rightarrow> bool \<Rightarrow> nat \<Rightarrow> bool \<times> bool" where
  "termination_terms l is_admin other_admins =
     (if is_admin \<and> other_admins = 0 then (False, True) else (True, la_requires_human l))"

definition open_termination :: "ident \<Rightarrow> ladder \<Rightarrow> instant \<Rightarrow> office \<Rightarrow> window option \<times> office" where
  "open_termination account l now o' =
     (if open_termination_of o' account \<noteq> None then (None, o')
      else
        let count = count_strikes o' account l in
        if count < la_threshold l then (None, o')
        else
          let is_admin = (case map_of (of_users o') account of Some b \<Rightarrow> b | None \<Rightarrow> False);
              other_admins = length (filter (\<lambda>(u, admin). admin \<and> u \<noteq> account) (of_users o'));
              (disables, requires_human) = termination_terms l is_admin other_admins;
              (i, o1) = now_v7 o';
              w = \<lparr>wi_id = i, wi_account = account, wi_opened = now, wi_due = now + days (la_window_days l),
                   wi_strikes = wrap_i32 count, wi_requires_human = requires_human, wi_disables = disables,
                   wi_appeal = appeal_none, wi_statement = None, wi_filed = None, wi_resolved = None,
                   wi_resolved_by = None, wi_note = None, wi_closed = None, wi_reason = None\<rparr>;
              o2 = o1\<lparr>of_windows := of_windows o1 @ [w]\<rparr> in
          (Some w, if disables then tell account (Account_disabled count (wi_opened w) (wi_due w) (wi_requires_human w)) o2 else o2))"

definition update_window :: "ident \<Rightarrow> (window \<Rightarrow> window) \<Rightarrow> office \<Rightarrow> office" where
  "update_window i f o' = o'\<lparr>of_windows := map (\<lambda>w. if wi_id w = i then f w else w) (of_windows o')\<rparr>"

definition close_termination :: "window \<Rightarrow> ustring \<Rightarrow> instant \<Rightarrow> office \<Rightarrow> office" where
  "close_termination t reason now o' =
     (let o1 = update_window (wi_id t) (\<lambda>w. w\<lparr>wi_closed := Some now, wi_reason := Some reason\<rparr>) o';
          notice = (if reason \<in> {reason_strikes_aged_out, reason_counter_notice, reason_admin_reversed}
                    then Some (Account_restored reason)
                    else if reason = reason_appeal_upheld then Some (Appeal_resolved True None)
                    else None) in
      case notice of Some s \<Rightarrow> if wi_disables t then tell (wi_account t) s o1 else o1 | None \<Rightarrow> o1)"

definition is_due_for_deletion :: "window \<Rightarrow> instant \<Rightarrow> bool" where
  "is_due_for_deletion t now \<longleftrightarrow>
     wi_closed t = None \<and> wi_disables t \<and> wi_appeal t \<noteq> appeal_open \<and> wi_due t \<le> now"

definition delete_user_data :: "ident \<Rightarrow> office \<Rightarrow> office" where
  "delete_user_data account o' =
     o'\<lparr>of_notices := filter (\<lambda>(a, s). a \<noteq> account) (of_notices o'), of_users := filter (\<lambda>(u, b). u \<noteq> account) (of_users o')\<rparr>"

text \<open>With the keys of the sheet files the account kept, which its caller deletes.\<close>

definition execute_termination :: "(ident \<Rightarrow> ustring list) \<Rightarrow> window \<Rightarrow> instant \<Rightarrow> office \<Rightarrow> ustring list \<times> office" where
  "execute_termination sheet_keys t now o' =
     (sheet_keys (wi_account t), close_termination t reason_deleted now (delete_user_data (wi_account t) o'))"

definition happened_since :: "office \<Rightarrow> ident \<Rightarrow> ustring \<Rightarrow> instant \<Rightarrow> bool" where
  "happened_since o' account action since \<longleftrightarrow>
     (\<exists>a \<in> set (of_actions o'). ac_account a = Some account \<and> ac_type a = action \<and> since \<le> ac_created a)"

definition why_below_threshold :: "office \<Rightarrow> window \<Rightarrow> ustring" where
  "why_below_threshold o' t =
     (if happened_since o' (wi_account t) counter_notice_received (wi_opened t) then reason_counter_notice
      else if happened_since o' (wi_account t) content_restored (wi_opened t) then reason_admin_reversed
      else reason_strikes_aged_out)"

section \<open>The sweep\<close>

record sweep_report =
  sr_opened :: nat
  sr_closed :: nat
  sr_deleted :: nat
  sr_files :: "ustring list"

definition sweep_open :: "ladder \<Rightarrow> instant \<Rightarrow> ident \<times> strike list \<Rightarrow> sweep_report \<times> office \<Rightarrow> sweep_report \<times> office" where
  "sweep_open l now = (\<lambda>(account, strikes) (report, o').
     if la_threshold l \<le> int (length strikes) then
       (case open_termination account l now o' of
          (Some _, o1) \<Rightarrow> (report\<lparr>sr_opened := sr_opened report + 1\<rparr>, o1)
        | (None, o1) \<Rightarrow> (report, o1))
     else (report, o'))"

definition sweep_window :: "(ident \<Rightarrow> ustring list) \<Rightarrow> ladder \<Rightarrow> instant \<Rightarrow> window \<Rightarrow> sweep_report \<times> office \<Rightarrow> sweep_report \<times> office" where
  "sweep_window sheet_keys l now t = (\<lambda>(report, o').
     if count_strikes o' (wi_account t) l < la_threshold l then
       (report\<lparr>sr_closed := sr_closed report + 1\<rparr>, close_termination t (why_below_threshold o' t) now o')
     else if is_due_for_deletion t now \<and> \<not> wi_requires_human t then
       (let (files, o1) = execute_termination sheet_keys t now o' in
        (report\<lparr>sr_files := sr_files report @ files, sr_deleted := sr_deleted report + 1\<rparr>, o1))
     else (report, o'))"

definition sweep_scoped :: "(ident \<Rightarrow> ustring list) \<Rightarrow> ladder \<Rightarrow> instant \<Rightarrow> ident option \<Rightarrow> office \<Rightarrow> sweep_report \<times> office" where
  "sweep_scoped sheet_keys l now only o' =
     (let s1 = foldl (\<lambda>s e. sweep_open l now e s) (\<lparr>sr_opened = 0, sr_closed = 0, sr_deleted = 0, sr_files = []\<rparr>, o')
                 (strikes_by_account (of_clock o') only (la_lookback_days l) (of_actions o'));
          open_windows = filter (\<lambda>w. wi_closed w = None \<and> (only \<noteq> None \<longrightarrow> Some (wi_account w) = only)) (of_windows (snd s1)) in
      foldl (\<lambda>s t. sweep_window sheet_keys l now t s) s1 open_windows)"

section \<open>Appeals\<close>

definition file_appeal :: "ident \<Rightarrow> ustring \<Rightarrow> instant \<Rightarrow> office \<Rightarrow> (ustring + window) \<times> office" where
  "file_appeal account statement now o' =
     (case open_termination_of o' account of
        None \<Rightarrow> (Inl (U ''There is no open decision on this account to appeal''), o')
      | Some t \<Rightarrow>
          if wi_appeal t \<noteq> appeal_none then (Inl (U ''An appeal has already been filed against this decision''), o')
          else
            let f = (\<lambda>w. w\<lparr>wi_appeal := appeal_open, wi_statement := Some statement, wi_filed := Some now\<rparr>) in
            (Inr (f t), update_window (wi_id t) f o'))"

definition restore_case :: "ident \<Rightarrow> office \<Rightarrow> office option" where
  "restore_case case_id o' =
     map_option (\<lambda>last. insert_action (plain_action case_id None content_restored (ac_entity_type last) (ac_entity last)
       (ac_world last) (ac_account last) None) o') (last_of_case o' case_id)"

record appeal_decision =
  apd_upheld :: bool
  apd_note :: "ustring option"
  apd_case :: "ident option"

definition overturned :: "appeal_decision \<Rightarrow> strike list \<Rightarrow> ustring + ident" where
  "overturned decision strikes =
     (case apd_case decision of
        Some c \<Rightarrow> if \<exists>s \<in> set strikes. sk_case s = c then Inr c
                  else Inl (U ''That case is not one of this account's strikes'')
      | None \<Rightarrow> if strikes = [] then Inl (U ''This account holds no strike to overturn'') else Inr (sk_case (last strikes)))"

text \<open>One transaction: a refusal leaves everything as it was.\<close>

definition resolve_appeal :: "ident \<Rightarrow> ident \<Rightarrow> appeal_decision \<Rightarrow> ladder \<Rightarrow> instant \<Rightarrow> office \<Rightarrow> (ustring + window) \<times> office" where
  "resolve_appeal account resolved_by decision l now o' =
     (case open_termination_of o' account of
        None \<Rightarrow> (Inl (U ''There is no open decision on this account''), o')
      | Some t \<Rightarrow>
          if wi_appeal t \<noteq> appeal_open then (Inl (U ''There is no open appeal on this account''), o')
          else
            let f = (\<lambda>w. w\<lparr>wi_appeal := (if apd_upheld decision then appeal_upheld else appeal_rejected),
                       wi_resolved := Some now, wi_resolved_by := Some resolved_by, wi_note := apd_note decision\<rparr>);
                o1 = update_window (wi_id t) f o'; decided = f t in
            if \<not> apd_upheld decision then
              (Inr decided, commit (tell account (Appeal_resolved False (Some (wi_due decided, wi_requires_human decided))) o1))
            else
              case overturned decision (strikes_of (of_clock o') account (la_lookback_days l) (of_actions o1)) of
                Inl e \<Rightarrow> (Inl e, o')
              | Inr case_id \<Rightarrow>
                  (case restore_case case_id o1 of
                     None \<Rightarrow> (Inl (U ''Failed to restore the case''), o')
                   | Some o2 \<Rightarrow>
                       let o3 = commit (close_termination decided reason_appeal_upheld now o2) in
                       (case find (\<lambda>w. wi_id w = wi_id decided) (of_windows o3) of
                          None \<Rightarrow> (Inl (U ''Failed to record the decision''), o')
                        | Some w \<Rightarrow> (Inr w, o3))))"

definition execute_by_administrator :: "(ident \<Rightarrow> ustring list) \<Rightarrow> ident \<Rightarrow> instant \<Rightarrow> office \<Rightarrow> (ustring + ustring list) \<times> office" where
  "execute_by_administrator sheet_keys account now o' =
     (case open_termination_of o' account of
        None \<Rightarrow> (Inl (U ''There is no open decision on this account''), o')
      | Some t \<Rightarrow>
          if \<not> wi_disables t then
            (Inl (U ''This is the instance's last administrator. Deleting it would lock the instance out of its own administration; appoint another administrator first.''), o')
          else if wi_appeal t = appeal_open then (Inl (U ''An appeal is open; decide it first''), o')
          else if \<not> is_due_for_deletion t now then (Inl (U ''The window has not ended''), o')
          else (let (files, o1) = execute_termination sheet_keys t now o' in (Inr files, o1)))"

definition tell_of_strike :: "ident \<Rightarrow> ident \<Rightarrow> ladder \<Rightarrow> office \<Rightarrow> office" where
  "tell_of_strike account case_id l o' =
     (let s = standing_of o' account l in
      case find (\<lambda>k. sk_case k = case_id) (sd_strikes s) of
        None \<Rightarrow> o'
      | Some k \<Rightarrow>
          let count = strike_count s;
              o1 = tell account (Strike_recorded (sk_case k) (sk_entity_type k) (sk_entity k) (sk_world k) count
                     (la_suspend_publishing_at l) (la_threshold l) (ages_out_at l (sk_recorded k))) o';
              o2 = (if count = la_suspend_publishing_at l \<and> count < la_threshold l
                    then tell account (Publishing_suspended (sk_case k) (sk_entity_type k) (sk_entity k) (sk_world k) count (la_threshold l)) o1
                    else o1) in
          if la_threshold l \<le> count then snd (open_termination account l (of_clock o2) o2) else o2)"

end
