(* ===== verification/Moderation_Notices.thy ===== *)
theory Moderation_Notices
  imports Moderation_Standing
begin

text \<open>
  The requests of the moderation programme (crates/thunderforge-server/src/graphql/mutations_moderation.rs),
  each as a function of the tables, and what can never happen whatever is asked in whatever order: the
  tables reachable from an instance without cases are the inductive \<open>moderated\<close>.
\<close>

section \<open>Requests\<close>

record takedown_input =
  ti_entity_type :: moderation_entity_type
  ti_entity :: ident
  ti_fields :: notice_fields

record counter_input =
  ci_case :: ident
  ci_fields :: counter_fields

fun not_found :: "moderation_entity_type \<Rightarrow> ustring" where
  "not_found WorldActor = U ''Actor not found''"
| "not_found WorldItem = U ''Item not found''"
| "not_found WorldLoreEntry = U ''Lore entry not found''"
| "not_found WorldAbility = U ''Ability not found''"
| "not_found Scene = U ''Scene not found''"

definition resolve_entity_owner :: "office \<Rightarrow> moderation_entity_type \<Rightarrow> ident \<Rightarrow> ustring + ident \<times> ident option" where
  "resolve_entity_owner o' entity_type entity =
     (case map_of (of_things o') (entity_type_as_db_str entity_type, entity) of
        None \<Rightarrow> Inl (not_found entity_type)
      | Some t \<Rightarrow> Inr (th_world t, Some (th_owner t)))"

definition load_case_events :: "office \<Rightarrow> ident \<Rightarrow> action list" where
  "load_case_events o' case_id = sort_key ac_created (filter (\<lambda>a. ac_case a = case_id) (of_actions o'))"

definition notice_row :: "ident \<Rightarrow> ustring \<Rightarrow> takedown_input \<Rightarrow> ident \<Rightarrow> ident option \<Rightarrow> ustring \<Rightarrow> ustring list option \<Rightarrow> action" where
  "notice_row case_id action input w account validity missing =
     (let f = ti_fields input in
      (plain_action case_id None action (entity_type_as_db_str (ti_entity_type input)) (ti_entity input) w account None)
        \<lparr>ac_claimant_name := nf_claimant_name f, ac_claimant_contact := nf_claimant_contact f, ac_work := nf_work f,
         ac_location := nf_location f, ac_good_faith := nf_good_faith f, ac_accuracy := nf_accuracy f,
         ac_signature := nf_signature f, ac_validity := Some validity, ac_missing := missing\<rparr>)"

definition submit_takedown_notice :: "ladder \<Rightarrow> takedown_input \<Rightarrow> office \<Rightarrow> (ustring + action list) \<times> office" where
  "submit_takedown_notice l input o' =
     (let missing = validate_takedown_notice (ti_fields input); (case_id, o1) = now_v7 o' in
      case resolve_entity_owner o1 (ti_entity_type input) (ti_entity input) of
        Inl e \<Rightarrow> (Inl e, o1)
      | Inr (w, account) \<Rightarrow>
          if missing \<noteq> [] then
            (let o2 = commit (insert_action (notice_row case_id notice_rejected_incomplete input w account
                       (U ''invalid_missing_elements'') (Some missing)) o1) in
             (Inr (load_case_events o2 case_id), o2))
          else
            let o2 = commit (insert_action (notice_row case_id notice_received input w account (U ''valid'') None) o1);
                o3 = commit (insert_action (notice_row case_id content_disabled input w account (U ''valid'') None) o2);
                o4 = (case account of Some owner \<Rightarrow> tell_of_strike owner case_id l o3 | None \<Rightarrow> o3);
                (copies, o5) = fan_out_disable case_id (entity_type_as_db_str (ti_entity_type input)) (ti_entity input) account o4 in
            (Inr (load_case_events o5 case_id), o5))"

fun join_words :: "ustring \<Rightarrow> ustring list \<Rightarrow> ustring" where
  "join_words sep [] = []"
| "join_words sep [w] = w"
| "join_words sep (w # v # ws) = w @ sep @ join_words sep (v # ws)"

definition submit_counter_notice ::
    "ident \<Rightarrow> (ident \<Rightarrow> bool) \<Rightarrow> int \<Rightarrow> counter_input \<Rightarrow> office \<Rightarrow> (ustring + action list) \<times> office" where
  "submit_counter_notice user runs waiting_days input o' =
     (let missing = validate_counter_notice (ci_fields input); f = ci_fields input; case_id = ci_case input in
      if missing \<noteq> [] then (Inl (U ''Counter-notice missing required elements: '' @ join_words (U '', '') missing), o')
      else case last_of_case o' case_id of
        None \<Rightarrow> (Inl (U ''Case not found''), o')
      | Some prior \<Rightarrow>
          if \<not> runs (ac_world prior)
          then (Inl (U ''Only the content's owning GM may submit a counter-notice for this case''), o')
          else
            let due = of_clock o' + days waiting_days;
                row = (\<lambda>action. plain_action case_id None action (ac_entity_type prior) (ac_entity prior) (ac_world prior) (Some user) None);
                received = (row counter_notice_received)\<lparr>ac_location := cf_description f, ac_good_faith := cf_mistake f,
                  ac_accuracy := cf_consent f, ac_signature := cf_signature f, ac_validity := Some (U ''valid''),
                  ac_counter_notice := Some case_id, ac_created_by := Some user\<rparr>;
                forwarded = (row counter_notice_forwarded)\<lparr>ac_claimant_contact := cf_contact f, ac_good_faith := True,
                  ac_accuracy := True, ac_counter_notice := Some case_id, ac_due := Some due, ac_created_by := Some user\<rparr>;
                o1 = fan_out_forward case_id due (commit (insert_action forwarded (commit (insert_action received o')))) in
            (Inr (load_case_events o1 case_id), o1))"

definition resolve_moderation_case ::
    "bool \<Rightarrow> ladder \<Rightarrow> ident \<Rightarrow> moderation_action_type \<Rightarrow> office \<Rightarrow> (ustring + action list) \<times> office" where
  "resolve_moderation_case is_admin l case_id resolution o' =
     (if \<not> is_admin then (Inl (U ''Only compliance staff may resolve a moderation case''), o')
      else case last_of_case o' case_id of
        None \<Rightarrow> (Inl (U ''Case not found''), o')
      | Some prior \<Rightarrow>
          if resolution = ContentDisabledAsCopy
          then (Inl (U ''A copy is disabled only by its source's takedown. Resolve the notice's case instead.''), o')
          else
            let action = action_type_as_db_str resolution;
                becomes_strike = (\<not> counts_as_strike (ac_type prior) \<and> counts_as_strike action);
                o1 = commit (insert_action (plain_action case_id None action (ac_entity_type prior) (ac_entity prior)
                       (ac_world prior) (ac_account prior) None) o');
                o2 = (case ac_account prior of
                        Some owner \<Rightarrow> if becomes_strike then tell_of_strike owner case_id l o1 else o1
                      | None \<Rightarrow> o1);
                o3 = fan_out_resolve case_id action o2;
                o4 = (if resolution = ContentRestored
                      then tell_of_restoration case_id (ac_entity_type prior, ac_entity prior) o3 else o3) in
            (Inr (load_case_events o4 case_id), o4))"

section \<open>What can have happened\<close>

text \<open>An instance without cases, and the requests, reads and sweeps since, at the time of the clock; the
  rest of the server adopts copies and changes content and accounts as it likes; time goes on.\<close>

inductive moderated :: "office \<Rightarrow> bool" where
  started: "moderated \<lparr>of_clock = now, of_fresh = i, of_actions = [], of_adoptions = [], of_windows = [], of_notices = [],
    of_users = users, of_things = things\<rparr>"
| taken_down: "moderated s \<Longrightarrow> moderated (snd (submit_takedown_notice l input s))"
| countered: "moderated s \<Longrightarrow> moderated (snd (submit_counter_notice user runs d counter s))"
| resolved: "moderated s \<Longrightarrow> moderated (snd (resolve_moderation_case adm l case_id resolution s))"
| read: "moderated s \<Longrightarrow> moderated (snd (effective_status entity_type entity s))"
| adopted: "moderated s \<Longrightarrow> moderated (record_adoption entity_type source copy destination adopter s)"
| swept: "moderated s \<Longrightarrow> moderated (snd (sweep_scoped keys l (of_clock s) only s))"
| appealed: "moderated s \<Longrightarrow> moderated (snd (file_appeal account statement (of_clock s) s))"
| decided: "moderated s \<Longrightarrow> moderated (snd (resolve_appeal account by decision l (of_clock s) s))"
| executed: "moderated s \<Longrightarrow> moderated (snd (execute_by_administrator keys account (of_clock s) s))"
| elsewhere: "moderated s \<Longrightarrow> moderated (s\<lparr>of_users := users, of_things := things\<rparr>)"
| time: "moderated s \<Longrightarrow> 0 \<le> d \<Longrightarrow> moderated (s\<lparr>of_clock := of_clock s + d\<rparr>)"

end
