(* ===== verification/Moderation_Windows.thy ===== *)
theory Moderation_Windows
  imports Moderation_Notices
begin

text \<open>
  What holds of the windows of accounts in every state the requests of \<open>Moderation_Notices\<close> can lead to:
  the invariant \<open>windows_ok\<close>, kept by each request (most are \<open>quiet\<close>: they leave the windows alone), and
  whom a sweep may delete.
\<close>

section \<open>Windows\<close>

text \<open>At most one window of an account is open; a window is closed exactly when it says why; and one that
  ended in deletion had run its time, disabled the account and had no appeal open.\<close>

definition window_ok :: "instant \<Rightarrow> window \<Rightarrow> bool" where
  "window_ok now w \<longleftrightarrow>
     (wi_closed w = None \<longleftrightarrow> wi_reason w = None) \<and>
     wi_appeal w \<in> {appeal_none, appeal_open, appeal_upheld, appeal_rejected} \<and>
     (wi_reason w = Some reason_deleted \<longrightarrow>
        wi_disables w \<and> wi_appeal w \<noteq> appeal_open \<and> (\<exists>t. wi_closed w = Some t \<and> wi_due w \<le> t \<and> t \<le> now))"

definition windows_ok :: "office \<Rightarrow> bool" where
  "windows_ok s \<longleftrightarrow>
     distinct (map wi_id (of_windows s)) \<and> (\<forall>w \<in> set (of_windows s). wi_id w < of_fresh s) \<and>
     (\<forall>w \<in> set (of_windows s). window_ok (of_clock s) w) \<and>
     (\<forall>v \<in> set (of_windows s). \<forall>w \<in> set (of_windows s).
        wi_account v = wi_account w \<and> wi_closed v = None \<and> wi_closed w = None \<longrightarrow> wi_id v = wi_id w)"


text \<open>Statements that leave the windows alone, ids and time going on.\<close>

definition quiet :: "office \<Rightarrow> office \<Rightarrow> bool" where
  "quiet s t \<longleftrightarrow> of_windows t = of_windows s \<and> of_fresh s \<le> of_fresh t \<and> of_clock s \<le> of_clock t"

lemma quiet_refl [simp]: "quiet s s"
  by (simp add: quiet_def)

lemma quiet_trans: "quiet s t \<Longrightarrow> quiet t u \<Longrightarrow> quiet s u"
  by (simp add: quiet_def)

lemma quiet_statements [simp]:
  "quiet s (insert_action row t) \<longleftrightarrow> quiet s t" "quiet s (tell account said t) \<longleftrightarrow> quiet s t"
  "quiet s (insert_child_event i j a et e w d t) \<longleftrightarrow> quiet s t" "quiet s (tell_of_restoration i en t) \<longleftrightarrow> quiet s t"
  by (auto simp: quiet_def commit_def insert_action_def tell_def insert_child_event_def tell_of_restoration_def split: option.split)

lemma quiet_commit: "quiet s t \<Longrightarrow> quiet s (commit t)"
  by (simp add: quiet_def commit_def)

lemma quiet_foldl: "(\<And>x t. quiet t (f t x)) \<Longrightarrow> quiet s (foldl f s xs)"
  by (induction xs arbitrary: s) (auto intro: quiet_trans)

lemma window_ok_later: "window_ok n w \<Longrightarrow> n \<le> m \<Longrightarrow> window_ok m w"
  by (auto simp: window_ok_def intro: order_trans)

lemma windows_okI:
  assumes "distinct (map wi_id (of_windows s))" and "\<And>w. w \<in> set (of_windows s) \<Longrightarrow> wi_id w < of_fresh s"
    and "\<And>w. w \<in> set (of_windows s) \<Longrightarrow> window_ok (of_clock s) w"
    and "\<And>v w. v \<in> set (of_windows s) \<Longrightarrow> w \<in> set (of_windows s) \<Longrightarrow> wi_account v = wi_account w \<Longrightarrow>
      wi_closed v = None \<Longrightarrow> wi_closed w = None \<Longrightarrow> wi_id v = wi_id w"
  shows "windows_ok s"
  unfolding windows_ok_def using assms(1-3) assms(4) by (intro conjI ballI impI) (assumption | elim conjE)+

lemma windows_okD:
  assumes "windows_ok s"
  shows "distinct (map wi_id (of_windows s))" and "w \<in> set (of_windows s) \<Longrightarrow> wi_id w < of_fresh s"
    and "w \<in> set (of_windows s) \<Longrightarrow> window_ok (of_clock s) w"
    and "v \<in> set (of_windows s) \<Longrightarrow> w \<in> set (of_windows s) \<Longrightarrow> wi_account v = wi_account w \<Longrightarrow>
      wi_closed v = None \<Longrightarrow> wi_closed w = None \<Longrightarrow> wi_id v = wi_id w"
proof -
  note ok = assms [unfolded windows_ok_def]
  show "distinct (map wi_id (of_windows s))" by (rule ok [THEN conjunct1])
  show "w \<in> set (of_windows s) \<Longrightarrow> wi_id w < of_fresh s" using ok [THEN conjunct2, THEN conjunct1] by blast
  show "w \<in> set (of_windows s) \<Longrightarrow> window_ok (of_clock s) w" using ok [THEN conjunct2, THEN conjunct2, THEN conjunct1] by blast
  show "v \<in> set (of_windows s) \<Longrightarrow> w \<in> set (of_windows s) \<Longrightarrow> wi_account v = wi_account w \<Longrightarrow>
      wi_closed v = None \<Longrightarrow> wi_closed w = None \<Longrightarrow> wi_id v = wi_id w"
    using ok [THEN conjunct2, THEN conjunct2, THEN conjunct2] by blast
qed

lemma same_window: "windows_ok s \<Longrightarrow> v \<in> set (of_windows s) \<Longrightarrow> w \<in> set (of_windows s) \<Longrightarrow> wi_id v = wi_id w \<Longrightarrow> v = w"
  using windows_okD(1) [of s] by (auto simp: distinct_map inj_on_def)

lemma quiet_keeps:
  assumes q: "quiet s t" and ok: "windows_ok s"
  shows "windows_ok t"
proof -
  have eq: "of_windows t = of_windows s" and le: "of_fresh s \<le> of_fresh t" "of_clock s \<le> of_clock t" using q by (simp_all add: quiet_def)
  show ?thesis
  proof (rule windows_okI, unfold eq)
    show "wi_id w < of_fresh t" if "w \<in> set (of_windows s)" for w using windows_okD(2) [OF ok that] le(1) by simp
    show "window_ok (of_clock t) w" if "w \<in> set (of_windows s)" for w using windows_okD(3) [OF ok that] le(2) by (rule window_ok_later)
  qed (rule windows_okD [OF ok]; assumption)+
qed

lemma quiet_disable: "quiet s (fst (disable_copy parent copy (s, c, b)))"
  by (auto simp: disable_copy_def now_v7_def Let_def split: option.split prod.split) (auto simp: quiet_def)

lemma quiet_disables: "quiet s (fst (foldl (\<lambda>s copy. disable_copy parent copy s) (s, c, b) copies))"
proof (induction copies arbitrary: s c b)
  case (Cons copy copies)
  obtain t c' b' where t: "disable_copy parent copy (s, c, b) = (t, c', b')" by (cases "disable_copy parent copy (s, c, b)")
  then have "quiet s t" using quiet_disable [of s parent copy c b] by simp
  then show ?case using Cons.IH [of t c' b'] by (auto simp: t intro: quiet_trans)
qed simp

lemma quiet_fan_out_disable: "quiet s (snd (fan_out_disable parent et e sharer s))"
proof -
  obtain t children table where t: "foldl (\<lambda>s copy. disable_copy parent copy s) (s, [], []) (copies_of (of_adoptions s) (et, e)) = (t, children, table)"
    by (metis surj_pair)
  then have "quiet s t" using quiet_disables [of s parent "[]" "[]"] by (metis fst_conv)
  moreover have "quiet t (foldl (\<lambda>s (adopter, cases, names). tell adopter (Adopted_copy_disabled cases names) s) t table)"
    by (rule quiet_foldl) auto
  ultimately show ?thesis
    by (auto simp: fan_out_disable_def t Let_def intro!: quiet_commit split: option.split intro: quiet_trans)
qed

lemma quiet_fan_out: "quiet s (fan_out_forward parent due s)" "quiet s (fan_out_resolve parent res s)"
  unfolding fan_out_forward_def fan_out_resolve_def by (auto simp: Let_def intro!: quiet_commit quiet_foldl)

lemma quiet_effective_status: "quiet s (snd (effective_status et e s))"
  by (auto simp: effective_status_def intro!: quiet_commit split: option.split)


section \<open>Every request keeps the windows sound\<close>

lemma update_window_keeps:
  assumes ok: "windows_ok s"
    and f: "\<And>w. w \<in> set (of_windows s) \<Longrightarrow> wi_id w = i \<Longrightarrow>
      window_ok (of_clock s) (f w) \<and> wi_id (f w) = wi_id w \<and> wi_account (f w) = wi_account w \<and> (wi_closed (f w) = None \<longrightarrow> wi_closed w = None)"
  shows "windows_ok (update_window i f s)"
proof -
  let ?g = "\<lambda>w. if wi_id w = i then f w else w"
  have g: "window_ok (of_clock s) (?g w) \<and> wi_id (?g w) = wi_id w \<and> wi_account (?g w) = wi_account w \<and> (wi_closed (?g w) = None \<longrightarrow> wi_closed w = None)"
    if "w \<in> set (of_windows s)" for w
    using f [OF that] windows_okD(3) [OF ok that] by auto
  have ws: "of_windows (update_window i f s) = map ?g (of_windows s)" and rest: "of_fresh (update_window i f s) = of_fresh s"
      "of_clock (update_window i f s) = of_clock s"
    by (simp_all add: update_window_def)
  have ids: "map wi_id (map ?g (of_windows s)) = map wi_id (of_windows s)"
    unfolding map_map by (rule map_cong) (use g in auto)
  show ?thesis
  proof (rule windows_okI, unfold ws rest)
    show "distinct (map wi_id (map ?g (of_windows s)))" unfolding ids by (rule windows_okD(1) [OF ok])
    show "wi_id w < of_fresh s" if "w \<in> set (map ?g (of_windows s))" for w
    proof -
      obtain v where v: "v \<in> set (of_windows s)" "w = ?g v" using \<open>w \<in> set (map ?g (of_windows s))\<close> by auto
      show ?thesis unfolding v(2) using g [OF v(1)] windows_okD(2) [OF ok v(1)] by simp
    qed
    show "window_ok (of_clock s) w" if "w \<in> set (map ?g (of_windows s))" for w
    proof -
      obtain v where v: "v \<in> set (of_windows s)" "w = ?g v" using \<open>w \<in> set (map ?g (of_windows s))\<close> by auto
      show ?thesis unfolding v(2) using g [OF v(1)] by blast
    qed
    show "wi_id v = wi_id w" if "v \<in> set (map ?g (of_windows s))" "w \<in> set (map ?g (of_windows s))" "wi_account v = wi_account w"
      "wi_closed v = None" "wi_closed w = None" for v w
    proof -
      obtain v0 w0 where v: "v0 \<in> set (of_windows s)" "v = ?g v0" "w0 \<in> set (of_windows s)" "w = ?g w0"
        using \<open>v \<in> set (map ?g (of_windows s))\<close> \<open>w \<in> set (map ?g (of_windows s))\<close> by auto
      have "wi_account v0 = wi_account w0" "wi_closed v0 = None" "wi_closed w0 = None"
        using that(3-5) g [OF v(1)] g [OF v(3)] unfolding v(2,4) by metis+
      then have "wi_id v0 = wi_id w0" using windows_okD(4) [OF ok v(1,3)] by blast
      then show ?thesis using g [OF v(1)] g [OF v(3)] unfolding v(2,4) by metis
    qed
  qed
qed

lemma tell_keeps [simp]: "windows_ok (tell account said' s) = windows_ok s"
proof
  show "windows_ok s \<Longrightarrow> windows_ok (tell account said' s)" by (rule quiet_keeps [where s = s]) simp_all
  show "windows_ok (tell account said' s) \<Longrightarrow> windows_ok s"
    by (rule quiet_keeps [where s = "tell account said' s"]) (simp_all add: quiet_def tell_def)
qed

lemma close_keeps:
  assumes ok: "windows_ok s" and t: "t \<in> set (of_windows s)" "wi_closed t = None"
    and deleted: "reason = reason_deleted \<Longrightarrow> wi_disables t \<and> wi_appeal t \<noteq> appeal_open \<and> wi_due t \<le> now" and now: "now \<le> of_clock s"
  shows "windows_ok (close_termination t reason now s)"
proof -
  have "windows_ok (update_window (wi_id t) (\<lambda>w. w\<lparr>wi_closed := Some now, wi_reason := Some reason\<rparr>) s)"
  proof (rule update_window_keeps [OF ok])
    fix w assume "w \<in> set (of_windows s)" "wi_id w = wi_id t"
    then have "w = t" using same_window [OF ok _ t(1)] by simp
    then show "window_ok (of_clock s) (w\<lparr>wi_closed := Some now, wi_reason := Some reason\<rparr>) \<and>
        wi_id (w\<lparr>wi_closed := Some now, wi_reason := Some reason\<rparr>) = wi_id w \<and>
        wi_account (w\<lparr>wi_closed := Some now, wi_reason := Some reason\<rparr>) = wi_account w \<and>
        (wi_closed (w\<lparr>wi_closed := Some now, wi_reason := Some reason\<rparr>) = None \<longrightarrow> wi_closed w = None)"
      using windows_okD(3) [OF ok t(1)] deleted now by (auto simp: window_ok_def)
  qed
  then show ?thesis
    by (auto simp: close_termination_def Let_def split: option.split)
qed

lemma open_unique: "windows_ok s \<Longrightarrow> open_termination_of s account = None \<Longrightarrow>
    w \<in> set (of_windows s) \<Longrightarrow> wi_closed w = None \<Longrightarrow> wi_account w \<noteq> account"
  by (auto simp: open_termination_of_def find_None_iff)

lemma open_termination_Some: "open_termination_of s account = Some t \<Longrightarrow>
    t \<in> set (of_windows s) \<and> wi_account t = account \<and> wi_closed t = None"
  by (auto simp: open_termination_of_def find_Some_iff)

lemma add_window_keeps:
  assumes ok: "windows_ok s" and none: "open_termination_of s (wi_account w) = None" and id: "wi_id w = of_fresh s"
    and w: "window_ok (of_clock s) w"
  shows "windows_ok (s\<lparr>of_fresh := of_fresh s + 1, of_windows := of_windows s @ [w]\<rparr>)"
proof (rule windows_okI, goal_cases)
  case 1 then show ?case using windows_okD(1,2) [OF ok] id by fastforce
next
  case (2 v) then show ?case using windows_okD(2) [OF ok, of v] id by auto
next
  case (3 v) then show ?case using windows_okD(3) [OF ok, of v] w by auto
next
  case (4 u v)
  then show ?case using windows_okD(4) [OF ok, of u v] open_unique [OF ok none, of u] open_unique [OF ok none, of v] by auto
qed

lemma open_termination_keeps: "windows_ok s \<Longrightarrow> windows_ok (snd (open_termination account l now s))"
proof -
  assume ok: "windows_ok s"
  have "windows_ok (s\<lparr>of_fresh := of_fresh s + 1, of_windows := of_windows s @
      [\<lparr>wi_id = of_fresh s, wi_account = account, wi_opened = now, wi_due = due, wi_strikes = k, wi_requires_human = h, wi_disables = d,
        wi_appeal = appeal_none, wi_statement = None, wi_filed = None, wi_resolved = None, wi_resolved_by = None, wi_note = None,
        wi_closed = None, wi_reason = None\<rparr>]\<rparr>)"
    if "open_termination_of s account = None" for due k h d
    by (rule add_window_keeps [OF ok]) (use that in \<open>simp_all add: window_ok_def\<close>)
  then show ?thesis
    using ok by (auto simp: open_termination_def now_v7_def Let_def split: prod.split)
qed

lemma delete_keeps: "windows_ok s \<Longrightarrow> windows_ok (delete_user_data account s)"
  by (rule quiet_keeps [where s = s]) (simp_all add: quiet_def delete_user_data_def)

lemma execute_keeps:
  assumes "windows_ok s" and "t \<in> set (of_windows s)" and "is_due_for_deletion t now" and "now \<le> of_clock s"
  shows "windows_ok (snd (execute_termination keys t now s))"
  unfolding execute_termination_def snd_conv
  by (rule close_keeps) (use assms in \<open>auto simp: delete_keeps is_due_for_deletion_def\<close>, simp_all add: delete_user_data_def)


lemma close_keeps_others:
  "v \<in> set (of_windows s) \<Longrightarrow> wi_id v \<noteq> wi_id t \<Longrightarrow> v \<in> set (of_windows (close_termination t reason now s))"
  "of_clock (close_termination t reason now s) = of_clock s"
  by (auto simp: close_termination_def Let_def tell_def update_window_def split: option.split)

lemma why_not_deleted: "why_below_threshold s t \<noteq> reason_deleted"
  by (simp add: why_below_threshold_def reason_deleted_def reason_counter_notice_def reason_admin_reversed_def
      reason_strikes_aged_out_def U_def)

lemma sweep_window_keeps:
  assumes ok: "windows_ok s" and t: "t \<in> set (of_windows s)" "wi_closed t = None" and now: "now \<le> of_clock s"
    and step: "sweep_window keys l now t (r, s) = (r', s')"
  shows "windows_ok s' \<and> now \<le> of_clock s' \<and> (\<forall>v \<in> set (of_windows s). wi_id v \<noteq> wi_id t \<longrightarrow> v \<in> set (of_windows s'))"
proof -
  consider (below) "s' = close_termination t (why_below_threshold s t) now s"
    | (due) "is_due_for_deletion t now" "s' = snd (execute_termination keys t now s)" | (stays) "s' = s"
    using step by (auto simp: sweep_window_def split: if_splits prod.splits)
  then show ?thesis
  proof cases
    case below
    then show ?thesis
      using close_keeps [OF ok t _ now, of "why_below_threshold s t"] close_keeps_others [where s = s and t = t] now by (auto simp: why_not_deleted)
  next
    case due
    have "windows_ok s'" unfolding due(2) by (rule execute_keeps [OF ok t(1) due(1) now])
    moreover have "of_clock s' = of_clock s" unfolding due(2)
      by (simp add: execute_termination_def close_keeps_others delete_user_data_def)
    moreover have "v \<in> set (of_windows s')" if "v \<in> set (of_windows s)" "wi_id v \<noteq> wi_id t" for v
      unfolding due(2) execute_termination_def snd_conv
      by (rule close_keeps_others(1) [OF _ that(2)]) (use that in \<open>simp add: delete_user_data_def\<close>)
    ultimately show ?thesis using now by simp
  qed (use ok now in simp)
qed

lemma sweep_windows_keep:
  "windows_ok s \<Longrightarrow> now \<le> of_clock s \<Longrightarrow> distinct (map wi_id ts) \<Longrightarrow>
     (\<forall>t \<in> set ts. t \<in> set (of_windows s) \<and> wi_closed t = None) \<Longrightarrow>
     windows_ok (snd (foldl (\<lambda>s t. sweep_window keys l now t s) (r, s) ts))"
proof (induction ts arbitrary: r s)
  case (Cons t ts)
  obtain r' s' where step: "sweep_window keys l now t (r, s) = (r', s')" by (metis surj_pair)
  have "t \<in> set (of_windows s)" "wi_closed t = None" using Cons.prems(4) by simp_all
  note keeps = sweep_window_keeps [OF Cons.prems(1) this Cons.prems(2) step]
  have "\<forall>u \<in> set ts. u \<in> set (of_windows s') \<and> wi_closed u = None"
  proof
    fix u assume u: "u \<in> set ts"
    then have "wi_id u \<noteq> wi_id t" using Cons.prems(3) by (auto simp: image_iff)
    then show "u \<in> set (of_windows s') \<and> wi_closed u = None" using keeps Cons.prems(4) u by simp
  qed
  then show ?case using Cons.IH [of s' r'] keeps Cons.prems(3) step by simp
qed simp

lemma open_termination_clock: "of_clock (snd (open_termination account l now s)) = of_clock s"
  by (simp add: open_termination_def now_v7_def Let_def tell_def split: prod.split)

lemma sweep_open_keeps:
  "windows_ok s \<Longrightarrow> windows_ok (snd (sweep_open l now e (r, s)))" "of_clock (snd (sweep_open l now e (r, s))) = of_clock s"
  using open_termination_keeps [of s "fst e" l now] open_termination_clock [of "fst e" l now s]
  by (auto simp: sweep_open_def split: prod.split option.split)

lemma sweep_opens_keep:
  "windows_ok s \<Longrightarrow> windows_ok (snd (foldl (\<lambda>s e. sweep_open l now e s) (r, s) es)) \<and>
     of_clock (snd (foldl (\<lambda>s e. sweep_open l now e s) (r, s) es)) = of_clock s"
proof (induction es arbitrary: r s)
  case (Cons e es)
  obtain r' s' where step: "sweep_open l now e (r, s) = (r', s')" by (metis surj_pair)
  then show ?case using Cons.IH [of s' r'] sweep_open_keeps [where s = s and l = l and now = now and e = e and r = r] Cons.prems by simp
qed simp

lemma sweep_keeps: "windows_ok s \<Longrightarrow> now \<le> of_clock s \<Longrightarrow> windows_ok (snd (sweep_scoped keys l now only s))"
proof -
  assume s: "windows_ok s" "now \<le> of_clock s"
  obtain r t where t: "foldl (\<lambda>s e. sweep_open l now e s) (\<lparr>sr_opened = 0, sr_closed = 0, sr_deleted = 0, sr_files = []\<rparr>, s)
      (strikes_by_account (of_clock s) only (la_lookback_days l) (of_actions s)) = (r, t)" by (metis surj_pair)
  then have ok: "windows_ok t" "of_clock t = of_clock s" using sweep_opens_keep [OF s(1)] by (metis snd_conv)+
  show ?thesis
    unfolding sweep_scoped_def t Let_def snd_conv
    by (rule sweep_windows_keep) (use ok s(2) windows_okD(1) [OF ok(1)] in \<open>auto simp: distinct_map_filter\<close>)
qed

lemma file_appeal_keeps: "windows_ok s \<Longrightarrow> windows_ok (snd (file_appeal account statement now s))"
proof -
  assume ok: "windows_ok s"
  have "windows_ok (update_window (wi_id t) (\<lambda>w. w\<lparr>wi_appeal := appeal_open, wi_statement := Some statement, wi_filed := Some now\<rparr>) s)"
    if "open_termination_of s account = Some t" for t
  proof (rule update_window_keeps [OF ok], goal_cases)
    case (1 w)
    then have "w = t" using same_window [OF ok] open_termination_Some [OF that] by blast
    then show ?case using open_termination_Some [OF that] windows_okD(3) [OF ok, of t] by (auto simp: window_ok_def)
  qed
  then show ?thesis using ok by (auto simp: file_appeal_def Let_def split: option.split)
qed


lemma restore_case_quiet: "restore_case case_id s = Some t \<Longrightarrow> quiet s t"
  by (auto simp: restore_case_def)

lemma resolve_appeal_keeps:
  assumes ok: "windows_ok s" and now: "now \<le> of_clock s"
  shows "windows_ok (snd (resolve_appeal account by decision l now s))"
proof (cases "open_termination_of s account")
  case (Some t)
  note t = open_termination_Some [OF Some]
  let ?f = "\<lambda>w. w\<lparr>wi_appeal := (if apd_upheld decision then appeal_upheld else appeal_rejected),
      wi_resolved := Some now, wi_resolved_by := Some by, wi_note := apd_note decision\<rparr>"
  let ?o1 = "update_window (wi_id t) ?f s"
  have ok1: "windows_ok ?o1"
  proof (rule update_window_keeps [OF ok], goal_cases)
    case (1 w)
    then have "w = t" using same_window [OF ok] t by blast
    then show ?case using t windows_okD(3) [OF ok, of t] by (auto simp: window_ok_def)
  qed
  have in1: "?f t \<in> set (of_windows ?o1)" using t by (auto simp: update_window_def)
  have close: "windows_ok (close_termination (?f t) reason_appeal_upheld now u)" if "quiet ?o1 u" for u
  proof (rule close_keeps [OF quiet_keeps [OF that ok1]])
    show "?f t \<in> set (of_windows u)" using that in1 by (simp add: quiet_def)
    show "wi_closed (?f t) = None" using t by simp
    show "now \<le> of_clock u" using that now by (simp add: quiet_def update_window_def)
  qed (simp add: reason_appeal_upheld_def reason_deleted_def U_def)
  show ?thesis
    using ok quiet_keeps [OF quiet_commit [of "?o1" "tell account sd ?o1" for sd] ok1]
      quiet_keeps [OF quiet_commit [OF quiet_refl] close [OF restore_case_quiet]]
    by (auto simp: resolve_appeal_def Some Let_def split: option.split sum.split)
qed (simp add: resolve_appeal_def ok)

lemma execute_by_administrator_keeps:
  "windows_ok s \<Longrightarrow> now \<le> of_clock s \<Longrightarrow> windows_ok (snd (execute_by_administrator keys account now s))"
  using execute_keeps [of s _ now keys] open_termination_Some [of s account]
  by (auto simp: execute_by_administrator_def split: option.split prod.split) (metis snd_conv)

lemma tell_of_strike_keeps: "windows_ok s \<Longrightarrow> windows_ok (tell_of_strike account case_id l s)"
  by (auto simp: tell_of_strike_def Let_def intro!: open_termination_keeps split: option.split)

lemma insert_keeps: "windows_ok s \<Longrightarrow> windows_ok (commit (insert_action row s))"
  by (rule quiet_keeps [where s = s]) (simp_all add: quiet_commit)

lemma submit_takedown_keeps: "windows_ok s \<Longrightarrow> windows_ok (snd (submit_takedown_notice l input s))"
proof -
  assume ok: "windows_ok s"
  obtain case_id o1 where o1: "now_v7 s = (case_id, o1)" by (metis surj_pair)
  have ok1: "windows_ok o1" by (rule quiet_keeps [OF _ ok]) (use o1 in \<open>auto simp: now_v7_def quiet_def\<close>)
  have fan: "windows_ok (snd (fan_out_disable p et e sharer t))" if "windows_ok t" for p et e sharer t
    by (rule quiet_keeps [OF quiet_fan_out_disable that])
  have told: "windows_ok (case account of Some owner \<Rightarrow> tell_of_strike owner case_id l t | None \<Rightarrow> t)" if "windows_ok t" for account t case_id
    using that by (auto intro: tell_of_strike_keeps split: option.split)
  show ?thesis
    unfolding submit_takedown_notice_def o1 Let_def case_prod_beta fst_conv snd_conv
    by (auto simp del: U_simps simp: ok1 intro!: fan told insert_keeps split: sum.split)
qed


lemma submit_counter_keeps: "windows_ok s \<Longrightarrow> windows_ok (snd (submit_counter_notice user runs d counter s))"
proof -
  assume ok: "windows_ok s"
  have fan: "windows_ok (fan_out_forward p due t)" if "windows_ok t" for p due t
    by (rule quiet_keeps [OF quiet_fan_out(1) that])
  show ?thesis
    unfolding submit_counter_notice_def Let_def
    by (auto simp del: U_simps simp: ok intro!: fan insert_keeps split: option.split)
qed

lemma resolve_case_keeps: "windows_ok s \<Longrightarrow> windows_ok (snd (resolve_moderation_case adm l case_id resolution s))"
proof -
  assume ok: "windows_ok s"
  have fan: "windows_ok (fan_out_resolve p r t)" if "windows_ok t" for p r t
    by (rule quiet_keeps [OF quiet_fan_out(2) that])
  have restored: "windows_ok (tell_of_restoration i e t)" if "windows_ok t" for i e t
    by (rule quiet_keeps [OF _ that]) simp
  have told: "windows_ok (case account of Some owner \<Rightarrow> if b then tell_of_strike owner case_id l t else t | None \<Rightarrow> t)"
    if "windows_ok t" for account t case_id b
    using that by (auto intro: tell_of_strike_keeps split: option.split)
  show ?thesis
    unfolding resolve_moderation_case_def Let_def
    by (auto simp del: U_simps simp: ok intro!: fan restored told tell_of_strike_keeps insert_keeps split: option.split)
qed

lemma moderated_windows: "moderated s \<Longrightarrow> windows_ok s"
proof (induction rule: moderated.induct)
  case started
  show ?case by (rule windows_okI) simp_all
next
  case read
  then show ?case using quiet_keeps [OF quiet_effective_status] by blast
next
  case (adopted s et source copy destination adopter)
  show ?case by (rule quiet_keeps [OF _ adopted.IH]) (simp add: quiet_def record_adoption_def)
next
  case (elsewhere s users things)
  show ?case by (rule quiet_keeps [OF _ elsewhere.IH]) (simp add: quiet_def)
next
  case (time s d)
  show ?case by (rule quiet_keeps [OF _ time.IH]) (simp add: quiet_def time.hyps)
qed (simp_all add: submit_takedown_keeps submit_counter_keeps resolve_case_keeps sweep_keeps file_appeal_keeps
    resolve_appeal_keeps execute_by_administrator_keeps)

section \<open>Whom the sweep deletes\<close>

lemma close_users [simp]: "of_users (close_termination t reason now s) = of_users s"
  "of_actions (close_termination t reason now s) = of_actions s"
  by (auto simp: close_termination_def Let_def tell_def update_window_def split: option.split)

lemma open_users [simp]: "of_users (snd (open_termination account l now s)) = of_users s"
  "of_actions (snd (open_termination account l now s)) = of_actions s"
  by (auto simp: open_termination_def now_v7_def Let_def tell_def split: prod.split)

lemma clocks [simp]: "of_clock (delete_user_data account s) = of_clock s" "of_actions (delete_user_data account s) = of_actions s"
  "of_windows (delete_user_data account s) = of_windows s"
  by (simp_all add: delete_user_data_def)

text \<open>A window that ended now, its time over and nobody in the way.\<close>

definition ran_out :: "instant \<Rightarrow> window \<Rightarrow> bool" where
  "ran_out now w \<longleftrightarrow> wi_reason w = Some reason_deleted \<and> wi_closed w = Some now \<and>
     wi_disables w \<and> wi_appeal w \<noteq> appeal_open \<and> wi_due w \<le> now \<and> \<not> wi_requires_human w"

lemma count_strikes_cong: "of_actions t = of_actions s \<Longrightarrow> of_clock t = of_clock s \<Longrightarrow> count_strikes t a l = count_strikes s a l"
  by (simp add: count_strikes_def)

lemma sweep_window_deletes:
  assumes t: "t \<in> set (of_windows s)" "wi_closed t = None" and step: "sweep_window keys l now t (r, s) = (r', s')"
  shows "of_actions s' = of_actions s" and "of_clock s' = of_clock s"
    and "v \<in> set (of_windows s) \<Longrightarrow> wi_id v \<noteq> wi_id t \<Longrightarrow> v \<in> set (of_windows s')"
    and "u \<in> set (of_users s) \<Longrightarrow> u \<notin> set (of_users s') \<Longrightarrow> la_threshold l \<le> count_strikes s' (fst u) l \<and>
      (\<exists>w \<in> set (of_windows s'). wi_account w = fst u \<and> wi_id w = wi_id t \<and> ran_out now w)"
proof -
  consider (below) "s' = close_termination t (why_below_threshold s t) now s"
    | (due) "is_due_for_deletion t now" "\<not> wi_requires_human t" "la_threshold l \<le> count_strikes s (wi_account t) l"
        "s' = snd (execute_termination keys t now s)" | (stays) "s' = s"
    using step by (auto simp: sweep_window_def split: if_splits prod.splits)
  note cs = this
  show a: "of_actions s' = of_actions s" and c: "of_clock s' = of_clock s"
    by (cases rule: cs; simp add: execute_termination_def close_keeps_others)+
  show "v \<in> set (of_windows s) \<Longrightarrow> wi_id v \<noteq> wi_id t \<Longrightarrow> v \<in> set (of_windows s')"
    by (cases rule: cs) (simp_all add: execute_termination_def close_keeps_others)
  show "u \<in> set (of_users s) \<Longrightarrow> u \<notin> set (of_users s') \<Longrightarrow> la_threshold l \<le> count_strikes s' (fst u) l \<and>
      (\<exists>w \<in> set (of_windows s'). wi_account w = fst u \<and> wi_id w = wi_id t \<and> ran_out now w)"
  proof (cases rule: cs)
    case due
    assume u: "u \<in> set (of_users s)" "u \<notin> set (of_users s')"
    then have acct: "fst u = wi_account t" by (auto simp: due(4) execute_termination_def delete_user_data_def)
    have w: "t\<lparr>wi_closed := Some now, wi_reason := Some reason_deleted\<rparr> \<in> set (of_windows s')"
      using t(1) unfolding due(4) execute_termination_def snd_conv
      by (auto simp: close_termination_def Let_def update_window_def reason_deleted_def reason_strikes_aged_out_def
          reason_counter_notice_def reason_admin_reversed_def reason_appeal_upheld_def U_def image_iff tell_def
          split: option.split)
    show ?thesis
      unfolding count_strikes_cong [OF a c] acct
      using due(1-3) w by (auto simp: is_due_for_deletion_def ran_out_def intro!: bexI [OF _ w])
  qed simp_all
qed

lemma sweep_windows_delete:
  assumes "distinct (map wi_id ts)" and "\<forall>t \<in> set ts. t \<in> set (of_windows s) \<and> wi_closed t = None"
    and "foldl (\<lambda>s t. sweep_window keys l now t s) (r, s) ts = (r', s')"
  shows "of_actions s' = of_actions s \<and> of_clock s' = of_clock s \<and>
      (\<forall>v \<in> set (of_windows s). wi_id v \<notin> set (map wi_id ts) \<longrightarrow> v \<in> set (of_windows s')) \<and>
      (\<forall>u \<in> set (of_users s). u \<notin> set (of_users s') \<longrightarrow>
         la_threshold l \<le> count_strikes s' (fst u) l \<and> (\<exists>w \<in> set (of_windows s'). wi_account w = fst u \<and> ran_out now w))"
  using assms
proof (induction ts arbitrary: r s)
  case (Cons t ts)
  obtain r1 s1 where step: "sweep_window keys l now t (r, s) = (r1, s1)" by (metis surj_pair)
  have "t \<in> set (of_windows s)" "wi_closed t = None" using Cons.prems(2) by simp_all
  note d = sweep_window_deletes [OF this step]
  have others: "wi_id u \<noteq> wi_id t" if "u \<in> set ts" for u using that Cons.prems(1) by (auto simp: image_iff)
  have "\<forall>u \<in> set ts. u \<in> set (of_windows s1) \<and> wi_closed u = None" using d(3) others Cons.prems(2) by simp
  then have IH: "of_actions s' = of_actions s1" "of_clock s' = of_clock s1"
      "\<And>v. v \<in> set (of_windows s1) \<Longrightarrow> wi_id v \<notin> set (map wi_id ts) \<Longrightarrow> v \<in> set (of_windows s')"
      "\<And>u. u \<in> set (of_users s1) \<Longrightarrow> u \<notin> set (of_users s') \<Longrightarrow>
         la_threshold l \<le> count_strikes s' (fst u) l \<and> (\<exists>w \<in> set (of_windows s'). wi_account w = fst u \<and> ran_out now w)"
    using Cons.IH [of s1 r1] Cons.prems(1,3) step by simp_all
  have gone: "la_threshold l \<le> count_strikes s' (fst u) l \<and> (\<exists>w \<in> set (of_windows s'). wi_account w = fst u \<and> ran_out now w)"
    if u: "u \<in> set (of_users s)" "u \<notin> set (of_users s')" for u
  proof (cases "u \<in> set (of_users s1)")
    case False
    then obtain w where w: "w \<in> set (of_windows s1)" "wi_account w = fst u" "wi_id w = wi_id t" "ran_out now w"
      and count: "la_threshold l \<le> count_strikes s1 (fst u) l" using d(4) u(1) by blast
    have "wi_id w \<notin> set (map wi_id ts)" using w(3) Cons.prems(1) by simp
    then show ?thesis using IH(3) [OF w(1)] w count count_strikes_cong [OF IH(1,2)] by auto
  qed (use IH(4) u(2) in blast)
  show ?case
  proof (intro conjI ballI impI)
    show "v \<in> set (of_windows s')" if "v \<in> set (of_windows s)" "wi_id v \<notin> set (map wi_id (t # ts))" for v
      using that IH(3) d(3) by simp
  qed (use IH(1,2) d(1,2) gone in auto)
qed simp

lemma sweep_opens_delete_none:
  "of_users (snd (foldl (\<lambda>s e. sweep_open l now e s) (r, s) es)) = of_users s"
proof (induction es arbitrary: r s)
  case (Cons e es)
  obtain r' s' where step: "sweep_open l now e (r, s) = (r', s')" by (metis surj_pair)
  then have "of_users s' = of_users s"
    using open_users [of "fst e" l now s] by (auto simp: sweep_open_def split: prod.splits option.splits if_splits simp del: open_users)
  then show ?case using Cons.IH [of r' s'] step by simp
qed simp

lemma sweep_deletes:
  assumes ok: "windows_ok s" and s': "sweep_scoped keys l now only s = (r', s')"
    and u: "u \<in> set (of_users s)" "u \<notin> set (of_users s')"
  shows "la_threshold l \<le> count_strikes s' (fst u) l \<and> (\<exists>w \<in> set (of_windows s'). wi_account w = fst u \<and> ran_out now w)"
proof -
  obtain r t where t: "foldl (\<lambda>s e. sweep_open l now e s) (\<lparr>sr_opened = 0, sr_closed = 0, sr_deleted = 0, sr_files = []\<rparr>, s)
      (strikes_by_account (of_clock s) only (la_lookback_days l) (of_actions s)) = (r, t)" by (metis surj_pair)
  have ok_t: "windows_ok t" using sweep_opens_keep [OF ok] t by (metis snd_conv)
  have users: "of_users t = of_users s" using sweep_opens_delete_none t by (metis snd_conv)
  let ?ts = "filter (\<lambda>w. wi_closed w = None \<and> (only \<noteq> None \<longrightarrow> Some (wi_account w) = only)) (of_windows t)"
  have ts: "distinct (map wi_id ?ts)" "\<forall>w \<in> set ?ts. w \<in> set (of_windows t) \<and> wi_closed w = None"
    using windows_okD(1) [OF ok_t] by (simp_all add: distinct_map_filter)
  have "foldl (\<lambda>s t. sweep_window keys l now t s) (r, t) ?ts = (r', s')" using s' by (simp add: sweep_scoped_def t)
  from sweep_windows_delete [OF ts this] show ?thesis using u unfolding users [symmetric] by blast
qed


section \<open>Properties\<close>

text \<open>C8: Whatever is noticed, countered, resolved, appealed, decided, swept or executed, in whatever order: an
  account has at most one open window, a window is closed exactly when it says why, and a window that ended in
  deletion had disabled the account, had no appeal open and was past its date.\<close>

theorem windows_stay_sound:
  assumes "moderated s" and "w \<in> set (of_windows s)"
  shows "(wi_closed w = None \<longleftrightarrow> wi_reason w = None) \<and>
    (\<forall>v \<in> set (of_windows s). wi_account v = wi_account w \<and> wi_closed v = None \<and> wi_closed w = None \<longrightarrow> v = w) \<and>
    (wi_reason w = Some reason_deleted \<longrightarrow>
       wi_disables w \<and> wi_appeal w \<noteq> appeal_open \<and> (\<exists>t. wi_closed w = Some t \<and> wi_due w \<le> t \<and> t \<le> of_clock s))"
proof -
  note ok = moderated_windows [OF assms(1)]
  have "v = w" if "v \<in> set (of_windows s)" "wi_account v = wi_account w" "wi_closed v = None" "wi_closed w = None" for v
    using windows_okD(4) [OF ok that(1) assms(2) that(2-4)] same_window [OF ok that(1) assms(2)] by blast
  then show ?thesis using windows_okD(3) [OF ok assms(2)] unfolding window_ok_def by blast
qed

text \<open>To evaluate with: the spaces beyond Latin-1 are looked at only when they must be.\<close>

definition is_wide_space :: "uchar \<Rightarrow> bool" where "is_wide_space c = (is_space c \<and> 133 \<le> c)"

lemma is_wide_space_code [code]:
  "is_wide_space c \<longleftrightarrow> c = 133 \<or> c = 160 \<or> c = 5760 \<or> (8192 \<le> c \<and> c \<le> 8202) \<or> c = 8232 \<or> c = 8233 \<or> c = 8239 \<or>
     c = 8287 \<or> c = 12288"
  by (auto simp: is_wide_space_def is_space_def)

lemma is_space_code [code]: "is_space c = (if c < 133 then 9 \<le> c \<and> c \<le> 13 \<or> c = 32 else is_wide_space c)"
  by (auto simp: is_wide_space_def is_space_def)

text \<open>A table to try it on: Ida (1, an administrator) and Bo (2), whose scene and actor are noticed.\<close>

definition a_ladder :: "ladder" where
  "a_ladder = \<lparr>la_warn_at = 1, la_suspend_publishing_at = 1, la_threshold = 1, la_lookback_days = 365, la_window_days = 30,
     la_requires_human = False\<rparr>"

definition an_office :: "office" where
  "an_office = \<lparr>of_clock = 0, of_fresh = 9, of_actions = [], of_adoptions = [], of_windows = [], of_notices = [],
     of_users = [(1, True), (2, False)],
     of_things = [((U ''scene'', 7), \<lparr>th_world = 5, th_owner = 2, th_name = U ''Map''\<rparr>)]\<rparr>"

definition a_notice :: "takedown_input" where
  "a_notice = \<lparr>ti_entity_type = Scene, ti_entity = 7, ti_fields = \<lparr>nf_claimant_name = U ''C'', nf_claimant_contact = U ''c'',
     nf_work = U ''w'', nf_location = U ''l'', nf_good_faith = True, nf_accuracy = True, nf_signature = U ''C''\<rparr>\<rparr>"

definition noticed_office :: "office" where "noticed_office = snd (submit_takedown_notice a_ladder a_notice an_office)"

definition wait_days :: "int \<Rightarrow> office \<Rightarrow> office" where "wait_days d s = s\<lparr>of_clock := of_clock s + days d\<rparr>"

definition sweep_now :: "office \<Rightarrow> office" where
  "sweep_now s = snd (sweep_scoped (\<lambda>_. [U ''sheet'']) a_ladder (of_clock s) None s)"

definition waited_office :: "office" where "waited_office = wait_days 31 noticed_office"

definition swept_office :: "office" where "swept_office = sweep_now waited_office"

lemma waited_moderated: "moderated waited_office"
  unfolding waited_office_def noticed_office_def an_office_def wait_days_def
  by (intro moderated.intros) (simp add: days_def)

lemma swept_moderated: "moderated swept_office"
  unfolding swept_office_def sweep_now_def by (rule swept [OF waited_moderated])

definition gone_from :: "office \<Rightarrow> office \<Rightarrow> bool" where
  "gone_from s t \<longleftrightarrow> (2, False) \<in> set (of_users s) \<and> (2, False) \<notin> set (of_users t) \<and>
     list_ex (\<lambda>w. wi_reason w = Some reason_deleted) (of_windows t)"

lemma swept_facts: "gone_from waited_office swept_office"
  by code_simp

lemma windows_stay_sound_witness:
  "\<exists>w \<in> set (of_windows swept_office). wi_reason w = Some reason_deleted \<and> wi_disables w \<and> wi_appeal w \<noteq> appeal_open"
proof -
  obtain w where w: "w \<in> set (of_windows swept_office)" "wi_reason w = Some reason_deleted"
    using swept_facts by (auto simp: gone_from_def list_ex_iff)
  then show ?thesis using windows_stay_sound [OF swept_moderated w(1)] by blast
qed

text \<open>C11: Whom the sweep deletes had strikes enough, counted at the sweep, and a window that had disabled the
  account, was past its date, had no appeal open and did not wait for a person; it is closed then, as deleted.\<close>

theorem sweep_deletes_the_due:
  assumes "moderated s" and "sweep_scoped keys l now only s = (report, t)"
    and "u \<in> set (of_users s)" and "u \<notin> set (of_users t)"
  shows "la_threshold l \<le> count_strikes t (fst u) l \<and>
    (\<exists>w \<in> set (of_windows t). wi_account w = fst u \<and> wi_closed w = Some now \<and> wi_reason w = Some reason_deleted \<and>
      wi_disables w \<and> wi_due w \<le> now \<and> wi_appeal w \<noteq> appeal_open \<and> \<not> wi_requires_human w)"
  using sweep_deletes [OF moderated_windows [OF assms(1)] assms(2-4)] unfolding ran_out_def by blast

lemma sweep_deletes_the_due_witness:
  "(2, False) \<in> set (of_users waited_office) \<and> (2, False) \<notin> set (of_users swept_office) \<and>
   la_threshold a_ladder \<le> count_strikes swept_office 2 a_ladder"
proof -
  obtain r where s: "sweep_scoped (\<lambda>_. [U ''sheet'']) a_ladder (of_clock waited_office) None waited_office = (r, swept_office)"
    unfolding swept_office_def sweep_now_def by (metis prod.collapse)
  have u: "(2, False) \<in> set (of_users waited_office)" "(2, False) \<notin> set (of_users swept_office)"
    using swept_facts unfolding gone_from_def by blast+
  show ?thesis using sweep_deletes_the_due [OF waited_moderated s u] u by simp
qed

end
