(* ===== verification/Moderation_Counts.thy ===== *)
theory Moderation_Counts
  imports Moderation_Windows
begin

text \<open>
  What the queries of the moderation programme compute, said without their loops: the copies a takedown
  reaches (\<open>copies_of\<close> of reach.rs), the strikes an account stands under (\<open>strikes_of\<close> of standing.rs), and
  what an upheld appeal changes in them.
\<close>

section \<open>Copies\<close>

definition taken_from :: "adoption list \<Rightarrow> ((ustring \<times> ident) \<times> (ustring \<times> ident)) set" where
  "taken_from adoptions = (\<lambda>a. (ad_source a, ad_copy a)) ` set adoptions"

lemma taken_from_source: "taken_from adoptions `` {source} = ad_copy ` set (copies_from adoptions source)"
  by (auto simp: taken_from_def copies_from_def)

lemma walk_sound:
  "ad_copy ` set (copies_walk adoptions seen frontier) \<subseteq> (taken_from adoptions)\<^sup>+ `` set frontier - set seen \<and>
   distinct (map ad_copy (copies_walk adoptions seen frontier))"
proof (induction adoptions seen frontier rule: copies_walk.induct)
  case (2 adoptions seen source frontier)
  obtain new seen' where new: "take_unseen seen (copies_from adoptions source) = (new, seen')" by (metis surj_pair)
  note sets = take_unseen_set [OF new]
  let ?R = "taken_from adoptions" and ?rest = "copies_walk adoptions seen' (frontier @ map ad_copy new)"
  have IH: "ad_copy ` set ?rest \<subseteq> ?R\<^sup>+ `` set (frontier @ map ad_copy new) - set seen'" "distinct (map ad_copy ?rest)"
    using "2.IH" new by simp_all
  have n: "ad_copy ` set new = ?R `` {source} - set seen" using sets taken_from_source [of adoptions source] by simp
  have seen': "set seen' = set seen \<union> ?R `` {source}" using sets taken_from_source [of adoptions source] by simp
  have far: "?R\<^sup>+ `` (?R `` {source}) \<subseteq> ?R\<^sup>+ `` {source}" by (auto intro: trancl_into_trancl2)
  have sub: "?R\<^sup>+ `` set (frontier @ map ad_copy new) \<subseteq> ?R\<^sup>+ `` set (source # frontier)"
    using n far by (auto simp: Image_Un)
  have within: "A \<subseteq> D - S" if "A \<subseteq> B - S'" "B \<subseteq> D" "S \<subseteq> S'" for A B D S S' :: "(ustring \<times> ident) set"
    using that by blast
  have rest: "ad_copy ` set ?rest \<subseteq> ?R\<^sup>+ `` set (source # frontier) - set seen"
    by (rule within [OF IH(1) sub]) (simp add: seen')
  have first: "ad_copy ` set new \<subseteq> ?R\<^sup>+ `` set (source # frontier) - set seen" unfolding n by auto
  have apart: "ad_copy ` set new \<inter> ad_copy ` set ?rest = {}" using IH(1) n seen' by blast
  have walk: "copies_walk adoptions seen (source # frontier) = new @ ?rest" using new by simp
  show ?case
    unfolding walk map_append set_append image_Un distinct_append set_map
    using rest first apart IH(2) sets by simp
qed simp

lemma walk_complete:
  "set frontier \<subseteq> set seen \<Longrightarrow> taken_from adoptions `` (set seen - set frontier) \<subseteq> set seen \<Longrightarrow>
   taken_from adoptions `` (set seen \<union> ad_copy ` set (copies_walk adoptions seen frontier)) \<subseteq>
     set seen \<union> ad_copy ` set (copies_walk adoptions seen frontier)"
proof (induction adoptions seen frontier rule: copies_walk.induct)
  case (2 adoptions seen source frontier)
  obtain new seen' where new: "take_unseen seen (copies_from adoptions source) = (new, seen')" by (metis surj_pair)
  let ?R = "taken_from adoptions" and ?F = "frontier @ map ad_copy new"
  have n: "ad_copy ` set new = ?R `` {source} - set seen" and seen': "set seen' = set seen \<union> ad_copy ` set new"
    using take_unseen_set [OF new] taken_from_source [of adoptions source] by auto
  have "set ?F \<subseteq> set seen'" using "2.prems"(1) seen' by auto
  moreover have "?R `` (set seen' - set ?F) \<subseteq> set seen'"
  proof
    fix c assume "c \<in> ?R `` (set seen' - set ?F)"
    then obtain s where s: "s \<in> set seen'" "s \<notin> set ?F" "(s, c) \<in> ?R" by blast
    then have "s \<in> set seen" using seen' by auto
    then show "c \<in> set seen'"
      using s "2.prems"(2) n seen' by (cases "s = source") auto
  qed
  ultimately have "?R `` (set seen' \<union> ad_copy ` set (copies_walk adoptions seen' ?F)) \<subseteq> set seen' \<union> ad_copy ` set (copies_walk adoptions seen' ?F)"
    using "2.IH" new by simp
  then show ?case using new seen' by (simp add: image_Un Un_assoc)
qed simp

lemma copies_reached:
  "ad_copy ` set (copies_of adoptions e) = {c. (e, c) \<in> {(ad_source a, ad_copy a) |a. a \<in> set adoptions}\<^sup>+ \<and> c \<noteq> e} \<and>
   distinct (map ad_copy (copies_of adoptions e))"
proof -
  let ?X = "ad_copy ` set (copies_of adoptions e)" and ?R = "taken_from adoptions"
  have R: "{(ad_source a, ad_copy a) |a. a \<in> set adoptions} = ?R" by (auto simp: taken_from_def)
  have closed: "?R `` (insert e ?X) \<subseteq> insert e ?X" using walk_complete [of "[e]" "[e]" adoptions] by (simp add: copies_of_def)
  have "c \<in> insert e ?X" if "(e, c) \<in> ?R\<^sup>+" for c
    using that by (induction rule: trancl_induct) (use closed in blast)+
  moreover have "?X \<subseteq> ?R\<^sup>+ `` {e} - {e}" "distinct (map ad_copy (copies_of adoptions e))"
    using walk_sound [of adoptions "[e]" "[e]"] by (simp_all add: copies_of_def)
  ultimately show ?thesis unfolding R by blast
qed

text \<open>C24: A takedown reaches exactly the copies taken of the thing, the copies of those, and so on: each once,
  and the thing itself never, even where copies lead back to it.\<close>

theorem takedown_reaches_all_copies:
  "ad_copy ` set (copies_of adoptions e) = {c. (e, c) \<in> {(ad_source a, ad_copy a) |a. a \<in> set adoptions}\<^sup>+ \<and> c \<noteq> e} \<and>
   distinct (map ad_copy (copies_of adoptions e))"
  by (rule copies_reached)

section \<open>Strikes\<close>

lemma later_Some [simp]: "later (Some b) a = (if ac_created b < ac_created a then Some a else Some b)" "later None a = Some a"
  by (simp_all add: later_def)

lemma latest_spec:
  "foldl later (Some b) rows = Some r \<Longrightarrow> r \<in> insert b (set rows) \<and> (\<forall>x \<in> insert b (set rows). ac_created x \<le> ac_created r)"
proof (induction rows arbitrary: b)
  case (Cons a rows)
  show ?case
  proof (cases "ac_created b < ac_created a")
    case True
    then have "foldl later (Some a) rows = Some r" using Cons.prems by simp
    from Cons.IH [OF this] have r: "r \<in> insert a (set rows)" "\<forall>x \<in> insert a (set rows). ac_created x \<le> ac_created r" by blast+
    moreover have "ac_created b \<le> ac_created r" using r(2) True by force
    ultimately show ?thesis by simp
  next
    case False
    then have "foldl later (Some b) rows = Some r" using Cons.prems by simp
    from Cons.IH [OF this] have r: "r \<in> insert b (set rows)" "\<forall>x \<in> insert b (set rows). ac_created x \<le> ac_created r" by blast+
    moreover have "ac_created a \<le> ac_created r" using r(2) False by force
    ultimately show ?thesis by auto
  qed
qed simp

lemma latest_some: "\<exists>r. foldl later (Some b) rows = Some r"
  by (induction rows arbitrary: b) auto

lemma latest_of_Some:
  "latest_of rows = Some r \<Longrightarrow> r \<in> set rows \<and> (\<forall>x \<in> set rows. ac_created x \<le> ac_created r)"
  unfolding latest_of_def by (cases rows) (auto dest: latest_spec)

lemma latest_of_exists: "rows \<noteq> [] \<Longrightarrow> \<exists>r. latest_of rows = Some r"
  unfolding latest_of_def by (cases rows) (simp_all add: latest_some)

lemma judged:
  "bt_ok m \<Longrightarrow> bt_ok (foldl judge_case m rows) \<and>
     map_of (foldl judge_case m rows) c = foldl later (map_of m c) (filter (\<lambda>a. ac_case a = c) rows)"
proof (induction rows arbitrary: m)
  case (Cons a rows)
  have "bt_ok (judge_case m a)" using Cons.prems by (auto simp: judge_case_def btree.ok_ins split: option.split)
  moreover have "map_of (judge_case m a) c = (if ac_case a = c then later (map_of m c) a else map_of m c)"
    using Cons.prems by (auto simp: judge_case_def later_def btree.look_ins split: option.split)
  ultimately show ?case using Cons.IH [of "judge_case m a"] by simp
qed simp

lemma counted:
  "bt_ok m \<Longrightarrow> (\<forall>a \<in> set rows. ac_account a = Some account) \<Longrightarrow>
     (case map_of (foldl count_case m rows) account of None \<Rightarrow> [] | Some l \<Rightarrow> l) =
     (case map_of m account of None \<Rightarrow> [] | Some l \<Rightarrow> l) @ map strike_of (filter (\<lambda>a. counts_as_strike (ac_type a)) rows)"
proof (induction rows arbitrary: m)
  case (Cons a rows)
  have "bt_ok (count_case m a)" using Cons.prems by (auto simp: count_case_def btree.ok_ins split: option.split)
  then show ?case
    using Cons.IH [of "count_case m a"] Cons.prems
    by (auto simp: count_case_def btree.look_ins split: option.split)
qed simp

lemma strikes_of_eq:
  "strikes_of now account d actions =
     sort_key sk_recorded (map strike_of (filter (\<lambda>a. counts_as_strike (ac_type a))
       (map snd (foldl judge_case [] (rows_within now (Some account) d actions)))))"
proof -
  let ?j = "foldl judge_case [] (rows_within now (Some account) d actions)"
  have j: "bt_ok ?j" "\<And>c. map_of ?j c = latest_of (filter (\<lambda>a. ac_case a = c) (rows_within now (Some account) d actions))"
    using judged [of "[]"] by (simp_all add: latest_of_def)
  have "ac_account a = Some account" if "a \<in> snd ` set ?j" for a
  proof -
    obtain c where "(c, a) \<in> set ?j" using \<open>a \<in> snd ` set ?j\<close> by auto
    then have "latest_of (filter (\<lambda>a. ac_case a = c) (rows_within now (Some account) d actions)) = Some a"
      using btree.entry_iff [OF j(1)] j(2) by simp
    then show ?thesis using latest_of_Some by (force simp: rows_within_def)
  qed
  then have c: "(case map_of (foldl count_case [] (map snd ?j)) account of None \<Rightarrow> [] | Some l \<Rightarrow> l) =
      map strike_of (filter (\<lambda>a. counts_as_strike (ac_type a)) (map snd ?j))"
    using counted [of "[]" "map snd ?j" account] by simp
  show ?thesis
    unfolding strikes_of_def strikes_by_account_def Let_def c [symmetric] map_of_map
    by (auto split: option.split)
qed

lemma strikes_of_cases: "sk_case ` set (strikes_of now account d actions) = {c. \<exists>a.
     latest_of (filter (\<lambda>a. ac_case a = c) (rows_within now (Some account) d actions)) = Some a \<and> counts_as_strike (ac_type a)}"
  and strike_in_iff: "k \<in> set (strikes_of now account d actions) \<longleftrightarrow> (\<exists>a. k = strike_of a \<and> counts_as_strike (ac_type a) \<and>
     latest_of (filter (\<lambda>b. ac_case b = ac_case a) (rows_within now (Some account) d actions)) = Some a)"
  and strikes_distinct: "distinct (map sk_case (strikes_of now account d actions))"
proof -
  let ?j = "foldl judge_case [] (rows_within now (Some account) d actions)"
  have j: "bt_ok ?j" "\<And>c. map_of ?j c = latest_of (filter (\<lambda>a. ac_case a = c) (rows_within now (Some account) d actions))"
    using judged [of "[]"] by (simp_all add: latest_of_def)
  have e: "(c, a) \<in> set ?j \<longleftrightarrow> latest_of (filter (\<lambda>a. ac_case a = c) (rows_within now (Some account) d actions)) = Some a" for c a
    using btree.entry_iff [OF j(1)] j(2) by simp
  have c: "ac_case a = c" if "(c, a) \<in> set ?j" for c a using that latest_of_Some unfolding e by fastforce
  show in_iff: "k \<in> set (strikes_of now account d actions) \<longleftrightarrow> (\<exists>a. k = strike_of a \<and> counts_as_strike (ac_type a) \<and>
     latest_of (filter (\<lambda>b. ac_case b = ac_case a) (rows_within now (Some account) d actions)) = Some a)" for k
  proof -
    have "k \<in> set (strikes_of now account d actions) \<longleftrightarrow> (\<exists>(c, a) \<in> set ?j. counts_as_strike (ac_type a) \<and> k = strike_of a)"
      unfolding strikes_of_eq by (auto simp: image_iff)
    also have "\<dots> \<longleftrightarrow> (\<exists>a. k = strike_of a \<and> counts_as_strike (ac_type a) \<and> (ac_case a, a) \<in> set ?j)" using c by fast
    finally show ?thesis unfolding e .
  qed
  show "sk_case ` set (strikes_of now account d actions) = {c. \<exists>a.
     latest_of (filter (\<lambda>a. ac_case a = c) (rows_within now (Some account) d actions)) = Some a \<and> counts_as_strike (ac_type a)}"
  proof (intro set_eqI iffI)
    fix c assume "c \<in> sk_case ` set (strikes_of now account d actions)"
    then show "c \<in> {c. \<exists>a. latest_of (filter (\<lambda>a. ac_case a = c) (rows_within now (Some account) d actions)) = Some a \<and>
        counts_as_strike (ac_type a)}"
      unfolding image_iff bex_simps in_iff by (auto simp: strike_of_def Bex_def in_iff)
  next
    fix c0 assume "c0 \<in> {c. \<exists>a. latest_of (filter (\<lambda>a. ac_case a = c) (rows_within now (Some account) d actions)) = Some a \<and>
        counts_as_strike (ac_type a)}"
    then obtain a where a: "(c0, a) \<in> set ?j" "counts_as_strike (ac_type a)" unfolding e by blast
    then have "strike_of a \<in> set (strikes_of now account d actions)" unfolding in_iff using c [OF a(1)] a e by blast
    moreover have "sk_case (strike_of a) = c0" using c [OF a(1)] by (simp add: strike_of_def)
    ultimately show "c0 \<in> sk_case ` set (strikes_of now account d actions)" by blast
  qed
  have "map fst ?j = map ac_case (map snd ?j)" using c by (auto simp: comp_def)
  then have "distinct (map ac_case (map snd ?j))" using btree.keys_distinct [OF j(1)] by argo
  then have "distinct (map ac_case (filter (\<lambda>a. counts_as_strike (ac_type a)) (map snd ?j)))" by (rule distinct_map_filter)
  then have "distinct (map sk_case (map strike_of (filter (\<lambda>a. counts_as_strike (ac_type a)) (map snd ?j))))"
    unfolding map_map by (simp add: strike_of_def comp_def)
  then show "distinct (map sk_case (strikes_of now account d actions))"
    unfolding strikes_of_eq by (metis distinct_map distinct_sort set_sort)
qed


lemma latest_of_iff:
  assumes "\<And>a b. a \<in> set rows \<Longrightarrow> b \<in> set rows \<Longrightarrow> ac_created a = ac_created b \<Longrightarrow> a = b"
  shows "latest_of rows = Some r \<longleftrightarrow> r \<in> set rows \<and> (\<forall>x \<in> set rows. ac_created x \<le> ac_created r)"
proof
  assume r: "r \<in> set rows \<and> (\<forall>x \<in> set rows. ac_created x \<le> ac_created r)"
  then obtain q where q: "latest_of rows = Some q" using latest_of_exists [of rows] by fastforce
  then have "q = r" using assms [of q r] r latest_of_Some [OF q] by force
  then show "latest_of rows = Some r" using q by simp
qed (rule latest_of_Some)

lemma rows_within_set: "a \<in> set (rows_within now (Some account) d actions) \<longleftrightarrow>
    a \<in> set actions \<and> now - days d \<le> ac_created a \<and> ac_account a = Some account"
  by (auto simp: rows_within_def)

text \<open>C23: What an account stands under: one strike for each case whose last event on the account is a strike
  and not older than the lookback, oldest first. Where the events of a case are dated apart, that is all the
  grouping and judging of the rows comes to.\<close>

theorem strikes_are_standing_cases:
  assumes "\<And>a b. a \<in> set actions \<Longrightarrow> b \<in> set actions \<Longrightarrow> ac_case a = ac_case b \<Longrightarrow> ac_created a = ac_created b \<Longrightarrow> a = b"
  shows "set (strikes_of now account d actions) = strike_of ` {a \<in> set actions. counts_as_strike (ac_type a) \<and>
      ac_account a = Some account \<and> now - days d \<le> ac_created a \<and>
      (\<forall>b \<in> set actions. ac_case b = ac_case a \<and> ac_account b = Some account \<longrightarrow> ac_created b \<le> ac_created a)} \<and>
    distinct (map sk_case (strikes_of now account d actions)) \<and>
    sorted (map sk_recorded (strikes_of now account d actions))"
proof (intro conjI)
  have latest: "latest_of (filter (\<lambda>b. ac_case b = ac_case a) (rows_within now (Some account) d actions)) = Some a \<longleftrightarrow>
      a \<in> set actions \<and> ac_account a = Some account \<and> now - days d \<le> ac_created a \<and>
      (\<forall>b \<in> set actions. ac_case b = ac_case a \<and> ac_account b = Some account \<longrightarrow> ac_created b \<le> ac_created a)" for a
  proof (subst latest_of_iff)
    show "x = y" if "x \<in> set (filter (\<lambda>b. ac_case b = ac_case a) (rows_within now (Some account) d actions))"
      "y \<in> set (filter (\<lambda>b. ac_case b = ac_case a) (rows_within now (Some account) d actions))" "ac_created x = ac_created y" for x y
      using that assms by (simp add: rows_within_set)
  qed (auto simp: rows_within_set intro: order_trans)
  show "set (strikes_of now account d actions) = strike_of ` {a \<in> set actions. counts_as_strike (ac_type a) \<and>
      ac_account a = Some account \<and> now - days d \<le> ac_created a \<and>
      (\<forall>b \<in> set actions. ac_case b = ac_case a \<and> ac_account b = Some account \<longrightarrow> ac_created b \<le> ac_created a)}"
    unfolding set_eq_iff image_iff strike_in_iff latest by blast
  show "distinct (map sk_case (strikes_of now account d actions))" by (rule strikes_distinct)
  show "sorted (map sk_recorded (strikes_of now account d actions))" unfolding strikes_of_eq by (rule sorted_sort_key)
qed

section \<open>An upheld appeal\<close>

lemma sort_key_append_max:
  fixes f :: "'a \<Rightarrow> 'k::linorder"
  shows "\<forall>y \<in> set xs. f y \<le> f x \<Longrightarrow> sort_key f (xs @ [x]) = sort_key f xs @ [x]"
proof (induction xs)
  case (Cons y xs)
  have "insort_key f y (zs @ [x]) = insort_key f y zs @ [x]" if "f y \<le> f x" for zs
    using that by (induction zs) auto
  then show ?case using Cons by simp
qed simp

lemma restored_rows:
  assumes past: "\<forall>a \<in> set actions. ac_created a < now" and row: "ac_created row = now" "ac_account row = Some account" and d: "0 \<le> d"
  shows "rows_within now (Some account) d (actions @ [row]) = rows_within now (Some account) d actions @ [row]"
proof -
  have "now - days d \<le> ac_created row" using row(1) d by (simp add: days_def)
  then show ?thesis
    unfolding rows_within_def filter_append using row past by (simp add: sort_key_append_max less_imp_le)
qed

lemma restored_strikes:
  assumes past: "\<forall>a \<in> set actions. ac_created a < now" and row: "ac_created row = now" "ac_account row = Some account" and d: "0 \<le> d"
    and no: "\<not> counts_as_strike (ac_type row)"
  shows "k \<in> set (strikes_of now account d (actions @ [row])) \<longleftrightarrow> k \<in> set (strikes_of now account d actions) \<and> sk_case k \<noteq> ac_case row"
proof -
  have latest: "latest_of (filter (\<lambda>b. ac_case b = c) (rows_within now (Some account) d (actions @ [row]))) =
      (if c = ac_case row then Some row else latest_of (filter (\<lambda>b. ac_case b = c) (rows_within now (Some account) d actions)))" for c
  proof (cases "c = ac_case row")
    case True
    let ?xs = "filter (\<lambda>b. ac_case b = c) (rows_within now (Some account) d actions)"
    have "later (latest_of ?xs) row = Some row"
    proof (cases "latest_of ?xs")
      case (Some e)
      then have "e \<in> set actions" using latest_of_Some by (fastforce simp: rows_within_set)
      then show ?thesis using past row(1) Some by auto
    qed simp
    then show ?thesis using True by (simp add: restored_rows [OF past row d] latest_of_def)
  qed (simp add: restored_rows [OF past row d])
  show ?thesis unfolding strike_in_iff latest using no by (auto simp: strike_of_def split: if_splits)
qed


lemma overturned_strike: "overturned decision strikes = Inr c \<Longrightarrow>
    c \<in> sk_case ` set strikes \<and> c = (case apd_case decision of Some c \<Rightarrow> c | None \<Rightarrow> sk_case (last strikes))"
  by (auto simp: overturned_def split: option.splits if_splits)

lemma last_of_case_Some: "last_of_case s c = Some a \<Longrightarrow> a \<in> set (of_actions s) \<and> ac_case a = c"
  unfolding last_of_case_def using latest_of_Some by fastforce

lemma update_window_rest [simp]: "of_actions (update_window i f s) = of_actions s" "of_clock (update_window i f s) = of_clock s"
  "last_of_case (update_window i f s) c = last_of_case s c"
  by (simp_all add: update_window_def last_of_case_def)

lemma close_termination_rest [simp]: "of_actions (close_termination t reason now s) = of_actions s"
  by (auto simp: close_termination_def Let_def tell_def update_window_def split: option.split)

lemma upheld_outcome:
  assumes r: "resolve_appeal account by decision l (of_clock s) s = (Inr w, t)" and up: "apd_upheld decision"
  obtains c a where "overturned decision (strikes_of (of_clock s) account (la_lookback_days l) (of_actions s)) = Inr c"
    and "last_of_case s c = Some a"
    and "of_actions t = of_actions s @ [(plain_action c None content_restored (ac_entity_type a) (ac_entity a) (ac_world a)
      (ac_account a) None)\<lparr>ac_created := of_clock s\<rparr>]"
proof -
  obtain u where u: "open_termination_of s account = Some u" "wi_appeal u = appeal_open"
    using r by (auto simp: resolve_appeal_def split: option.splits if_splits)
  let ?f = "\<lambda>w. w\<lparr>wi_appeal := appeal_upheld, wi_resolved := Some (of_clock s), wi_resolved_by := Some by, wi_note := apd_note decision\<rparr>"
  let ?o1 = "update_window (wi_id u) ?f s"
  have appeal: "(wi_appeal u \<noteq> appeal_open) = False" using u(2) by simp
  have unheld: "(\<not> apd_upheld decision) = False" using up by simp
  note r' = r [unfolded resolve_appeal_def u(1) option.case Let_def appeal unheld if_False update_window_rest]
  show thesis
  proof (cases "overturned decision (strikes_of (of_clock s) account (la_lookback_days l) (of_actions s))")
    case (Inr c)
    note rc = r' [unfolded Inr sum.case]
    show thesis
    proof (cases "last_of_case s c")
      case (Some a)
      show thesis
        by (rule that [OF Inr Some])
          (use rc Some in \<open>simp add: restore_case_def insert_action_def commit_def split: option.splits\<close>, use rc Some in auto)
    qed (use rc in \<open>simp add: restore_case_def\<close>)
  qed (use r' in simp)
qed

text \<open>C25: An upheld appeal takes the strike of one case off, the one named or else the newest: of the strikes
  counted before, exactly that case's is gone. Every event of that case has to carry the account.\<close>

theorem upheld_appeal_takes_one_strike:
  assumes "resolve_appeal account by decision l (of_clock s) s = (Inr w, t)" and "apd_upheld decision"
    and "\<forall>a \<in> set (of_actions s). ac_created a < of_clock s" and "0 \<le> la_lookback_days l"
    and "before = strikes_of (of_clock s) account (la_lookback_days l) (of_actions s)"
    and "c = (case apd_case decision of Some c \<Rightarrow> c | None \<Rightarrow> sk_case (last before))"
    and "\<forall>a \<in> set (of_actions s). ac_case a = c \<longrightarrow> ac_account a = Some account"
  shows "set (strikes_of (of_clock s) account (la_lookback_days l) (of_actions t)) = {k \<in> set before. sk_case k \<noteq> c} \<and>
    length (strikes_of (of_clock s) account (la_lookback_days l) (of_actions t)) + 1 = length before"
proof (intro conjI)
  let ?after = "strikes_of (of_clock s) account (la_lookback_days l) (of_actions t)"
  obtain a where over: "overturned decision before = Inr c" and a: "last_of_case s c = Some a"
    and acts: "of_actions t = of_actions s @ [(plain_action c None content_restored (ac_entity_type a) (ac_entity a) (ac_world a)
      (ac_account a) None)\<lparr>ac_created := of_clock s\<rparr>]"
    using upheld_outcome [OF assms(1,2)] overturned_strike assms(5,6) by metis
  have acct: "ac_account a = Some account" using last_of_case_Some [OF a] assms(7) by blast
  show eq: "set ?after = {k \<in> set before. sk_case k \<noteq> c}"
    unfolding acts assms(5)
    by (subst set_eq_iff, subst restored_strikes [OF assms(3) _ _ assms(4)])
      (simp_all add: acct plain_action_def counts_as_strike_def content_restored_def content_disabled_def content_remains_disabled_def)
  obtain k where k: "k \<in> set before" "sk_case k = c" using overturned_strike [OF over] by auto
  have inj: "inj_on sk_case (set before)" and d: "distinct before" "distinct ?after"
    using strikes_distinct unfolding assms(5) by (metis distinct_map)+
  have rest: "{k' \<in> set before. sk_case k' \<noteq> c} = set before - {k}" 
  proof -
    have "sk_case k' \<noteq> c \<longleftrightarrow> k' \<noteq> k" if "k' \<in> set before" for k'
      using inj_onD [OF inj _ that k(1)] unfolding k(2) [symmetric] by auto
    then show ?thesis by blast
  qed
  have "card (set ?after) = card (set before - {k})" by (rule arg_cong [where f = card, OF trans [OF eq rest]])
  also have "\<dots> = card (set before) - 1" by (rule card_Diff_singleton [OF k(1)])
  finally have after: "card (set ?after) = card (set before) - 1" .
  show "length ?after + 1 = length before"
    using after length_pos_if_in_set [OF k(1)] unfolding distinct_card [OF d(1)] distinct_card [OF d(2)] by linarith
qed


section \<open>Examples\<close>

definition an_event :: "ident \<Rightarrow> ustring \<Rightarrow> ident \<Rightarrow> instant \<Rightarrow> action" where
  "an_event c action account at = (plain_action c None action (U ''scene'') c 5 (Some account) None)\<lparr>ac_created := at\<rparr>"

definition some_events :: "action list" where
  "some_events = [an_event 1 content_disabled 2 5, an_event 2 content_disabled 2 6, an_event 1 content_restored 2 7]"

lemma event_words: "content_disabled \<noteq> content_restored" "counts_as_strike content_disabled" "\<not> counts_as_strike content_restored"
  by (simp_all add: counts_as_strike_def content_disabled_def content_restored_def content_remains_disabled_def)

lemma strikes_are_standing_cases_witness:
  "set (strikes_of 10 2 365 some_events) = {strike_of (an_event 2 content_disabled 2 6)}"
proof -
  have e: "ac_case (an_event c w a t) = c" "ac_created (an_event c w a t) = t" "ac_type (an_event c w a t) = w"
    "ac_account (an_event c w a t) = Some a" for c w a t by (simp_all add: an_event_def plain_action_def)
  have "set (strikes_of 10 2 365 some_events) = strike_of ` {a \<in> set some_events. counts_as_strike (ac_type a) \<and>
      ac_account a = Some 2 \<and> 10 - days 365 \<le> ac_created a \<and>
      (\<forall>b \<in> set some_events. ac_case b = ac_case a \<and> ac_account b = Some 2 \<longrightarrow> ac_created b \<le> ac_created a)}"
    by (rule strikes_are_standing_cases [THEN conjunct1]) (auto simp: some_events_def e)
  also have "{a \<in> set some_events. counts_as_strike (ac_type a) \<and> ac_account a = Some 2 \<and> 10 - days 365 \<le> ac_created a \<and>
      (\<forall>b \<in> set some_events. ac_case b = ac_case a \<and> ac_account b = Some 2 \<longrightarrow> ac_created b \<le> ac_created a)} =
      {an_event 2 content_disabled 2 6}"
    by (auto simp: some_events_def e event_words days_def)
  finally show ?thesis by simp
qed

definition appealed_office :: "office" where
  "appealed_office = snd (file_appeal 2 (U ''not so'') 3 noticed_office)"

definition upholding :: "appeal_decision" where "upholding = \<lparr>apd_upheld = True, apd_note = None, apd_case = None\<rparr>"

definition heard :: "office \<Rightarrow> (ustring + window) \<times> office" where
  "heard s = resolve_appeal 2 1 upholding a_ladder (of_clock s) s"

definition heard_well :: "office \<Rightarrow> (ustring + window) \<times> office \<Rightarrow> bool" where
  "heard_well s r \<longleftrightarrow> (case fst r of Inl _ \<Rightarrow> False | Inr _ \<Rightarrow> True) \<and>
     list_all (\<lambda>a. ac_created a < of_clock s \<and> ac_account a = Some 2) (of_actions s)"

lemma heard_facts: "heard_well appealed_office (heard appealed_office)"
  by code_simp

lemma upheld_appeal_takes_one_strike_witness:
  "\<exists>before. length (strikes_of (of_clock appealed_office) 2 365 (of_actions (snd (heard appealed_office)))) + 1 = length before \<and>
     before = strikes_of (of_clock appealed_office) 2 365 (of_actions appealed_office)"
proof -
  obtain w t where t: "heard appealed_office = (Inr w, t)"
    using heard_facts by (cases "heard appealed_office") (auto simp: heard_well_def split: sum.splits)
  have acts: "\<forall>a \<in> set (of_actions appealed_office). ac_created a < of_clock appealed_office \<and> ac_account a = Some 2"
    using heard_facts by (simp add: heard_well_def list_all_iff)
  have l: "la_lookback_days a_ladder = 365" by (simp add: a_ladder_def)
  show ?thesis
    using upheld_appeal_takes_one_strike [OF t [unfolded heard_def] _ _ _ refl refl, THEN conjunct2] acts
    by (simp add: upholding_def l t)
qed

text \<open>Two administrators at the last rung count each other as the one who is left, and both are deleted.\<close>

definition two_administrators :: "office" where
  "two_administrators = an_office\<lparr>of_clock := 10, of_users := [(1, True), (2, True)],
     of_actions := [an_event 1 content_disabled 1 5, an_event 2 content_disabled 2 6]\<rparr>"

lemma no_administrator_left: "of_users (sweep_now (wait_days 31 (sweep_now two_administrators))) = []"
  by code_simp

text \<open>The strikes of an account that is gone open a window for it again.\<close>

definition reopened :: "office \<Rightarrow> bool" where
  "reopened s \<longleftrightarrow> 2 \<notin> fst ` set (of_users s) \<and> open_termination_of s 2 \<noteq> None"

lemma window_for_no_one: "reopened (sweep_now swept_office)"
  by code_simp

text \<open>A counter-notice is recorded under whoever files it. Counted by itself the owner's strike stays; counted
  with all others it is gone; and staying disabled, the case is the filer's strike too.\<close>

definition filed_by :: "ident \<Rightarrow> office \<Rightarrow> office" where
  "filed_by user s = snd (submit_counter_notice user (\<lambda>_. True) 10 \<lparr>ci_case = 9, ci_fields = \<lparr>cf_description = U ''d'',
     cf_mistake = True, cf_consent = True, cf_contact = U ''c'', cf_signature = U ''s''\<rparr>\<rparr> s)"

definition counted_twice :: "office \<Rightarrow> office \<Rightarrow> bool" where
  "counted_twice s t \<longleftrightarrow>
     length (strikes_of 10 2 365 (of_actions s)) = 1 \<and> strikes_by_account 10 None 365 (of_actions s) = [] \<and>
     map sk_case (strikes_of 10 2 365 (of_actions t)) = [9] \<and> map sk_case (strikes_of 10 3 365 (of_actions t)) = [9]"

definition kept_disabled :: "office \<Rightarrow> office" where
  "kept_disabled s = snd (resolve_moderation_case True a_ladder 9 ContentRemainsDisabled s)"

lemma one_case_two_strikes: "counted_twice (filed_by 3 noticed_office) (kept_disabled (filed_by 3 noticed_office))"
  by code_simp

end
