(* ===== verification/Moderation_Hides.thy ===== *)
theory Moderation_Hides
  imports Moderation_Counts
begin

text \<open>
  What a takedown notice hides (\<open>submit_takedown_notice_impl\<close> and \<open>fan_out_disable\<close>, read through
  \<open>effective_status_sync\<close>): the thing noticed and every copy it was taken into, at once; and what an
  incomplete notice does instead.
\<close>


section \<open>What a notice hides\<close>

lemma latest_of_snoc:
  "(\<And>a. a \<in> set rows \<Longrightarrow> ac_created a < ac_created row) \<Longrightarrow> latest_of (rows @ [row]) = Some row"
  using latest_of_Some [of rows] by (cases "latest_of rows") (auto simp: latest_of_def)

lemma latest_of_skip: "(\<And>a. a \<in> set xs \<Longrightarrow> \<not> P a) \<Longrightarrow> latest_of (filter P (rows @ xs)) = latest_of (filter P rows)"
  by (simp add: filter_empty_conv)

text \<open>The rows a fan-out writes: one for each copy that is still there.\<close>

lemma disable_copies:
  "foldl (\<lambda>s copy. disable_copy parent copy s) (s, c, b) copies = (t, c', b') \<Longrightarrow>
     of_clock t = of_clock s \<and> of_things t = of_things s \<and>
     (\<exists>rows. of_actions t = of_actions s @ rows \<and>
        map (\<lambda>a. (ac_entity_type a, ac_entity a)) rows = map ad_copy (filter (\<lambda>a. name_of s (ad_copy a) \<noteq> None) copies) \<and>
        (\<forall>a \<in> set rows. ac_type a = content_disabled_as_copy \<and> ac_created a = of_clock s))"
proof (induction copies arbitrary: s c b)
  case (Cons copy copies)
  obtain s1 c1 b1 where step: "disable_copy parent copy (s, c, b) = (s1, c1, b1)" by (metis surj_pair)
  have s1: "of_clock s1 = of_clock s" "of_things s1 = of_things s"
    "\<exists>rows. of_actions s1 = of_actions s @ rows \<and>
        map (\<lambda>a. (ac_entity_type a, ac_entity a)) rows = map ad_copy (filter (\<lambda>a. name_of s (ad_copy a) \<noteq> None) [copy]) \<and>
        (\<forall>a \<in> set rows. ac_type a = content_disabled_as_copy \<and> ac_created a = of_clock s)"
    using step by (auto simp: disable_copy_def now_v7_def insert_child_event_def insert_action_def plain_action_def Let_def
      split: option.splits prod.splits)
  then obtain r1 where r1: "of_actions s1 = of_actions s @ r1"
    "map (\<lambda>a. (ac_entity_type a, ac_entity a)) r1 = map ad_copy (filter (\<lambda>a. name_of s (ad_copy a) \<noteq> None) [copy])"
    "\<forall>a \<in> set r1. ac_type a = content_disabled_as_copy \<and> ac_created a = of_clock s" by blast
  have names: "name_of s1 e = name_of s e" for e using s1(2) by (simp add: name_of_def)
  have "foldl (\<lambda>s copy. disable_copy parent copy s) (s1, c1, b1) copies = (t, c', b')" using Cons.prems step by simp
  from Cons.IH [OF this] obtain r2 where r2: "of_clock t = of_clock s1" "of_things t = of_things s1"
    "of_actions t = of_actions s1 @ r2" "map (\<lambda>a. (ac_entity_type a, ac_entity a)) r2 = map ad_copy (filter (\<lambda>a. name_of s (ad_copy a) \<noteq> None) copies)"
    "\<forall>a \<in> set r2. ac_type a = content_disabled_as_copy \<and> ac_created a = of_clock s1" unfolding names by blast
  have "of_actions t = of_actions s @ (r1 @ r2)" using r1(1) r2(3) by simp
  moreover have "map (\<lambda>a. (ac_entity_type a, ac_entity a)) (r1 @ r2) = map ad_copy (filter (\<lambda>a. name_of s (ad_copy a) \<noteq> None) (copy # copies))"
    using r1(2) r2(4) by simp
  moreover have "\<forall>a \<in> set (r1 @ r2). ac_type a = content_disabled_as_copy \<and> ac_created a = of_clock s"
    using r1(3) r2(5) s1(1) by auto
  ultimately show ?case using s1 r2(1,2) by auto
qed simp

lemma tell_rest [simp]: "of_actions (tell u x s) = of_actions s" "of_clock (tell u x s) = of_clock s"
    "of_adoptions (tell u x s) = of_adoptions s" "of_things (tell u x s) = of_things s"
  by (simp_all add: tell_def)

lemma tells_rest: "of_actions (foldl (\<lambda>s (u, cases, names). tell u (f cases names) s) s es) = of_actions s"
  by (induction es arbitrary: s) auto

lemma open_termination_rest [simp]: "of_adoptions (snd (open_termination account l now s)) = of_adoptions s"
    "of_things (snd (open_termination account l now s)) = of_things s"
  by (simp_all add: open_termination_def now_v7_def Let_def split: prod.split)

lemma tell_of_strike_rest [simp]: "of_actions (tell_of_strike account case_id l s) = of_actions s"
    "of_clock (tell_of_strike account case_id l s) = of_clock s" "of_adoptions (tell_of_strike account case_id l s) = of_adoptions s"
    "of_things (tell_of_strike account case_id l s) = of_things s"
  by (simp_all add: tell_of_strike_def Let_def open_termination_clock split: option.split)

lemma fan_out_disable_rows:
  "\<exists>rows. of_actions (snd (fan_out_disable parent et e sharer s)) = of_actions s @ rows \<and>
     map (\<lambda>a. (ac_entity_type a, ac_entity a)) rows =
       map ad_copy (filter (\<lambda>a. name_of s (ad_copy a) \<noteq> None) (copies_of (of_adoptions s) (et, e))) \<and>
     (\<forall>a \<in> set rows. ac_type a = content_disabled_as_copy \<and> ac_created a = of_clock s)"
proof -
  obtain t children table where t: "foldl (\<lambda>s copy. disable_copy parent copy s) (s, [], []) (copies_of (of_adoptions s) (et, e)) = (t, children, table)"
    by (metis surj_pair)
  have "of_actions (snd (fan_out_disable parent et e sharer s)) = of_actions t"
    by (simp add: fan_out_disable_def t Let_def commit_def tells_rest split: option.split)
  then show ?thesis using disable_copies [OF t] by simp
qed


lemma status_hidden:
  assumes "latest_event s et e = Some a" and "ac_type a \<in> {content_disabled, content_disabled_as_copy}"
  shows "fst (effective_status et e s) = Some (ac_type a)"
  using assms
  by (auto simp: effective_status_def is_disabled_status_def counter_notice_forwarded_def content_disabled_def
      content_disabled_as_copy_def content_remains_disabled_def)

lemma status_shown:
  assumes "latest_event s et e = Some a" and "ac_type a = notice_rejected_incomplete"
  shows "fst (effective_status et e s) = None"
  using assms
  by (simp add: effective_status_def is_disabled_status_def counter_notice_forwarded_def content_disabled_def
      content_disabled_as_copy_def content_remains_disabled_def notice_rejected_incomplete_def)

lemma now_v7_rest: "now_v7 s = (i, t) \<Longrightarrow> t = s\<lparr>of_fresh := of_fresh s + 1\<rparr>"
  by (auto simp: now_v7_def)

lemma complete_notice:
  assumes "submit_takedown_notice l input s = (Inr events, t)" and "validate_takedown_notice (ti_fields input) = []"
    and e: "e = (entity_type_as_db_str (ti_entity_type input), ti_entity input)"
  obtains r1 r2 rs where "of_actions t = of_actions s @ [r1, r2] @ rs"
    and "ac_created r1 = of_clock s" and "ac_created r2 = of_clock s + 1" and "ac_type r2 = content_disabled"
    and "(ac_entity_type r2, ac_entity r2) = e" and "(ac_entity_type r1, ac_entity r1) = e"
    and "map (\<lambda>a. (ac_entity_type a, ac_entity a)) rs = map ad_copy (filter (\<lambda>a. name_of s (ad_copy a) \<noteq> None) (copies_of (of_adoptions s) e))"
    and "\<forall>a \<in> set rs. ac_type a = content_disabled_as_copy \<and> ac_created a = of_clock s + 2"
proof -
  obtain i s1 where s1: "now_v7 s = (i, s1)" by (metis surj_pair)
  note s1' = now_v7_rest [OF s1]
  obtain w account where owner: "resolve_entity_owner s1 (ti_entity_type input) (ti_entity input) = Inr (w, account)"
    using assms(1) by (auto simp: submit_takedown_notice_def s1 Let_def split: sum.splits)
  let ?row = "\<lambda>action. notice_row i action input w account (U ''valid'') None"
  let ?o3 = "commit (insert_action (?row content_disabled) (commit (insert_action (?row notice_received) s1)))"
  let ?o4 = "case account of Some owner \<Rightarrow> tell_of_strike owner i l ?o3 | None \<Rightarrow> ?o3"
  have o4: "of_actions ?o4 = of_actions s @ [(?row notice_received)\<lparr>ac_created := of_clock s\<rparr>, (?row content_disabled)\<lparr>ac_created := of_clock s + 1\<rparr>]"
    "of_clock ?o4 = of_clock s + 2" "of_adoptions ?o4 = of_adoptions s" "of_things ?o4 = of_things s"
    unfolding s1' by (simp_all del: U_simps add: commit_def insert_action_def split: option.split)
  have t: "t = snd (fan_out_disable i (fst e) (snd e) account ?o4)"
    using assms(1,2) by (simp del: U_simps add: submit_takedown_notice_def s1 owner Let_def e split: prod.splits)
  have names: "name_of ?o4 = name_of s" using o4(4) by (simp add: name_of_def fun_eq_iff)
  obtain rs where rs: "of_actions t = of_actions ?o4 @ rs"
     "map (\<lambda>a. (ac_entity_type a, ac_entity a)) rs = map ad_copy (filter (\<lambda>a. name_of ?o4 (ad_copy a) \<noteq> None) (copies_of (of_adoptions ?o4) (fst e, snd e)))"
     "\<forall>a \<in> set rs. ac_type a = content_disabled_as_copy \<and> ac_created a = of_clock ?o4"
    unfolding t using fan_out_disable_rows [of i "fst e" "snd e" account ?o4] by blast
  show thesis
  proof (rule that)
    show "of_actions t = of_actions s @ [(?row notice_received)\<lparr>ac_created := of_clock s\<rparr>, (?row content_disabled)\<lparr>ac_created := of_clock s + 1\<rparr>] @ rs"
      unfolding rs(1) o4(1) by simp
  qed (use rs(2,3) o4(2-4) names in \<open>simp_all del: U_simps add: notice_row_def plain_action_def e Let_def\<close>)
qed

text \<open>The one row of many that speaks of an entity.\<close>

lemma latest_among_rows:
  assumes "distinct (map f rs)" and "r \<in> set rs" and "f r = c"
    and "\<And>a. a \<in> set as' \<Longrightarrow> ac_created a < ac_created r"
  shows "latest_of (filter (\<lambda>a. f a = c) (as' @ rs)) = Some r"
proof -
  obtain xs ys where rs: "rs = xs @ r # ys" using assms(2) by (auto simp: in_set_conv_decomp)
  have "\<forall>a \<in> set xs \<union> set ys. f a \<noteq> c" using assms(1,3) unfolding rs by (auto simp: image_iff)
  then have "filter (\<lambda>a. f a = c) xs = []" "filter (\<lambda>a. f a = c) ys = []" by (auto simp: filter_empty_conv)
  then have "filter (\<lambda>a. f a = c) (as' @ rs) = filter (\<lambda>a. f a = c) as' @ [r]" using assms(3) by (simp add: rs)
  moreover have "latest_of (filter (\<lambda>a. f a = c) as' @ [r]) = Some r" by (rule latest_of_snoc) (use assms(4) in auto)
  ultimately show ?thesis by simp
qed

lemma latest_event_eq: "latest_event s (fst e) (snd e) = latest_of (filter (\<lambda>a. (ac_entity_type a, ac_entity a) = e) (of_actions s))"
  by (cases e) (simp add: latest_event_def)

lemma reached_iff: "c \<in> ad_copy ` set (copies_of adoptions e) \<longleftrightarrow> (e, c) \<in> {(ad_source a, ad_copy a) |a. a \<in> set adoptions}\<^sup>+ \<and> c \<noteq> e"
  and reached_once: "distinct (map ad_copy (copies_of adoptions e))"
  using copies_reached [of adoptions e] by auto

text \<open>C9: A complete takedown notice hides the thing and every copy of it that still exists, copies of copies
  included: read after the request, none of them is visible, where every earlier event is dated before it. The
  copies are those that adoption rows still in the table lead to; the rows into a deleted world are deleted with it.\<close>

theorem takedown_hides_every_copy:
  assumes "submit_takedown_notice l input s = (Inr events, t)" and "validate_takedown_notice (ti_fields input) = []"
    and "\<forall>a \<in> set (of_actions s). ac_created a < of_clock s"
    and "e = (entity_type_as_db_str (ti_entity_type input), ti_entity input)"
  shows "fst (effective_status (fst e) (snd e) t) = Some content_disabled \<and>
    (\<forall>c. (e, c) \<in> {(ad_source a, ad_copy a) |a. a \<in> set (of_adoptions s)}\<^sup>+ \<and> c \<noteq> e \<and> name_of s c \<noteq> None \<longrightarrow>
      fst (effective_status (fst c) (snd c) t) = Some content_disabled_as_copy)"
proof -
  let ?f = "\<lambda>a. (ac_entity_type a, ac_entity a)"
  obtain r1 r2 rs where acts: "of_actions t = of_actions s @ [r1, r2] @ rs"
    and r: "ac_created r1 = of_clock s" "ac_created r2 = of_clock s + 1" "ac_type r2 = content_disabled" "?f r2 = e" "?f r1 = e"
    and rs: "map ?f rs = map ad_copy (filter (\<lambda>a. name_of s (ad_copy a) \<noteq> None) (copies_of (of_adoptions s) e))"
      "\<forall>a \<in> set rs. ac_type a = content_disabled_as_copy \<and> ac_created a = of_clock s + 2"
    by (rule complete_notice [OF assms(1,2,4)])
  have rs_set: "?f ` set rs = {c \<in> ad_copy ` set (copies_of (of_adoptions s) e). name_of s c \<noteq> None}"
    using arg_cong [OF rs(1), of set] by auto
  have before: "ac_created a < of_clock s + 2" if "a \<in> set (of_actions s @ [r1, r2])" for a
    using that assms(3) r(1,2) by auto
  have "filter (\<lambda>a. ?f a = e) rs = []" using rs_set by (auto simp: filter_empty_conv reached_iff)
  then have "filter (\<lambda>a. ?f a = e) (of_actions t) = filter (\<lambda>a. ?f a = e) (of_actions s @ [r1]) @ [r2]" using r(4) by (simp add: acts)
  moreover have "latest_of (filter (\<lambda>a. ?f a = e) (of_actions s @ [r1]) @ [r2]) = Some r2"
    by (rule latest_of_snoc) (use assms(3) r(1,2) in \<open>auto split: if_splits\<close>)
  ultimately have "latest_event t (fst e) (snd e) = Some r2" unfolding latest_event_eq by simp
  then have thing: "fst (effective_status (fst e) (snd e) t) = Some content_disabled" using status_hidden r(3) by simp
  have copy: "fst (effective_status (fst c) (snd c) t) = Some content_disabled_as_copy"
    if "(e, c) \<in> {(ad_source a, ad_copy a) |a. a \<in> set (of_adoptions s)}\<^sup>+" "c \<noteq> e" "name_of s c \<noteq> None" for c
  proof -
    have "c \<in> ?f ` set rs" unfolding rs_set using that by (simp add: reached_iff)
    then obtain a where a: "a \<in> set rs" "?f a = c" by blast
    have "distinct (map ?f rs)" unfolding rs(1) by (rule distinct_map_filter) (rule reached_once)
    from latest_among_rows [OF this a, of "of_actions s @ [r1, r2]"] have "latest_event t (fst c) (snd c) = Some a"
      unfolding latest_event_eq acts using before rs(2) a(1) by auto
    then show ?thesis using status_hidden rs(2) a(1) by simp
  qed
  show ?thesis using thing copy by blast
qed

definition copied_office :: "office" where
  "copied_office = record_adoption (U ''scene'') 7 8 6 3 (an_office\<lparr>of_things := of_things an_office @
     [((U ''scene'', 8), \<lparr>th_world = 6, th_owner = 3, th_name = U ''My map''\<rparr>)]\<rparr>)"

definition accepted :: "takedown_input \<Rightarrow> office \<Rightarrow> bool" where
  "accepted input s \<longleftrightarrow> (case fst (submit_takedown_notice a_ladder input s) of Inl _ \<Rightarrow> False | Inr _ \<Rightarrow> True)"

lemma accepted_result:
  assumes "accepted input s"
  obtains events where "submit_takedown_notice a_ladder input s = (Inr events, snd (submit_takedown_notice a_ladder input s))"
  using assms by (cases "submit_takedown_notice a_ladder input s") (auto simp: accepted_def split: sum.splits)

lemma takedown_hides_every_copy_witness:
  "fst (effective_status (U ''scene'') 8 (snd (submit_takedown_notice a_ladder a_notice copied_office))) = Some content_disabled_as_copy"
proof -
  have "accepted a_notice copied_office" by code_simp
  then obtain events where r: "submit_takedown_notice a_ladder a_notice copied_office = (Inr events, snd (submit_takedown_notice a_ladder a_notice copied_office))"
    by (rule accepted_result)
  have v: "validate_takedown_notice (ti_fields a_notice) = []" by code_simp
  have n: "name_of copied_office (U ''scene'', 8) = Some (U ''My map'')" by code_simp
  have past: "\<forall>a \<in> set (of_actions copied_office). ac_created a < of_clock copied_office"
    by (simp add: copied_office_def record_adoption_def an_office_def)
  have e: "(U ''scene'', 7) = (entity_type_as_db_str (ti_entity_type a_notice), ti_entity a_notice)"
    by (simp del: U_simps add: a_notice_def)
  have reached: "((U ''scene'', 7), (U ''scene'', 8)) \<in> {(ad_source a, ad_copy a) |a. a \<in> set (of_adoptions copied_office)}\<^sup>+"
    by (rule r_into_trancl) (simp add: copied_office_def record_adoption_def an_office_def)
  show ?thesis
    using takedown_hides_every_copy [OF r v past e] reached n by (simp del: U_simps)
qed

text \<open>C26: An incomplete notice is recorded and disables nothing. But it is then the latest event of the thing,
  so the thing is visible afterwards even if an earlier case had disabled it.\<close>

theorem incomplete_notice_reveals:
  assumes "submit_takedown_notice l input s = (Inr events, t)" and "validate_takedown_notice (ti_fields input) \<noteq> []"
    and "\<forall>a \<in> set (of_actions s). ac_created a < of_clock s"
    and "e = (entity_type_as_db_str (ti_entity_type input), ti_entity input)"
  shows "fst (effective_status (fst e) (snd e) t) = None \<and>
    (\<exists>a. of_actions t = of_actions s @ [a] \<and> ac_type a = notice_rejected_incomplete \<and>
      ac_missing a = Some (validate_takedown_notice (ti_fields input))) \<and>
    (\<forall>e'. e' \<noteq> e \<longrightarrow> latest_event t (fst e') (snd e') = latest_event s (fst e') (snd e')) \<and>
    of_windows t = of_windows s \<and> of_notices t = of_notices s"
proof (intro conjI allI impI)
  obtain i s1 where s1: "now_v7 s = (i, s1)" by (metis surj_pair)
  note s1' = now_v7_rest [OF s1]
  obtain w account where owner: "resolve_entity_owner s1 (ti_entity_type input) (ti_entity input) = Inr (w, account)"
    using assms(1) by (auto simp: submit_takedown_notice_def s1 Let_def split: sum.splits)
  let ?row = "(notice_row i notice_rejected_incomplete input w account (U ''invalid_missing_elements'')
      (Some (validate_takedown_notice (ti_fields input))))\<lparr>ac_created := of_clock s\<rparr>"
  have "t = commit (insert_action (notice_row i notice_rejected_incomplete input w account (U ''invalid_missing_elements'')
      (Some (validate_takedown_notice (ti_fields input)))) s1)"
    using assms(1,2) by (simp del: U_simps add: submit_takedown_notice_def s1 owner Let_def)
  then have t: "of_actions t = of_actions s @ [?row]" "of_windows t = of_windows s" "of_notices t = of_notices s"
    by (simp_all del: U_simps add: s1' commit_def insert_action_def)
  have row: "ac_type ?row = notice_rejected_incomplete" "(ac_entity_type ?row, ac_entity ?row) = e" "ac_created ?row = of_clock s"
    "ac_missing ?row = Some (validate_takedown_notice (ti_fields input))"
    by (simp_all del: U_simps add: notice_row_def plain_action_def assms(4) Let_def)
  have "latest_of (filter (\<lambda>a. (ac_entity_type a, ac_entity a) = e) (of_actions s) @ [?row]) = Some ?row"
    by (rule latest_of_snoc) (use assms(3) row(3) in auto)
  then have "latest_event t (fst e) (snd e) = Some ?row" unfolding latest_event_eq t(1) using row(2) by simp
  then show "fst (effective_status (fst e) (snd e) t) = None" using row(1) by (rule status_shown)
  show "\<exists>a. of_actions t = of_actions s @ [a] \<and> ac_type a = notice_rejected_incomplete \<and>
      ac_missing a = Some (validate_takedown_notice (ti_fields input))" using t(1) row(1,4) by blast
  show "latest_event t (fst e') (snd e') = latest_event s (fst e') (snd e')" if "e' \<noteq> e" for e'
    using that unfolding latest_event_eq t(1) using row(2) by simp
  show "of_windows t = of_windows s" "of_notices t = of_notices s" by (rule t)+
qed

definition unsigned_notice :: "takedown_input" where
  "unsigned_notice = a_notice\<lparr>ti_fields := (ti_fields a_notice)\<lparr>nf_signature := []\<rparr>\<rparr>"

definition all_before :: "office \<Rightarrow> bool" where
  "all_before s \<longleftrightarrow> list_all (\<lambda>a. ac_created a < of_clock s) (of_actions s)"

lemma noticed_before: "all_before noticed_office"
  by code_simp

lemma incomplete_notice_reveals_witness:
  "fst (effective_status (U ''scene'') 7 noticed_office) = Some content_disabled \<and>
   fst (effective_status (U ''scene'') 7 (snd (submit_takedown_notice a_ladder unsigned_notice noticed_office))) = None"
proof -
  have "accepted unsigned_notice noticed_office" by code_simp
  then obtain events where r: "submit_takedown_notice a_ladder unsigned_notice noticed_office =
      (Inr events, snd (submit_takedown_notice a_ladder unsigned_notice noticed_office))"
    by (rule accepted_result)
  have v: "validate_takedown_notice (ti_fields unsigned_notice) \<noteq> []" by code_simp
  have b: "\<forall>a \<in> set (of_actions noticed_office). ac_created a < of_clock noticed_office"
    using noticed_before by (simp add: all_before_def list_all_iff)
  have "fst (effective_status (U ''scene'') 7 noticed_office) = Some content_disabled" by code_simp
  then show ?thesis using incomplete_notice_reveals [OF r v b refl, THEN conjunct1] by (simp del: U_simps add: unsigned_notice_def a_notice_def)
qed


text \<open>An upheld appeal restores the case, and with it the thing; its copies stay dark.\<close>

definition appealed_now :: "office \<Rightarrow> office" where
  "appealed_now s = snd (file_appeal 2 (U ''not so'') (of_clock s) s)"

definition noticed :: "takedown_input \<Rightarrow> office \<Rightarrow> office" where
  "noticed input s = snd (submit_takedown_notice a_ladder input s)"

definition copies_stay_dark :: "office \<Rightarrow> bool" where
  "copies_stay_dark s \<longleftrightarrow> fst (effective_status (U ''scene'') 7 s) = None \<and>
     fst (effective_status (U ''scene'') 8 s) = Some content_disabled_as_copy"

lemma upheld_appeal_leaves_copies:
  "copies_stay_dark (snd (heard (appealed_now (noticed a_notice copied_office))))"
  by code_simp

end
