(* ===== verification/Cache_Items.thy ===== *)
theory Cache_Items
  imports Btree Ieee
begin

text \<open>
  What the cache names and how it knows it (crates/thunderforge-cache-core/src: lib.rs,
  fingerprint.rs, manifest.rs): item ids and their wire form, fingerprints and their hex form, the
  check that bytes are what was promised, a client's manifest, and the canonical form a scene's
  fingerprint is taken over. SHA-256 and the text form of a UUID are other crates' code and are
  parameters: \<open>sha\<close>, \<open>show_uuid\<close> and \<open>parse_uuid\<close>.
\<close>

type_synonym u8 = "8 word"
type_synonym u64 = "64 word"

section \<open>Item ids\<close>

datatype item_id = SceneState uuid | CanvasAsset uuid

fun item_uuid :: "item_id \<Rightarrow> uuid" where
  "item_uuid (SceneState i) = i"
| "item_uuid (CanvasAsset i) = i"

text \<open>\<open>derive(Ord)\<close>: the variants in order, then their ids.\<close>

fun item_key :: "item_id \<Rightarrow> nat \<times> uuid" where
  "item_key (SceneState i) = (0, i)"
| "item_key (CanvasAsset i) = (1, i)"

definition key_le :: "nat \<times> uuid \<Rightarrow> nat \<times> uuid \<Rightarrow> bool" where
  "key_le p q \<longleftrightarrow> fst p < fst q \<or> fst p = fst q \<and> snd p \<le> snd q"

instantiation item_id :: linorder
begin

definition less_eq_item_id :: "item_id \<Rightarrow> item_id \<Rightarrow> bool" where
  "less_eq_item_id a b \<longleftrightarrow> key_le (item_key a) (item_key b)"

definition less_item_id :: "item_id \<Rightarrow> item_id \<Rightarrow> bool" where
  "less_item_id a b \<longleftrightarrow> key_le (item_key a) (item_key b) \<and> \<not> key_le (item_key b) (item_key a)"

instance
proof
  fix a b c :: item_id
  show "a \<le> b \<Longrightarrow> b \<le> a \<Longrightarrow> a = b"
    by (cases a; cases b) (auto simp: less_eq_item_id_def key_le_def)
  show "a \<le> b \<Longrightarrow> b \<le> c \<Longrightarrow> a \<le> c"
    by (auto simp: less_eq_item_id_def key_le_def)
qed (auto simp: less_eq_item_id_def less_item_id_def key_le_def)

end

definition item_to_wire :: "(uuid \<Rightarrow> ustring) \<Rightarrow> item_id \<Rightarrow> ustring" where
  "item_to_wire show_uuid i =
     (case i of SceneState u \<Rightarrow> U ''scene:'' @ show_uuid u | CanvasAsset u \<Rightarrow> U ''asset:'' @ show_uuid u)"

definition split_once :: "uchar \<Rightarrow> ustring \<Rightarrow> (ustring \<times> ustring) option" where
  "split_once c s = (if c \<in> set s then Some (takeWhile (\<lambda>x. x \<noteq> c) s, tl (dropWhile (\<lambda>x. x \<noteq> c) s)) else None)"

definition item_from_wire :: "(ustring \<Rightarrow> uuid option) \<Rightarrow> ustring \<Rightarrow> item_id option" where
  "item_from_wire parse_uuid s =
     (case split_once 58 s of
        None \<Rightarrow> None
      | Some (kind, i) \<Rightarrow>
          (case parse_uuid i of
             None \<Rightarrow> None
           | Some u \<Rightarrow>
               if kind = U ''scene'' then Some (SceneState u)
               else if kind = U ''asset'' then Some (CanvasAsset u)
               else None))"

text \<open>An item id survives the wire, whatever text the UUID library gives an id, as long as the
  library reads back what it wrote.\<close>

theorem item_wire_round_trip:
  assumes "\<forall>u. parse_uuid (show_uuid u) = Some u"
  shows "item_from_wire parse_uuid (item_to_wire show_uuid i) = Some i"
  using assms by (cases i) (simp_all add: item_from_wire_def item_to_wire_def split_once_def)

lemma item_wire_round_trip_witness:
  "item_from_wire (\<lambda>s. Some (of_nat (dec_val s))) (item_to_wire (\<lambda>u. nat_digits (unat u)) (CanvasAsset 42))
     = Some (CanvasAsset 42)"
  by (rule item_wire_round_trip) simp

section \<open>Fingerprints\<close>

type_synonym fingerprint = "u8 list"  \<comment> \<open>32 bytes\<close>

datatype hex_error = WrongLength nat | NotLowercaseHex

record integrity_error =
  ie_expected :: fingerprint
  ie_actual :: fingerprint

text \<open>\<open>str::as_bytes\<close>: the UTF-8 form of each character.\<close>

definition utf8_char :: "uchar \<Rightarrow> u8 list" where
  "utf8_char c =
     (if c < 128 then [of_nat c]
      else if c < 2048 then [of_nat (192 + c div 64), of_nat (128 + c mod 64)]
      else if c < 65536 then [of_nat (224 + c div 4096), of_nat (128 + c div 64 mod 64), of_nat (128 + c mod 64)]
      else [of_nat (240 + c div 262144), of_nat (128 + c div 4096 mod 64),
            of_nat (128 + c div 64 mod 64), of_nat (128 + c mod 64)])"

definition utf8 :: "ustring \<Rightarrow> u8 list" where
  "utf8 s = concat (map utf8_char s)"

definition hex_digit :: "nat \<Rightarrow> uchar" where
  "hex_digit n = (if n < 10 then 48 + n else 87 + n)"

definition to_hex :: "fingerprint \<Rightarrow> ustring" where
  "to_hex f = concat (map (\<lambda>b. [hex_digit (unat b div 16), hex_digit (unat b mod 16)]) f)"

definition hex_nibble :: "u8 \<Rightarrow> hex_error + u8" where
  "hex_nibble c =
     (if 48 \<le> c \<and> c \<le> 57 then Inr (c - 48)
      else if 97 \<le> c \<and> c \<le> 102 then Inr (c - 97 + 10)
      else Inl NotLowercaseHex)"

fun hex_bytes :: "u8 list \<Rightarrow> hex_error + u8 list" where
  "hex_bytes (h # l # s) =
     (case hex_nibble h of
        Inl e \<Rightarrow> Inl e
      | Inr hi \<Rightarrow>
      case hex_nibble l of
        Inl e \<Rightarrow> Inl e
      | Inr lo \<Rightarrow>
      case hex_bytes s of
        Inl e \<Rightarrow> Inl e
      | Inr out \<Rightarrow> Inr (or (push_bit 4 hi) lo # out))"
| "hex_bytes _ = Inr []"

definition from_hex :: "ustring \<Rightarrow> hex_error + fingerprint" where
  "from_hex s =
     (if length (utf8 s) \<noteq> 64 then Inl (WrongLength (length (utf8 s))) else hex_bytes (utf8 s))"

definition of_bytes :: "(u8 list \<Rightarrow> u8 list) \<Rightarrow> u8 list \<Rightarrow> fingerprint" where
  "of_bytes sha bytes = sha bytes"

definition verify_bytes :: "(u8 list \<Rightarrow> u8 list) \<Rightarrow> u8 list \<Rightarrow> fingerprint \<Rightarrow> integrity_error + unit" where
  "verify_bytes sha bytes expected =
     (let actual = of_bytes sha bytes in
      if actual = expected then Inr () else Inl \<lparr>ie_expected = expected, ie_actual = actual\<rparr>)"

lemma hex_digit_ascii: "n < 16 \<Longrightarrow> utf8_char (hex_digit n) = [of_nat (hex_digit n)]"
  by (simp add: utf8_char_def hex_digit_def)

lemma hex_nibble_digit: "n < 16 \<Longrightarrow> hex_nibble (of_nat (hex_digit n)) = Inr (of_nat n)"
  by (simp add: hex_nibble_def hex_digit_def word_le_nat_alt unat_of_nat take_bit_nat_eq_self)

lemma unat_u8: "n < 256 \<Longrightarrow> unat (of_nat n :: u8) = n"
  by (simp add: unat_of_nat take_bit_nat_eq_self)

lemma high_nibble: "unat (b :: u8) div 16 < 16"
proof -
  have "unat b < 2 ^ LENGTH(8)" by (rule unsigned_less)
  then show ?thesis by simp
qed

lemma nibble_join:
  assumes "h < 16" "l < 16"
  shows "or (push_bit 4 (of_nat h :: u8)) (of_nat l) = of_nat (16 * h + l)"
proof -
  have "\<not> bit (of_nat l :: u8) n" if "4 \<le> n" for n
  proof -
    have "l div 2 ^ n = 0"
      using assms(2) power_increasing [OF that, of "2 :: nat"] by simp
    then have "\<not> bit (unat (of_nat l :: u8)) n" using assms(2) by (simp only: unat_u8) (simp add: bit_iff_odd)
    moreover have "bit (of_nat l :: u8) n = bit (unat (of_nat l :: u8)) n" by (simp only: bit_unsigned_iff) simp
    ultimately show ?thesis by simp
  qed
  then have "push_bit 4 (of_nat h :: u8) + of_nat l = or (push_bit 4 (of_nat h)) (of_nat l)"
    by (intro disjunctive_add) (auto simp: bit_push_bit_iff)
  then have "or (push_bit 4 (of_nat h :: u8)) (of_nat l) = push_bit 4 (of_nat h) + of_nat l" by (rule sym)
  also have "\<dots> = of_nat (16 * h + l)" by (simp add: push_bit_eq_mult mult.commute)
  finally show ?thesis .
qed

lemma utf8_to_hex: "utf8 (to_hex f) = concat (map (\<lambda>b. [of_nat (hex_digit (unat b div 16)), of_nat (hex_digit (unat b mod 16))]) f)"
proof (induction f)
  case (Cons b f)
  from high_nibble [of b] Cons show ?case by (simp add: utf8_def to_hex_def hex_digit_ascii)
qed (simp add: utf8_def to_hex_def)

lemma hex_bytes_to_hex: "hex_bytes (utf8 (to_hex f)) = Inr f"
proof (induction f)
  case (Cons b f)
  from high_nibble [of b] Cons show ?case by (simp add: utf8_to_hex hex_nibble_digit nibble_join)
qed (simp add: utf8_to_hex)

lemma hex_digit_u8: "n < 16 \<Longrightarrow> unat (of_nat (hex_digit n) :: u8) < 128"
  by (subst unat_u8) (simp_all add: hex_digit_def)

lemma utf8_to_hex_ascii: "\<forall>b \<in> set (utf8 (to_hex f)). unat b < 128"
proof (induction f)
  case (Cons b f)
  from high_nibble [of b] Cons show ?case by (simp add: utf8_to_hex hex_digit_u8)
qed (simp add: utf8_to_hex)

lemma length_utf8_to_hex: "length (utf8 (to_hex f)) = 2 * length f"
  by (induction f) (simp_all add: utf8_to_hex)

lemma hex_nibble_Inr:
  assumes "hex_nibble c = Inr v"
  shows "unat v < 16 \<and> c = of_nat (hex_digit (unat v)) \<and> unat c < 128"
proof -
  have c: "c = of_nat (unat c)" by simp
  from assms consider "48 \<le> unat c" "unat c \<le> 57" "v = of_nat (unat c - 48)"
    | "97 \<le> unat c" "unat c \<le> 102" "v = of_nat (unat c - 87)"
    by (auto simp: hex_nibble_def word_le_nat_alt of_nat_diff split: if_splits)
  then show ?thesis
  proof cases
    case 1
    then have "unat v = unat c - 48" by (simp only: unat_u8)
    with 1 show ?thesis by (auto simp: hex_digit_def simp flip: c)
  next
    case 2
    then have "unat v = unat c - 87" by (simp only: unat_u8)
    with 2 show ?thesis by (auto simp: hex_digit_def simp flip: c)
  qed
qed

lemma hex_bytes_Inr:
  "hex_bytes s = Inr f \<Longrightarrow> even (length s) \<Longrightarrow> s = utf8 (to_hex f)"
proof (induction s arbitrary: f rule: hex_bytes.induct)
  case (1 h l s)
  then obtain hi lo out where v: "hex_nibble h = Inr hi" "hex_nibble l = Inr lo" "hex_bytes s = Inr out"
    "f = or (push_bit 4 hi) lo # out" by (auto split: sum.splits)
  note n = hex_nibble_Inr [OF v(1)] hex_nibble_Inr [OF v(2)]
  have "or (push_bit 4 hi) lo = of_nat (16 * unat hi + unat lo)"
    using nibble_join [of "unat hi" "unat lo"] n by simp
  moreover have "unat (of_nat (16 * unat hi + unat lo) :: u8) = 16 * unat hi + unat lo"
    using n by (intro unat_u8) simp
  ultimately have b: "unat (or (push_bit 4 hi) lo) = 16 * unat hi + unat lo" by simp
  have "s = utf8 (to_hex out)" using "1.IH" v "1.prems" by auto
  then show ?case using n b v(4) by (simp add: utf8_to_hex)
qed (auto simp: utf8_def to_hex_def)

lemma utf8_char_ascii:
  assumes "\<forall>b \<in> set (utf8_char c). unat b < 128"
  shows "c < 128"
proof (rule ccontr)
  assume "\<not> c < 128"
  then have "(of_nat (128 + c mod 64) :: u8) \<in> set (utf8_char c)" by (simp add: utf8_char_def)
  moreover have "unat (of_nat (128 + c mod 64) :: u8) = 128 + c mod 64"
    by (rule unat_u8) simp
  ultimately show False using assms by (metis le_add1 not_less)
qed

lemma utf8_ascii_inj: "utf8 s = utf8 t \<Longrightarrow> \<forall>b \<in> set (utf8 s). unat b < 128 \<Longrightarrow> s = t"
proof (induction s arbitrary: t)
  case Nil
  then show ?case by (cases t) (auto simp: utf8_def utf8_char_def split: if_splits)
next
  case (Cons c s)
  have c: "c < 128" using Cons.prems(2) by (intro utf8_char_ascii) (simp add: utf8_def)
  then have uc: "utf8_char c = [of_nat c]" by (simp add: utf8_char_def)
  obtain d t' where t: "t = d # t'" using Cons.prems uc by (cases t) (auto simp: utf8_def)
  have "\<forall>b \<in> set (utf8 t). unat b < 128" using Cons.prems by metis
  then have d: "d < 128" by (intro utf8_char_ascii) (simp add: utf8_def t)
  then have ud: "utf8_char d = [of_nat d]" by (simp add: utf8_char_def)
  have eq: "(of_nat c :: u8) = of_nat d" "utf8 s = utf8 t'" using Cons.prems(1) by (simp_all add: t utf8_def uc ud)
  have "unat (of_nat c :: u8) = c" "unat (of_nat d :: u8) = d"
    using c d by (simp_all only: unat_u8)
  then have "c = d" using eq(1) by metis
  moreover have "\<forall>b \<in> set (utf8 s). unat b < 128" using Cons.prems(2) by (simp add: utf8_def)
  then have "s = t'" by (rule Cons.IH [OF eq(2)])
  ultimately show ?case by (simp add: t)
qed

text \<open>Hexadecimal is the one text of a fingerprint: what is written reads back, and any text that
  reads as a fingerprint is exactly the text that fingerprint is written as, upper case and every
  other spelling being refused.\<close>

theorem hex_round_trip:
  "(length f = 32 \<longrightarrow> from_hex (to_hex f) = Inr f) \<and>
   (from_hex s = Inr f \<longleftrightarrow> s = to_hex f \<and> length f = 32)"
proof -
  have a: "from_hex (to_hex f) = Inr f" if "length f = 32"
    using that by (simp add: from_hex_def length_utf8_to_hex hex_bytes_to_hex)
  have b: "s = to_hex f \<and> length f = 32" if "from_hex s = Inr f"
  proof -
    from that have l: "length (utf8 s) = 64" and h: "hex_bytes (utf8 s) = Inr f"
      by (simp_all add: from_hex_def split: if_splits)
    from hex_bytes_Inr [OF h] l utf8_to_hex_ascii [of f]
    have u: "utf8 s = utf8 (to_hex f)" "\<forall>b \<in> set (utf8 s). unat b < 128" by simp_all
    from utf8_ascii_inj [OF u] have "s = to_hex f" .
    moreover have "length f = 32" using l u(1) length_utf8_to_hex [of f] by simp
    ultimately show ?thesis by simp
  qed
  from a b show ?thesis by blast
qed

lemma hex_round_trip_witness: "from_hex (to_hex (replicate 32 171)) = Inr (replicate 32 171)"
  using hex_round_trip [of "replicate 32 171" "[]"] by simp

section \<open>The manifest\<close>

record held_item =
  hi_id :: item_id
  hi_fingerprint :: fingerprint

record manifest =
  mf_world :: uuid
  mf_items :: "(item_id \<times> fingerprint) list"

definition manifest_new :: "uuid \<Rightarrow> manifest" where
  "manifest_new w = \<lparr>mf_world = w, mf_items = []\<rparr>"

definition manifest_insert :: "item_id \<Rightarrow> fingerprint \<Rightarrow> manifest \<Rightarrow> manifest" where
  "manifest_insert i f m = m\<lparr>mf_items := bt_insert i f (mf_items m)\<rparr>"

definition manifest_remove :: "item_id \<Rightarrow> manifest \<Rightarrow> manifest" where
  "manifest_remove i m = m\<lparr>mf_items := bt_remove i (mf_items m)\<rparr>"

definition manifest_get :: "manifest \<Rightarrow> item_id \<Rightarrow> fingerprint option" where
  "manifest_get m i = map_of (mf_items m) i"

definition manifest_len :: "manifest \<Rightarrow> nat" where
  "manifest_len m = length (mf_items m)"

definition manifest_is_empty :: "manifest \<Rightarrow> bool" where
  "manifest_is_empty m \<longleftrightarrow> mf_items m = []"

definition manifest_to_wire :: "manifest \<Rightarrow> held_item list" where
  "manifest_to_wire m = map (\<lambda>(i, f). \<lparr>hi_id = i, hi_fingerprint = f\<rparr>) (mf_items m)"

text \<open>The manifests a client can have built.\<close>

inductive built :: "uuid \<Rightarrow> manifest \<Rightarrow> bool" for w where
  "built w (manifest_new w)"
| "built w m \<Longrightarrow> built w (manifest_insert i f m)"
| "built w m \<Longrightarrow> built w (manifest_remove i m)"

lemma built_ok: "built w m \<Longrightarrow> bt_ok (mf_items m) \<and> mf_world m = w"
  by (induction rule: built.induct)
    (simp_all add: manifest_new_def manifest_insert_def manifest_remove_def btree.ok_ins btree.ok_del)

text \<open>C38: two clients that hold the same things send the same bytes: a manifest's wire form depends on
  what it holds only, never on the insertions and removals that led there, and it lists each item once
  in ascending order.\<close>

theorem manifest_wire_canonical:
  assumes "built w m" and "built w n" and "\<forall>i. manifest_get m i = manifest_get n i"
  shows "manifest_to_wire m = manifest_to_wire n \<and> sorted_wrt (<) (map hi_id (manifest_to_wire m)) \<and>
    (\<forall>i f. \<lparr>hi_id = i, hi_fingerprint = f\<rparr> \<in> set (manifest_to_wire m) \<longleftrightarrow> manifest_get m i = Some f)"
proof -
  note ok = built_ok [OF assms(1)] built_ok [OF assms(2)]
  have "map_of (mf_items m) = map_of (mf_items n)" using assms(3) by (simp add: manifest_get_def fun_eq_iff)
  then have eq: "mf_items m = mf_items n" using ok by (intro btree.entries_unique) simp_all
  have "sorted_wrt (<) (map hi_id (manifest_to_wire m))"
    using btree.entries_sorted [of "mf_items m"] ok
    by (simp add: manifest_to_wire_def case_prod_beta comp_def)
  moreover have "\<lparr>hi_id = i, hi_fingerprint = f\<rparr> \<in> set (manifest_to_wire m) \<longleftrightarrow> manifest_get m i = Some f" for i f
    using btree.entry_iff [of "mf_items m" i f] ok by (auto simp: manifest_to_wire_def manifest_get_def)
  ultimately show ?thesis using eq by (simp add: manifest_to_wire_def)
qed

lemma manifest_wire_canonical_witness:
  "manifest_to_wire (manifest_insert (SceneState 2) [7] (manifest_insert (CanvasAsset 1) [9] (manifest_new 5)))
    = manifest_to_wire (manifest_insert (CanvasAsset 1) [9] (manifest_insert (SceneState 2) [7] (manifest_new 5)))"
proof -
  let ?m = "manifest_insert (SceneState 2) [7] (manifest_insert (CanvasAsset 1) [9] (manifest_new 5))"
  let ?n = "manifest_insert (CanvasAsset 1) [9] (manifest_insert (SceneState 2) [7] (manifest_new 5))"
  have "built 5 ?m" "built 5 ?n" by (intro built.intros)+
  moreover have "\<forall>i. manifest_get ?m i = manifest_get ?n i"
    by (simp add: manifest_get_def manifest_insert_def manifest_new_def less_item_id_def key_le_def)
  ultimately show ?thesis using manifest_wire_canonical [of 5 ?m ?n] by blast
qed

section \<open>The canonical scene\<close>

definition canonical_version :: u32 where "canonical_version = 1"

record canonical_entity =
  ce_id :: uuid
  ce_x :: u64          \<comment> \<open>an \<open>i64\<close> at its width, as are the next three\<close>
  ce_y :: u64
  ce_rotation :: u64
  ce_scale :: u64

record canonical_scene =
  cs_version :: u32
  cs_scene :: uuid
  cs_entities :: "canonical_entity list"

definition canonical_new :: "uuid \<Rightarrow> canonical_entity list \<Rightarrow> canonical_scene" where
  "canonical_new scene es = \<lparr>cs_version = canonical_version, cs_scene = scene, cs_entities = sort_key ce_id es\<rparr>"

text \<open>\<open>to_be_bytes\<close>: the \<open>k\<close> bytes of a number, the most significant first.\<close>

fun be_bytes :: "nat \<Rightarrow> nat \<Rightarrow> u8 list" where
  "be_bytes 0 v = []"
| "be_bytes (Suc k) v = be_bytes k (v div 256) @ [of_nat v]"

definition entity_bytes :: "canonical_entity \<Rightarrow> u8 list" where
  "entity_bytes e = be_bytes 16 (unat (ce_id e)) @ be_bytes 8 (unat (ce_x e)) @ be_bytes 8 (unat (ce_y e)) @
     be_bytes 8 (unat (ce_rotation e)) @ be_bytes 8 (unat (ce_scale e))"

definition canonical_bytes :: "canonical_scene \<Rightarrow> u8 list" where
  "canonical_bytes s =
     be_bytes 4 (unat (cs_version s)) @ be_bytes 16 (unat (cs_scene s)) @
     be_bytes 8 (length (cs_entities s)) @ concat (map entity_bytes (cs_entities s))"

definition scene_fingerprint :: "(u8 list \<Rightarrow> u8 list) \<Rightarrow> canonical_scene \<Rightarrow> fingerprint" where
  "scene_fingerprint sha s = of_bytes sha (canonical_bytes s)"

lemma length_be_bytes [simp]: "length (be_bytes k v) = k"
  by (induction k v rule: be_bytes.induct) simp_all

lemma be_bytes_inj: "be_bytes k v = be_bytes k w \<Longrightarrow> v < 256 ^ k \<Longrightarrow> w < 256 ^ k \<Longrightarrow> v = w"
proof (induction k arbitrary: v w)
  case (Suc k)
  have "v div 256 = w div 256"
    using Suc.prems by (intro Suc.IH) (simp_all add: less_mult_imp_div_less mult.commute)
  moreover have "v mod 256 = w mod 256"
    using Suc.prems(1) by (simp add: word_of_nat_eq_iff take_bit_eq_mod)
  ultimately show ?case by (metis div_mult_mod_eq)
qed simp

lemma be_bytes_word: "be_bytes k (unat v) = be_bytes k (unat w) \<Longrightarrow> LENGTH('a) = 8 * k \<Longrightarrow> v = w"
  for v w :: "'a::len word"
proof -
  assume a: "be_bytes k (unat v) = be_bytes k (unat w)" and l: "LENGTH('a) = 8 * k"
  have "unat u < 256 ^ k" for u :: "'a word"
  proof -
    have "unat u < 2 ^ LENGTH('a)" by (rule unsigned_less)
    then show ?thesis by (simp add: l power_mult)
  qed
  then have "unat v = unat w" by (intro be_bytes_inj [OF a])
  then show "v = w" by (simp add: word_unat_eq_iff)
qed

lemma length_entity_bytes [simp]: "length (entity_bytes e) = 48"
  by (simp add: entity_bytes_def)

lemma entity_bytes_inj: "entity_bytes d = entity_bytes e \<Longrightarrow> d = e"
  unfolding entity_bytes_def
  by (rule canonical_entity.equality) (auto dest!: be_bytes_word)

lemma entities_bytes_inj:
  "concat (map entity_bytes ds) = concat (map entity_bytes es) \<Longrightarrow> ds = es"
proof (induction ds arbitrary: es)
  case Nil
  then show ?case by (cases es) (auto dest: arg_cong [where f = length])
next
  case (Cons d ds)
  then obtain e es' where e: "es = e # es'" by (cases es) (auto dest: arg_cong [where f = length])
  from Cons.prems have "entity_bytes d = entity_bytes e" "concat (map entity_bytes ds) = concat (map entity_bytes es')"
    by (simp_all add: e)
  with Cons.IH entity_bytes_inj show ?case by (simp add: e)
qed

lemma canonical_bytes_inj: "canonical_bytes s = canonical_bytes t \<Longrightarrow> s = t"
proof -
  assume eq: "canonical_bytes s = canonical_bytes t"
  then have "be_bytes 4 (unat (cs_version s)) = be_bytes 4 (unat (cs_version t))"
    "be_bytes 16 (unat (cs_scene s)) = be_bytes 16 (unat (cs_scene t))"
    "concat (map entity_bytes (cs_entities s)) = concat (map entity_bytes (cs_entities t))"
    by (simp_all add: canonical_bytes_def)
  then show "s = t" by (intro canonical_scene.equality) (auto dest: be_bytes_word entities_bytes_inj)
qed

lemma canonical_new_mset:
  assumes "distinct (map ce_id es)" and "mset es = mset es'"
  shows "canonical_new scene es = canonical_new scene es'"
proof -
  have "inj_on ce_id (set es)" using assms(1) by (simp add: distinct_map)
  then have "sort_key ce_id es = sort_key ce_id es'"
    using assms(2) by (intro sort_key_inj_key_eq) (auto dest: mset_eq_setD)
  then show ?thesis by (simp add: canonical_new_def)
qed

text \<open>C37: The bytes a fingerprint is taken over say everything and nothing else. Scenes with the same bytes are the
  same scene. Of scenes built from rows of entities with distinct ids, two have the same bytes exactly when they
  are of the same scene and have the same entities: the order the rows came in does not reach the bytes, and
  every difference in an entity does.\<close>

theorem canonical_bytes_faithful:
  "(canonical_bytes s = canonical_bytes t \<longrightarrow> s = t) \<and>
   (distinct (map ce_id es) \<longrightarrow>
      canonical_bytes (canonical_new scene es) = canonical_bytes (canonical_new scene' es') \<longleftrightarrow>
        scene = scene' \<and> mset es = mset es')"
proof (intro conjI impI iffI)
  show "canonical_bytes s = canonical_bytes t \<Longrightarrow> s = t" by (rule canonical_bytes_inj)
next
  assume "canonical_bytes (canonical_new scene es) = canonical_bytes (canonical_new scene' es')"
  then have "canonical_new scene es = canonical_new scene' es'" by (rule canonical_bytes_inj)
  then have same: "scene = scene'" "sort_key ce_id es = sort_key ce_id es'" by (simp_all add: canonical_new_def)
  then show "scene = scene'" "mset es = mset es'" by (metis, metis mset_sort)
next
  assume "distinct (map ce_id es)" "scene = scene' \<and> mset es = mset es'"
  then show "canonical_bytes (canonical_new scene es) = canonical_bytes (canonical_new scene' es')"
    by (metis canonical_new_mset)
qed

lemma canonical_bytes_faithful_witness:
  "canonical_bytes (canonical_new 7 [\<lparr>ce_id = 2, ce_x = 5, ce_y = 0, ce_rotation = 0, ce_scale = 1000\<rparr>,
      \<lparr>ce_id = 1, ce_x = 9, ce_y = 0, ce_rotation = 0, ce_scale = 1000\<rparr>])
    = canonical_bytes (canonical_new 7 [\<lparr>ce_id = 1, ce_x = 9, ce_y = 0, ce_rotation = 0, ce_scale = 1000\<rparr>,
      \<lparr>ce_id = 2, ce_x = 5, ce_y = 0, ce_rotation = 0, ce_scale = 1000\<rparr>])"
  by (rule canonical_bytes_faithful [THEN conjunct2, rule_format, THEN iffD2]) simp_all

section \<open>Quantizing\<close>

text \<open>\<open>f64::from\<close> of an \<open>f32\<close> is exact, so the value is one number of both formats; the cast to
  \<open>i64\<close> truncates and saturates.\<close>

definition quantize :: "ieee \<Rightarrow> int" where
  "quantize v =
     (let scaled = fmul binary64 v (Fin 1000) in
      if fle (Fin 0) scaled then f_to_i64 (fadd binary64 scaled (Fin (1 / 2)))
      else f_to_i64 (fsub binary64 scaled (Fin (1 / 2))))"

lemma rne_minus: "rne (- x) = - rne x"
proof (cases "x = of_int \<lfloor>x\<rfloor>")
  case True
  then show ?thesis by (metis of_int_minus rne_of_int)
next
  case False
  then have c: "\<lfloor>- x\<rfloor> = - \<lfloor>x\<rfloor> - 1"
    by (simp add: floor_minus ceiling_altdef)
  show ?thesis unfolding rne_def Let_def c by (auto simp: algebra_simps)
qed

lemma rnd_minus: "x \<noteq> 0 \<Longrightarrow> rnd F (- x) = fneg (rnd F x)"
  by (auto simp: rnd_def Let_def rne_minus quantum_def)

lemma fmul_fneg: "fmul F (fneg x) y = fneg (fmul F x y)"
  by (cases x; cases y) (auto simp: fmul_def Let_def signed_zero_def rnd_minus)

lemma fadd_fneg: "fval x + fval y \<noteq> 0 \<or> \<not> is_finite x \<Longrightarrow> fadd F (fneg x) (fneg y) = fneg (fadd F x y)"
  using rnd_minus [of "fval x + fval y" F] by (cases x; cases y) (auto simp: fadd_def)

lemma rat_trunc_minus: "rat_trunc (- r) = - rat_trunc r"
  by (cases "r = 0") (auto simp: rat_trunc_def ceiling_minus floor_minus)

lemma to_i64_fneg:
  assumes "\<bar>f_to_i64 x\<bar> < i64_max"
  shows "f_to_i64 (fneg x) = - f_to_i64 x"
proof (cases x)
  case (Fin r)
  have "f_to_i64 (fneg (Fin r)) = max i64_min (min i64_max (- rat_trunc r))"
    by (cases "r = 0") (simp_all add: f_to_i64_def rat_trunc_minus, simp add: rat_trunc_def int_limits)
  moreover have "\<bar>max i64_min (min i64_max (rat_trunc r))\<bar> < i64_max"
    using assms by (simp add: Fin f_to_i64_def)
  ultimately show ?thesis
    by (simp add: Fin f_to_i64_def int_limits min_def max_def split: if_splits)
qed (use assms in \<open>auto simp: f_to_i64_def rat_trunc_def int_limits split: if_splits\<close>)

lemma rnd64_half:
  assumes "\<bar>n\<bar> < 9007199254740992"
  shows "rnd binary64 (of_int n / 2) = Fin (of_int n / 2)"
proof (rule rnd_representable)
  have "\<exists>m q. (of_int n / 2 :: rat) = of_int m * 2 powi q \<and> \<bar>m\<bar> < 2 ^ prec binary64 \<and> qmin binary64 \<le> q"
    using assms by - (rule exI [of _ n], rule exI [of _ "- 1"], simp add: binary64_def power_int_minus)
  moreover have "\<bar>of_int n / 2 :: rat\<bar> < 2 powi emax binary64"
  proof -
    have "(of_int \<bar>n\<bar> :: rat) < of_int 9007199254740992" using assms by (simp only: of_int_less_iff)
    then have "\<bar>of_int n / 2 :: rat\<bar> < 9007199254740992" by simp
    also have "\<dots> \<le> 2 powi emax binary64"
      by (simp add: binary64_def power_int_def)
    finally show ?thesis .
  qed
  ultimately show "representable binary64 (of_int n / 2)" by (simp add: representable_def)
qed

text \<open>Quantizing is symmetric: a coordinate and its negation land on the two sides of zero, whenever
  the result is inside the range the cast does not saturate at.\<close>

theorem quantize_symmetric:
  assumes "\<bar>quantize v\<bar> < i64_max"
  shows "quantize (fneg v) = - quantize v"
proof -
  let ?s = "fmul binary64 v (Fin 1000)"
  have n: "fmul binary64 (fneg v) (Fin 1000) = fneg ?s" by (rule fmul_fneg)
  consider "?s = NaN" | "is_finite ?s" "fval ?s = 0" | "fval ?s \<noteq> 0 \<or> \<not> is_finite ?s" "?s \<noteq> NaN" by blast
  then show ?thesis
  proof cases
    case 1
    then show ?thesis unfolding quantize_def Let_def n 1
      by (simp add: fle_def fsub_def fadd_def f_to_i64_def)
  next
    case 2
    have h: "rnd binary64 (1 / 2) = Fin (1 / 2)" using rnd64_half [of 1] by simp
    from 2 consider "?s = NegZero" | "?s = Fin 0" by (cases ?s) auto
    then show ?thesis
      unfolding quantize_def Let_def n
      by cases (simp_all add: fle_def fadd_def h f_to_i64_def rat_trunc_def int_limits floor_eq_iff)
  next
    case 3
    show ?thesis
    proof (cases "fle (Fin 0) ?s")
      case True
      with 3 have "\<not> fle (Fin 0) (fneg ?s)" by (cases ?s) (auto simp: fle_def)
      moreover have "fadd binary64 (fneg ?s) (fneg (Fin (1 / 2))) = fneg (fadd binary64 ?s (Fin (1 / 2)))"
        using True 3 by (intro fadd_fneg) (cases ?s; auto simp: fle_def)
      ultimately show ?thesis
        using True assms to_i64_fneg [of "fadd binary64 ?s (Fin (1 / 2))"]
        by (simp add: quantize_def Let_def n fsub_def)
    next
      case False
      with 3 have "fle (Fin 0) (fneg ?s)" by (cases ?s) (auto simp: fle_def)
      moreover have "fadd binary64 (fneg ?s) (fneg (fneg (Fin (1 / 2)))) = fneg (fadd binary64 ?s (fneg (Fin (1 / 2))))"
        using False 3 by (intro fadd_fneg) (cases ?s; auto simp: fle_def)
      ultimately show ?thesis
        using False assms to_i64_fneg [of "fadd binary64 ?s (fneg (Fin (1 / 2)))"]
        by (simp add: quantize_def Let_def n fsub_def)
    qed
  qed
qed

lemma quantize_symmetric_witness: "quantize (fneg (Fin (3 / 2))) = - 1500"
proof -
  have "rnd binary64 1500 = Fin 1500" by simp
  moreover have "rnd binary64 (3001 / 2) = Fin (3001 / 2)" using rnd64_half [of 3001] by simp
  ultimately have "quantize (Fin (3 / 2)) = 1500"
    by (simp add: quantize_def fmul_def fadd_def fle_def f_to_i64_def rat_trunc_def int_limits floor_eq_iff)
  then show ?thesis using quantize_symmetric [of "Fin (3 / 2)"] by (simp add: int_limits)
qed

end
