(* ===== verification/Cache_Store.thy ===== *)
theory Cache_Store
  imports Cache_Items "HOL-Library.Product_Lexorder" "HOL-Library.List_Lexorder"
begin

text \<open>
  Where a browser keeps the bytes of a world (crates/thunderforge-opfs/src: paths.rs, store.rs, memory.rs,
  quota.rs): the names of files, what a file's size says about it, and the trait \<open>BlobStore\<close>. The trait is
  the record \<open>blob_ops\<close>, its contract the locale \<open>blob_store\<close>; what the cache does with any such store is
  proved from the contract in \<open>Cache_Client\<close>. The store of memory.rs is the model the contract is
  discharged on here. The store over the browser's file system is not under test in the crate either,
  its calls being the browser's.
\<close>

section \<open>Names\<close>

datatype path_error = ScopeLength nat | ScopeCharacter uchar | NotABlobName

definition blob_extension :: ustring where "blob_extension = U ''.bin''"
definition max_scope_len :: nat where "max_scope_len = 64"

definition scope_char :: "uchar \<Rightarrow> bool" where
  "scope_char c \<longleftrightarrow> (48 \<le> c \<and> c \<le> 57 \<or> 65 \<le> c \<and> c \<le> 90 \<or> 97 \<le> c \<and> c \<le> 122) \<or> c = 45 \<or> c = 95"

definition scope_new :: "ustring \<Rightarrow> path_error + ustring" where
  "scope_new scope =
     (if scope = [] \<or> max_scope_len < length (utf8 scope) then Inl (ScopeLength (length (utf8 scope)))
      else case find (\<lambda>c. \<not> scope_char c) scope of Some bad \<Rightarrow> Inl (ScopeCharacter bad) | None \<Rightarrow> Inr scope)"

definition scope_for_user :: "(u8 list \<Rightarrow> u8 list) \<Rightarrow> uuid \<Rightarrow> ustring" where
  "scope_for_user sha user = take 32 (to_hex (of_bytes sha (be_bytes 16 (unat user))))"

record blob_path =
  bl_scope :: ustring
  bl_world :: uuid
  bl_fingerprint :: fingerprint

definition world_dir_name :: "(uuid \<Rightarrow> ustring) \<Rightarrow> uuid \<Rightarrow> ustring" where
  "world_dir_name show_uuid w = show_uuid w"

definition blob_file_name :: "fingerprint \<Rightarrow> ustring" where
  "blob_file_name f = to_hex f @ blob_extension"

definition to_path_string :: "(uuid \<Rightarrow> ustring) \<Rightarrow> blob_path \<Rightarrow> ustring" where
  "to_path_string show_uuid p =
     U ''/'' @ bl_scope p @ U ''/'' @ world_dir_name show_uuid (bl_world p) @ U ''/'' @ blob_file_name (bl_fingerprint p)"

definition strip_suffix :: "ustring \<Rightarrow> ustring \<Rightarrow> ustring option" where
  "strip_suffix suffix s =
     (if length suffix \<le> length s \<and> drop (length s - length suffix) s = suffix
      then Some (take (length s - length suffix) s) else None)"

definition fingerprint_from_file_name :: "ustring \<Rightarrow> path_error + fingerprint" where
  "fingerprint_from_file_name name =
     (case strip_suffix blob_extension name of
        None \<Rightarrow> Inl NotABlobName
      | Some hex \<Rightarrow> (case from_hex hex of Inl _ \<Rightarrow> Inl NotABlobName | Inr f \<Rightarrow> Inr f))"

lemma strip_suffix_append [simp]: "strip_suffix suffix (s @ suffix) = Some s"
  by (simp add: strip_suffix_def)

lemma strip_suffix_Some:
  assumes "strip_suffix suffix s = Some t"
  shows "s = t @ suffix"
proof -
  obtain n where n: "n = length s - length suffix" by simp
  have "drop n s = suffix \<and> t = take n s"
    using assms unfolding strip_suffix_def n [symmetric] by (cases "length suffix \<le> length s \<and> drop n s = suffix") simp_all
  then show ?thesis using append_take_drop_id [of n s] by simp
qed

lemma to_hex_inj: "to_hex f = to_hex g \<Longrightarrow> f = g"
  by (metis hex_bytes_to_hex sum.inject(2))

lemma blob_file_name_inj [simp]: "blob_file_name f = blob_file_name g \<longleftrightarrow> f = g"
  using to_hex_inj by (auto simp: blob_file_name_def)

lemma name_read:
  "fingerprint_from_file_name name = Inr f \<longleftrightarrow> name = blob_file_name f \<and> length f = 32"
proof
  assume name: "fingerprint_from_file_name name = Inr f"
  then obtain hex where hex: "strip_suffix blob_extension name = Some hex" "from_hex hex = Inr f"
    by (auto simp: fingerprint_from_file_name_def split: option.splits sum.splits)
  then show "name = blob_file_name f \<and> length f = 32"
    using strip_suffix_Some [OF hex(1)] hex_round_trip [of f hex] by (simp add: blob_file_name_def)
next
  assume "name = blob_file_name f \<and> length f = 32"
  then show "fingerprint_from_file_name name = Inr f"
    using hex_round_trip [of f] by (simp add: fingerprint_from_file_name_def blob_file_name_def)
qed

text \<open>A stored file's name says what it holds: the name of a fingerprint reads back as it, and no other name
  is read as a fingerprint.\<close>

theorem file_name_round_trip:
  "fingerprint_from_file_name name = Inr f \<longleftrightarrow> name = blob_file_name f \<and> length f = 32"
  by (rule name_read)

section \<open>What a size says\<close>

definition min_blob_len :: nat where "min_blob_len = 1"

datatype blob_shape = Absent | Incomplete | Complete

fun shape_of :: "nat option \<Rightarrow> blob_shape" where
  "shape_of None = Absent"
| "shape_of (Some len) = (if len < min_blob_len then Incomplete else Complete)"

definition is_readable :: "blob_shape \<Rightarrow> bool" where "is_readable s \<longleftrightarrow> s = Complete"
definition is_reclaimable :: "blob_shape \<Rightarrow> bool" where "is_reclaimable s \<longleftrightarrow> s = Complete"

datatype store_error = Unsupported ustring | Backend ustring | Path path_error

section \<open>The trait\<close>

record 's blob_ops =
  bo_write :: "uuid \<Rightarrow> fingerprint \<Rightarrow> u8 list \<Rightarrow> 's \<Rightarrow> (store_error + unit) \<times> 's"
  bo_read :: "uuid \<Rightarrow> fingerprint \<Rightarrow> 's \<Rightarrow> store_error + u8 list option"
  bo_shape :: "uuid \<Rightarrow> fingerprint \<Rightarrow> 's \<Rightarrow> store_error + blob_shape"
  bo_remove :: "uuid \<Rightarrow> fingerprint \<Rightarrow> 's \<Rightarrow> (store_error + unit) \<times> 's"
  bo_list :: "uuid \<Rightarrow> 's \<Rightarrow> store_error + fingerprint list"
  bo_remove_world :: "uuid \<Rightarrow> 's \<Rightarrow> (store_error + unit) \<times> 's"
  bo_remove_scope :: "'s \<Rightarrow> (store_error + unit) \<times> 's"

text \<open>What the trait promises, of a store whose files are \<open>files s w f\<close>. A call that fails touches nothing but
  the file it names, and a write that fails may leave that file empty where there was none.\<close>

type_synonym files = "uuid \<Rightarrow> fingerprint \<Rightarrow> u8 list option"

definition put_file :: "files \<Rightarrow> uuid \<Rightarrow> fingerprint \<Rightarrow> u8 list option \<Rightarrow> files" where
  "put_file fs w f b = (\<lambda>v g. if v = w \<and> g = f then b else fs v g)"

definition whole :: "files \<Rightarrow> uuid \<Rightarrow> fingerprint \<Rightarrow> bool" where
  "whole fs w f \<longleftrightarrow> is_readable (shape_of (map_option length (fs w f)))"

locale blob_store =
  fixes ops :: "'s blob_ops"
    and files :: "'s \<Rightarrow> files"
  assumes write_done: "bo_write ops w f b s = (Inr (), t) \<Longrightarrow> files t = put_file (files s) w f (Some b)"
    and write_failed: "bo_write ops w f b s = (Inl e, t) \<Longrightarrow>
      files t = files s \<or> files s w f = None \<and> files t = put_file (files s) w f (Some [])"
    and read_done: "bo_read ops w f s = Inr r \<Longrightarrow> r = (if whole (files s) w f then files s w f else None)"
    and shape_done: "bo_shape ops w f s = Inr sh \<Longrightarrow> sh = shape_of (map_option length (files s w f))"
    and remove_done: "bo_remove ops w f s = (Inr (), t) \<Longrightarrow> files t = put_file (files s) w f None"
    and remove_failed: "bo_remove ops w f s = (Inl e, t) \<Longrightarrow> files t = files s"
    and list_done: "bo_list ops w s = Inr fs \<Longrightarrow> set fs = {f. length f = 32 \<and> files s w f \<noteq> None}"
    and remove_world_done: "bo_remove_world ops w s = (Inr (), t) \<Longrightarrow> files t = (files s)(w := (\<lambda>f. None))"
    and remove_world_failed: "bo_remove_world ops w s = (Inl e, t) \<Longrightarrow> v \<noteq> w \<Longrightarrow> files t v = files s v"
    and remove_scope_done: "bo_remove_scope ops s = (Inr (), t) \<Longrightarrow> files t = (\<lambda>w f. None)"
begin

lemma remove_elsewhere:
  assumes "bo_remove ops w f s = (r, t)" and "v \<noteq> w \<or> g \<noteq> f"
  shows "files t v g = files s v g"
proof (cases r)
  case (Inl e)
  then show ?thesis using remove_failed assms(1) by simp
next
  case (Inr u)
  then show ?thesis using remove_done [of w f s t] assms by (auto simp: put_file_def)
qed

lemma read_whole: "bo_read ops w f s = Inr (Some b) \<Longrightarrow> files s w f = Some b \<and> whole (files s) w f"
  using read_done [of w f s "Some b"] by (auto split: if_splits)

end

section \<open>The store in memory\<close>

type_synonym memory = "((uuid \<times> ustring) \<times> u8 list) list"

definition memory_key :: "uuid \<Rightarrow> fingerprint \<Rightarrow> uuid \<times> ustring" where
  "memory_key w f = (w, blob_file_name f)"

definition memory_raw :: "memory \<Rightarrow> uuid \<Rightarrow> fingerprint \<Rightarrow> u8 list option" where
  "memory_raw m w f = map_of m (memory_key w f)"

text \<open>\<open>during\<close> is what another tab does between the creation of the file and the commit of its bytes.\<close>

definition write_interleaved :: "uuid \<Rightarrow> fingerprint \<Rightarrow> u8 list \<Rightarrow> (memory \<Rightarrow> memory) \<Rightarrow> memory \<Rightarrow> (store_error + unit) \<times> memory" where
  "write_interleaved w f sealed during m =
     (let m1 = bt_insert (memory_key w f) [] m; m2 = during m1 in (Inr (), bt_insert (memory_key w f) sealed m2))"

definition memory_read :: "uuid \<Rightarrow> fingerprint \<Rightarrow> memory \<Rightarrow> store_error + u8 list option" where
  "memory_read w f m =
     (let b = memory_raw m w f in
      if \<not> is_readable (shape_of (map_option length b)) then Inr None else Inr b)"

definition memory_shape :: "uuid \<Rightarrow> fingerprint \<Rightarrow> memory \<Rightarrow> store_error + blob_shape" where
  "memory_shape w f m = Inr (shape_of (map_option length (map_of m (memory_key w f))))"

definition memory_remove :: "uuid \<Rightarrow> fingerprint \<Rightarrow> memory \<Rightarrow> (store_error + unit) \<times> memory" where
  "memory_remove w f m = (Inr (), bt_remove (memory_key w f) m)"

definition memory_list :: "uuid \<Rightarrow> memory \<Rightarrow> store_error + fingerprint list" where
  "memory_list w m =
     Inr (concat (map (\<lambda>(k, b). case fingerprint_from_file_name (snd k) of Inl _ \<Rightarrow> [] | Inr f \<Rightarrow> [f])
       (filter (\<lambda>(k, b). fst k = w) m)))"

definition memory_remove_world :: "uuid \<Rightarrow> memory \<Rightarrow> (store_error + unit) \<times> memory" where
  "memory_remove_world w m = (Inr (), filter (\<lambda>(k, b). fst k \<noteq> w) m)"

definition memory_ops :: "memory blob_ops" where
  "memory_ops = \<lparr>bo_write = (\<lambda>w f b. write_interleaved w f b (\<lambda>m. m)), bo_read = memory_read, bo_shape = memory_shape,
     bo_remove = memory_remove, bo_list = memory_list, bo_remove_world = memory_remove_world,
     bo_remove_scope = (\<lambda>m. (Inr (), []))\<rparr>"


lemma map_of_bt_insert: "map_of (bt_insert k v m) = (map_of m)(k \<mapsto> v)"
  by (induction k v m rule: bt_insert.induct) (auto simp: fun_eq_iff)

lemma memory_raw_insert: "memory_raw (bt_insert (memory_key w f) b m) = put_file (memory_raw m) w f (Some b)"
  by (auto simp: memory_raw_def put_file_def memory_key_def map_of_bt_insert fun_eq_iff)

lemma map_of_filter_key: "map_of (filter (\<lambda>(k, b). P k) m) k = (if P k then map_of m k else None)"
  by (induction m) auto

lemma memory_listed: "memory_list w m = Inr fs \<Longrightarrow> set fs = {f. length f = 32 \<and> memory_raw m w f \<noteq> None}"
proof -
  assume "memory_list w m = Inr fs"
  then have fs: "fs = concat (map (\<lambda>(k, b). case fingerprint_from_file_name (snd k) of Inl _ \<Rightarrow> [] | Inr f \<Rightarrow> [f])
       (filter (\<lambda>(k, b). fst k = w) m))" by (simp add: memory_list_def)
  have "f \<in> set fs \<longleftrightarrow> (\<exists>name b. ((w, name), b) \<in> set m \<and> fingerprint_from_file_name name = Inr f)" for f
    unfolding fs by (force split: sum.splits)
  also have "\<dots> f \<longleftrightarrow> length f = 32 \<and> (\<exists>b. ((w, blob_file_name f), b) \<in> set m)" for f
    unfolding name_read by blast
  also have "\<dots> f \<longleftrightarrow> length f = 32 \<and> memory_raw m w f \<noteq> None" for f
    unfolding memory_raw_def memory_key_def map_of_eq_None_iff by force
  finally show ?thesis by blast
qed

interpretation memory_blobs: blob_store memory_ops memory_raw
proof unfold_locales
  fix w f b s t r
  show "bo_write memory_ops w f b s = (Inr (), t) \<Longrightarrow> memory_raw t = put_file (memory_raw s) w f (Some b)"
    by (auto simp: memory_ops_def write_interleaved_def Let_def memory_raw_insert put_file_def fun_eq_iff)
  show "bo_read memory_ops w f s = Inr r \<Longrightarrow> r = (if whole (memory_raw s) w f then memory_raw s w f else None)"
    by (auto simp: memory_ops_def memory_read_def whole_def Let_def split: if_splits)
  show "bo_remove memory_ops w f s = (Inr (), t) \<Longrightarrow> memory_raw t = put_file (memory_raw s) w f None"
    by (auto simp: memory_ops_def memory_remove_def map_of_bt_remove memory_raw_def memory_key_def put_file_def fun_eq_iff)
  show "bo_remove_world memory_ops w s = (Inr (), t) \<Longrightarrow> memory_raw t = (memory_raw s)(w := (\<lambda>f. None))"
    by (auto simp: memory_ops_def memory_remove_world_def memory_raw_def memory_key_def map_of_filter_key fun_eq_iff)
  show "bo_remove_scope memory_ops s = (Inr (), t) \<Longrightarrow> memory_raw t = (\<lambda>w f. None)"
    by (auto simp: memory_ops_def memory_raw_def fun_eq_iff)
qed (auto simp: memory_ops_def memory_listed memory_shape_def memory_raw_def write_interleaved_def memory_remove_def
  memory_remove_world_def Let_def)

section \<open>Room\<close>

record estimate =
  es_usage :: u64
  es_quota :: u64

definition remaining :: "estimate \<Rightarrow> u64" where
  "remaining e = (if es_quota e < es_usage e then 0 else es_quota e - es_usage e)"

definition can_probably_fit :: "estimate \<Rightarrow> u64 \<Rightarrow> bool" where
  "can_probably_fit e bytes \<longleftrightarrow> bytes \<le> remaining e"


datatype pressure = Comfortable | Tight | Critical

definition tight_at :: f64 where "tight_at = rnd binary64 (8 / 10)"
definition critical_at :: f64 where "critical_at = rnd binary64 (95 / 100)"

definition f_clamp :: "f64 \<Rightarrow> f64 \<Rightarrow> f64 \<Rightarrow> f64" where
  "f_clamp lo hi x = (let x' = (if flt x lo then lo else x) in if flt hi x' then hi else x')"

definition fraction_used :: "estimate \<Rightarrow> f64" where
  "fraction_used e =
     (if es_quota e = 0 then Fin 1
      else f_clamp (Fin 0) (Fin 1) (fdiv binary64 (f64_of_int (uint (es_usage e))) (f64_of_int (uint (es_quota e)))))"

definition pressure :: "estimate \<Rightarrow> pressure" where
  "pressure e =
     (let used = fraction_used e in
      if fle critical_at used then Critical else if fle tight_at used then Tight else Comfortable)"

lemma fits_iff: "can_probably_fit e bytes \<longleftrightarrow> bytes = 0 \<or> unat (es_usage e) + unat bytes \<le> unat (es_quota e)"
proof (cases "es_quota e < es_usage e")
  case True
  then show ?thesis by (auto simp: can_probably_fit_def remaining_def word_less_nat_alt)
next
  case False
  then have "unat (es_quota e - es_usage e) = unat (es_quota e) - unat (es_usage e)" by (simp add: unat_sub_if' word_less_nat_alt)
  then show ?thesis using False by (auto simp: can_probably_fit_def remaining_def word_le_nat_alt word_less_nat_alt)
qed

section \<open>Paths\<close>

lemma split_at: "x @ c # r = y @ c # t \<Longrightarrow> c \<notin> set x \<Longrightarrow> c \<notin> set y \<Longrightarrow> x = y \<and> r = t"
  by (induction x arbitrary: y) (case_tac y; auto)+

lemma scope_accepted: "scope_new a = Inr s \<longleftrightarrow> s = a \<and> a \<noteq> [] \<and> length (utf8 a) \<le> 64 \<and> (\<forall>c \<in> set a. scope_char c)"
proof (cases "find (\<lambda>c. \<not> scope_char c) a")
  case None
  then have "\<forall>c \<in> set a. scope_char c" by (simp add: find_None_iff)
  then show ?thesis using None by (auto simp: scope_new_def max_scope_len_def)
next
  case (Some bad)
  then have "bad \<in> set a" "\<not> scope_char bad" by (auto simp: find_Some_iff)
  then show ?thesis using Some by (auto simp: scope_new_def)
qed

lemma hex_scope_char: "c \<in> set (to_hex f) \<Longrightarrow> scope_char c"
proof (induction f)
  case (Cons b f)
  have "scope_char (hex_digit n)" if "n < 16" for n using that by (auto simp: scope_char_def hex_digit_def)
  then show ?case using Cons high_nibble [of b] by (auto simp: to_hex_def)
qed (simp add: to_hex_def)

lemma length_to_hex: "length (to_hex f) = 2 * length f"
  by (induction f) (simp_all add: to_hex_def)

lemma utf8_ascii_length: "\<forall>c \<in> set s. c < 128 \<Longrightarrow> length (utf8 s) = length s"
  by (induction s) (simp_all add: utf8_def utf8_char_def)

text \<open>The directory of a signed-in user is one that would be accepted.\<close>

lemma scope_for_user_ok:
  assumes "length (sha (be_bytes 16 (unat user))) = 32"
  shows "scope_new (scope_for_user sha user) = Inr (scope_for_user sha user)"
proof -
  let ?s = "scope_for_user sha user"
  have c: "scope_char c" if "c \<in> set ?s" for c
    using that hex_scope_char by (auto simp: scope_for_user_def of_bytes_def dest: in_set_takeD)
  then have "c < 128" if "c \<in> set ?s" for c using that by (fastforce simp: scope_char_def)
  moreover have "length ?s = 32" using assms by (simp add: scope_for_user_def of_bytes_def length_to_hex)
  ultimately show ?thesis using c utf8_ascii_length [of ?s] unfolding scope_accepted by auto
qed

text \<open>No two users, worlds or contents share a file, and no accepted scope leads out of its directory: in the
  text of a path the scope, the world and the file name are its three segments.\<close>

theorem paths_keep_apart:
  assumes "\<forall>u. 47 \<notin> set (show_uuid u)" and "inj show_uuid"
    and "scope_new a = Inr (bl_scope p)" and "scope_new b = Inr (bl_scope q)"
  shows "(to_path_string show_uuid p = to_path_string show_uuid q \<longleftrightarrow> p = q) \<and>
    bl_scope p \<noteq> [] \<and> 46 \<notin> set (bl_scope p) \<and> 47 \<notin> set (bl_scope p)"
proof -
  have scope: "bl_scope r \<noteq> [] \<and> 46 \<notin> set (bl_scope r) \<and> 47 \<notin> set (bl_scope r)" if "scope_new c = Inr (bl_scope r)" for c r
    using that unfolding scope_accepted by (auto simp: scope_char_def)
  have "p = q" if eq: "to_path_string show_uuid p = to_path_string show_uuid q"
  proof -
    have "bl_scope p @ 47 # (show_uuid (bl_world p) @ 47 # blob_file_name (bl_fingerprint p)) =
        bl_scope q @ 47 # (show_uuid (bl_world q) @ 47 # blob_file_name (bl_fingerprint q))"
      using eq by (simp add: to_path_string_def world_dir_name_def)
    from split_at [OF this] scope [OF assms(3)] scope [OF assms(4)]
    have s: "bl_scope p = bl_scope q" and
      r: "show_uuid (bl_world p) @ 47 # blob_file_name (bl_fingerprint p) = show_uuid (bl_world q) @ 47 # blob_file_name (bl_fingerprint q)"
      by blast+
    from split_at [OF r] assms(1) have "show_uuid (bl_world p) = show_uuid (bl_world q)" "bl_fingerprint p = bl_fingerprint q"
      by simp_all
    then show ?thesis using s assms(2) by (cases p; cases q) (simp add: inj_eq)
  qed
  then show ?thesis using scope [OF assms(3)] by blast
qed

lemma paths_keep_apart_witness:
  "to_path_string (\<lambda>u. nat_digits (unat u)) \<lparr>bl_scope = U ''ab'', bl_world = 1, bl_fingerprint = []\<rparr> \<noteq>
   to_path_string (\<lambda>u. nat_digits (unat u)) \<lparr>bl_scope = U ''a'', bl_world = 1, bl_fingerprint = []\<rparr>"
proof -
  have digits: "47 \<notin> set (nat_digits n)" for n using nat_digits_digit [of n] by (auto simp: is_digit_def)
  have "inj (\<lambda>u :: uuid. nat_digits (unat u))"
    by (rule injI) (metis dec_val_digits word_unat_eq_iff)
  from paths_keep_apart [OF _ this, of "U ''ab''" "\<lparr>bl_scope = U ''ab'', bl_world = 1, bl_fingerprint = []\<rparr>" "U ''a''"
      "\<lparr>bl_scope = U ''a'', bl_world = 1, bl_fingerprint = []\<rparr>"] digits
  show ?thesis by (simp add: scope_accepted scope_char_def utf8_def utf8_char_def)
qed

end
