(* ===== verification/Cache_Sync.thy ===== *)
theory Cache_Sync
  imports Cache_Items "HOL-Library.Product_Lexorder"
begin

text \<open>
  Deciding what a client must fetch and discard, who wins when two disconnected clients changed the
  same thing, and the rules of queued changes (crates/thunderforge-cache-core/src: delta.rs,
  conflict.rs, queue.rs).
\<close>

section \<open>The sync plan\<close>

record plan_item =
  pi_id :: item_id
  pi_fingerprint :: fingerprint
  pi_size :: u64

record sync_plan =
  sp_fetch :: "plan_item list"
  sp_evict :: "item_id list"

record current_item =
  ci_fingerprint :: "fingerprint option"
  ci_size :: u64

definition held_by_id :: "held_item list \<Rightarrow> (item_id \<times> fingerprint) list" where
  "held_by_id held = bt_collect (map (\<lambda>h. (hi_id h, hi_fingerprint h)) held)"

definition fetch_item ::
    "(u8 list \<Rightarrow> u8 list) \<Rightarrow> (item_id \<times> fingerprint) list \<Rightarrow> item_id \<times> current_item \<Rightarrow> plan_item option" where
  "fetch_item sha held p =
     (case p of (i, c) \<Rightarrow>
      case ci_fingerprint c of
        None \<Rightarrow> Some \<lparr>pi_id = i, pi_fingerprint = of_bytes sha [], pi_size = ci_size c\<rparr>
      | Some server_fp \<Rightarrow>
          (if map_of held i = Some server_fp then None
           else Some \<lparr>pi_id = i, pi_fingerprint = server_fp, pi_size = ci_size c\<rparr>))"

definition compute_plan ::
    "(u8 list \<Rightarrow> u8 list) \<Rightarrow> held_item list \<Rightarrow> (item_id \<times> current_item) list \<Rightarrow> sync_plan" where
  "compute_plan sha held current =
     (let have = held_by_id held in
      \<lparr>sp_fetch = List.map_filter (fetch_item sha have) current,
       sp_evict = filter (\<lambda>i. map_of current i = None) (map fst have)\<rparr>)"

text \<open>The fingerprint a plan names for an item it asks for.\<close>

definition promised :: "(u8 list \<Rightarrow> u8 list) \<Rightarrow> current_item \<Rightarrow> fingerprint" where
  "promised sha c = (case ci_fingerprint c of None \<Rightarrow> of_bytes sha [] | Some f \<Rightarrow> f)"

lemma held_ok [simp]: "bt_ok (held_by_id held)"
  by (simp add: held_by_id_def)

lemma fetch_item_cases:
  "fetch_item sha have (i, c) = Some p \<longleftrightarrow>
     p = \<lparr>pi_id = i, pi_fingerprint = promised sha c, pi_size = ci_size c\<rparr> \<and>
     (ci_fingerprint c = None \<or> map_of have i \<noteq> ci_fingerprint c)"
  by (auto simp: fetch_item_def promised_def split: option.split)

lemma in_map_filter: "y \<in> set (List.map_filter f xs) \<longleftrightarrow> (\<exists>x \<in> set xs. f x = Some y)"
  by (induction xs) (auto simp: map_filter_simps split: option.split)

lemma plan_fetches:
  "p \<in> set (sp_fetch (compute_plan sha held current)) \<longleftrightarrow>
     (\<exists>i c. (i, c) \<in> set current \<and> p = \<lparr>pi_id = i, pi_fingerprint = promised sha c, pi_size = ci_size c\<rparr> \<and>
       (ci_fingerprint c = None \<or> map_of (held_by_id held) i \<noteq> ci_fingerprint c))"
proof -
  have "p \<in> set (sp_fetch (compute_plan sha held current)) \<longleftrightarrow>
      (\<exists>i c. (i, c) \<in> set current \<and> fetch_item sha (held_by_id held) (i, c) = Some p)"
    by (auto simp: compute_plan_def Let_def in_map_filter)
  then show ?thesis by (simp only: fetch_item_cases)
qed

lemma plan_evicts:
  "i \<in> set (sp_evict (compute_plan sha held current)) \<longleftrightarrow>
     map_of (held_by_id held) i \<noteq> None \<and> map_of current i = None"
  by (auto simp: compute_plan_def Let_def map_of_eq_None_iff)

section \<open>Conflicts\<close>

datatype conflict_role = CGameMaster | CPlayer

datatype winner = WinnerA | WinnerB

record contender =
  co_role :: conflict_role
  co_seq :: u64

definition resolve_conflict :: "contender \<Rightarrow> contender \<Rightarrow> winner" where
  "resolve_conflict a b =
     (case (co_role a, co_role b) of
        (CGameMaster, CPlayer) \<Rightarrow> WinnerA
      | (CPlayer, CGameMaster) \<Rightarrow> WinnerB
      | _ \<Rightarrow> if co_seq a \<le> co_seq b then WinnerA else WinnerB)"

text \<open>The order of standing: Game Masters first, then whoever reconnected first.\<close>

definition rank_of :: "contender \<Rightarrow> nat \<times> u64" where
  "rank_of c = ((case co_role c of CGameMaster \<Rightarrow> 0 | CPlayer \<Rightarrow> 1), co_seq c)"

text \<open>A conflict is decided by one total order of standing, so any number of conflicting changes has
  one winner and deciding them in any order agrees; only two contenders of the same role with the
  same sequence number are decided by who is named first, which the server's numbering excludes.\<close>

theorem conflict_follows_standing:
  "(resolve_conflict a b = WinnerA \<longleftrightarrow> rank_of a \<le> rank_of b) \<and>
   (resolve_conflict a b = WinnerA \<and> resolve_conflict b a = WinnerA \<longleftrightarrow>
      co_role a = co_role b \<and> co_seq a = co_seq b)"
  by (cases "co_role a"; cases "co_role b") (auto simp: resolve_conflict_def rank_of_def)

section \<open>The outbox\<close>

record queued_change =
  qc_local :: uuid
  qc_world :: uuid
  qc_command :: ustring
  qc_seq :: u64
  qc_role_hint :: conflict_role

datatype rejection_reason = PermissionDenied | Superseded | GoneAway | Invalid | PlayPaused | NotYourTurn

record reconcile_outcome =
  ro_local :: uuid
  ro_applied :: bool
  ro_reason :: "rejection_reason option"

datatype unresolved_change = UnresolvedChange queued_change

definition enqueue :: "queued_change list \<Rightarrow> queued_change \<Rightarrow> queued_change list" where
  "enqueue outbox change = outbox @ [change]"

definition replay_order :: "queued_change list \<Rightarrow> queued_change list" where
  "replay_order outbox = sort_key (\<lambda>c. (qc_world c, qc_seq c)) outbox"

definition apply_outcomes ::
    "queued_change list \<Rightarrow> reconcile_outcome list \<Rightarrow> unresolved_change list \<times> queued_change list" where
  "apply_outcomes outbox outcomes =
     (let resolved = map ro_local outcomes;
          pending = filter (\<lambda>c. qc_local c \<notin> set resolved) outbox in
      (map UnresolvedChange pending, pending))"

lemma insort_within_world:
  "\<forall>c \<in> insert x (set ys). qc_world c = w \<Longrightarrow>
     insort_key (\<lambda>c. (qc_world c, qc_seq c)) x ys = insort_key qc_seq x ys"
  by (induction ys) simp_all

lemma sort_within_world:
  "\<forall>c \<in> set xs. qc_world c = w \<Longrightarrow> sort_key (\<lambda>c. (qc_world c, qc_seq c)) xs = sort_key qc_seq xs"
  by (induction xs) (simp_all add: insort_within_world [where w = w])

text \<open>Replay keeps every change once and never reorders a person's own edits: worlds come one after
  another, and the changes of one world come in the order of their sequence numbers, which for changes
  enqueued with rising numbers is the order they were made in.\<close>

theorem replay_keeps_edit_order:
  "mset (replay_order outbox) = mset outbox \<and> sorted (map qc_world (replay_order outbox)) \<and>
   filter (\<lambda>c. qc_world c = w) (replay_order outbox) = sort_key qc_seq (filter (\<lambda>c. qc_world c = w) outbox) \<and>
   (sorted (map qc_seq (filter (\<lambda>c. qc_world c = w) outbox)) \<longrightarrow>
      filter (\<lambda>c. qc_world c = w) (replay_order outbox) = filter (\<lambda>c. qc_world c = w) outbox)"
proof -
  let ?k = "\<lambda>c. (qc_world c, qc_seq c)" and ?P = "\<lambda>c. qc_world c = w"
  have "sort_key ?k (filter ?P outbox) = sort_key qc_seq (filter ?P outbox)"
    by (rule sort_within_world [where w = w]) simp
  then have f: "filter ?P (replay_order outbox) = sort_key qc_seq (filter ?P outbox)"
    by (simp add: replay_order_def filter_sort)
  moreover have "sorted (map qc_world (replay_order outbox))"
  proof -
    have "sorted (map fst ps)" if "sorted ps" for ps :: "(uuid \<times> u64) list"
      using that by (induction ps) (auto simp: less_eq_prod_def)
    from this [of "map ?k (replay_order outbox)"] show ?thesis
      by (simp add: replay_order_def comp_def)
  qed
  ultimately show ?thesis by (simp add: replay_order_def sort_key_id_if_sorted)
qed

lemma replay_keeps_edit_order_witness:
  "filter (\<lambda>c. qc_world c = 1) (replay_order
      [\<lparr>qc_local = 10, qc_world = 2, qc_command = [], qc_seq = 1, qc_role_hint = CPlayer\<rparr>,
       \<lparr>qc_local = 11, qc_world = 1, qc_command = [], qc_seq = 2, qc_role_hint = CPlayer\<rparr>,
       \<lparr>qc_local = 12, qc_world = 1, qc_command = [], qc_seq = 3, qc_role_hint = CPlayer\<rparr>])
    = [\<lparr>qc_local = 11, qc_world = 1, qc_command = [], qc_seq = 2, qc_role_hint = CPlayer\<rparr>,
       \<lparr>qc_local = 12, qc_world = 1, qc_command = [], qc_seq = 3, qc_role_hint = CPlayer\<rparr>]"
  using replay_keeps_edit_order [where w = 1 and outbox =
      "[\<lparr>qc_local = 10, qc_world = 2, qc_command = [], qc_seq = 1, qc_role_hint = CPlayer\<rparr>,
        \<lparr>qc_local = 11, qc_world = 1, qc_command = [], qc_seq = 2, qc_role_hint = CPlayer\<rparr>,
        \<lparr>qc_local = 12, qc_world = 1, qc_command = [], qc_seq = 3, qc_role_hint = CPlayer\<rparr>]"]
  by simp

end
