(* ===== verification/Cache_Budget.thy ===== *)
theory Cache_Budget
  imports Cache_Items "HOL-Library.Product_Lexorder"
begin

text \<open>
  How much may be stored locally, and what goes when it is full
  (crates/thunderforge-cache-core/src/budget.rs). Byte counts are 64-bit words, whose sums wrap as
  they do in a release build; the properties assume the totals fit.
\<close>

section \<open>The planner\<close>

definition quota_share_denominator :: u64 where "quota_share_denominator = 2"
definition max_budget_bytes :: u64 where "max_budget_bytes = 20 * 1024 * 1024 * 1024"

record index_entry =
  ie_id :: item_id
  ie_world :: uuid
  ie_size :: u64
  ie_read :: u64

record budget_plan =
  bp_limit :: u64
  bp_in_use :: u64
  bp_evict :: "item_id list"
  bp_insufficient :: bool

definition limit_bytes :: "u64 \<Rightarrow> u64" where
  "limit_bytes quota = min (quota div quota_share_denominator) max_budget_bytes"

definition sat_sub :: "u64 \<Rightarrow> u64 \<Rightarrow> u64" where
  "sat_sub a b = (if a < b then 0 else a - b)"

text \<open>The worlds other than the open one, in the order first met, with their size and recency.\<close>

fun add_to_world :: "index_entry \<Rightarrow> (uuid \<times> u64 \<times> u64) list \<Rightarrow> (uuid \<times> u64 \<times> u64) list" where
  "add_to_world e [] = [(ie_world e, ie_size e, ie_read e)]"
| "add_to_world e ((w, sz, recency) # ws) =
     (if w = ie_world e then (w, sz + ie_size e, max recency (ie_read e)) # ws
      else (w, sz, recency) # add_to_world e ws)"

definition world_table :: "index_entry list \<Rightarrow> uuid \<Rightarrow> (uuid \<times> u64 \<times> u64) list" where
  "world_table index open_world =
     foldl (\<lambda>ws e. if ie_world e = open_world then ws else add_to_world e ws) [] index"

definition world_items :: "index_entry list \<Rightarrow> uuid \<Rightarrow> item_id list" where
  "world_items index w = sort (map ie_id (filter (\<lambda>e. ie_world e = w) index))"

fun release :: "index_entry list \<Rightarrow> (uuid \<times> u64 \<times> u64) list \<Rightarrow> u64 \<Rightarrow> item_id list \<Rightarrow> u64 \<times> item_id list" where
  "release index [] to_free evict = (to_free, evict)"
| "release index ((w, sz, _) # ws) to_free evict =
     (if to_free = 0 then (to_free, evict)
      else release index ws (sat_sub to_free sz) (evict @ world_items index w))"

definition plan_eviction :: "index_entry list \<Rightarrow> u64 \<Rightarrow> u64 \<Rightarrow> uuid \<Rightarrow> budget_plan" where
  "plan_eviction index limit incoming open_world =
     (let in_use = sum_list (map ie_size index);
          plan = \<lparr>bp_limit = limit, bp_in_use = in_use, bp_evict = [], bp_insufficient = False\<rparr> in
      if in_use + incoming \<le> limit then plan
      else
        let worlds = sort_key (\<lambda>(w, _, recency). (recency, w)) (world_table index open_world);
            (to_free, evict) = release index worlds (sat_sub (in_use + incoming) limit) [] in
        plan\<lparr>bp_evict := evict, bp_insufficient := (0 < to_free)\<rparr>)"

datatype speculation = Admit | Stop

definition admit_speculative :: "u64 \<Rightarrow> u64 \<Rightarrow> u64 \<Rightarrow> speculation" where
  "admit_speculative in_use limit incoming =
     (if unat in_use + unat incoming \<le> u64_max \<and> in_use + incoming \<le> limit then Admit else Stop)"

definition speculative_headroom :: "u64 \<Rightarrow> u64 \<Rightarrow> u64" where
  "speculative_headroom in_use limit = sat_sub limit in_use"

section \<open>The table of worlds\<close>

definition bytes :: "index_entry list \<Rightarrow> nat" where
  "bytes es = sum_list (map (unat \<circ> ie_size) es)"

definition of_world :: "index_entry list \<Rightarrow> uuid \<Rightarrow> index_entry list" where
  "of_world index w = filter (\<lambda>e. ie_world e = w) index"

definition world_size :: "index_entry list \<Rightarrow> uuid \<Rightarrow> u64" where
  "world_size index w = sum_list (map ie_size (of_world index w))"

text \<open>A world is as recent as its most recently read item.\<close>

definition recency :: "index_entry list \<Rightarrow> uuid \<Rightarrow> u64" where
  "recency index w = foldl max 0 (map ie_read (of_world index w))"

lemma bytes_simps [simp]: "bytes [] = 0" "bytes (e # es) = unat (ie_size e) + bytes es"
    "bytes (xs @ ys) = bytes xs + bytes ys"
  by (simp_all add: bytes_def)

lemma unat_add_small: "unat a + unat b \<le> u64_max \<Longrightarrow> unat (a + b) = unat a + unat b" for a b :: u64
  by (simp add: unat_word_ariths u64_max_def)

lemma unat_sum_sizes: "bytes es \<le> u64_max \<Longrightarrow> unat (sum_list (map ie_size es)) = bytes es"
  by (induction es) (simp_all add: unat_add_small)

lemma bytes_filter_le: "bytes (filter P es) \<le> bytes es"
  by (induction es) auto

lemma unat_sat_sub: "unat (sat_sub a b) = unat a - unat b"
  by (auto simp: sat_sub_def word_less_nat_alt unat_sub_if')

definition row :: "index_entry list \<Rightarrow> uuid \<Rightarrow> uuid \<times> u64 \<times> u64" where
  "row index w = (w, world_size index w, recency index w)"

lemma of_world_snoc: "of_world (index @ [e]) w = of_world index w @ (if ie_world e = w then [e] else [])"
  by (simp add: of_world_def)

lemma row_snoc:
  "row (index @ [e]) w = (if ie_world e = w
     then (w, world_size index w + ie_size e, max (recency index w) (ie_read e)) else row index w)"
  by (simp add: row_def world_size_def recency_def of_world_snoc)

lemma add_known_world:
  "distinct ws \<Longrightarrow> ie_world e \<in> set ws \<Longrightarrow> add_to_world e (map (row index) ws) = map (row (index @ [e])) ws"
proof (induction ws)
  case (Cons w ws)
  have "map (row (index @ [e])) ws = map (row index) ws" if "ie_world e \<notin> set ws"
    using that by (auto simp: row_snoc)
  with Cons show ?case by (cases "w = ie_world e") (auto simp: row_snoc, simp_all add: row_def)
qed simp

lemma add_new_world:
  "ie_world e \<notin> set ws \<Longrightarrow> of_world index (ie_world e) = [] \<Longrightarrow>
     add_to_world e (map (row index) ws) = map (row (index @ [e])) (ws @ [ie_world e])"
proof (induction ws)
  case Nil
  then show ?case by (simp add: row_def world_size_def recency_def of_world_snoc)
next
  case (Cons w ws)
  then show ?case by (auto simp: row_snoc) (simp add: row_def)
qed

lemma world_table_rows:
  "\<exists>ws. world_table index open_world = map (row index) ws \<and> distinct ws \<and>
     set ws = ie_world ` set index - {open_world}"
proof (induction index rule: rev_induct)
  case Nil
  then show ?case by (simp add: world_table_def)
next
  case (snoc e index)
  then obtain ws where ws: "world_table index open_world = map (row index) ws" "distinct ws"
    "set ws = ie_world ` set index - {open_world}" by blast
  have t: "world_table (index @ [e]) open_world =
      (if ie_world e = open_world then world_table index open_world
       else add_to_world e (world_table index open_world))"
    by (simp add: world_table_def)
  consider "ie_world e = open_world" | "ie_world e \<noteq> open_world" "ie_world e \<in> set ws"
    | "ie_world e \<noteq> open_world" "ie_world e \<notin> set ws" by blast
  then show ?case
  proof cases
    case 1
    then have "map (row (index @ [e])) ws = map (row index) ws" using ws(3) by (auto simp: row_snoc)
    with 1 t ws show ?thesis by (intro exI [of _ ws]) auto
  next
    case 2
    with t ws show ?thesis by (intro exI [of _ ws]) (auto simp: add_known_world)
  next
    case 3
    have "ie_world e' \<noteq> ie_world e" if "e' \<in> set index" for e'
      using that 3 ws(3) by (metis Diff_iff imageI singletonD)
    then have "of_world index (ie_world e) = []" by (simp add: of_world_def filter_empty_conv)
    with 3 t ws show ?thesis by (intro exI [of _ "ws @ [ie_world e]"]) (auto simp: add_new_world)
  qed
qed

section \<open>Releasing\<close>

text \<open>Releasing takes the worlds in turn until enough is free: a prefix, and the shortest that does.\<close>

lemma release_prefix:
  "\<exists>k \<le> length ws. snd (release index ws f ev) = ev @ concat (map (\<lambda>r. world_items index (fst r)) (take k ws)) \<and>
     unat (fst (release index ws f ev)) = unat f - sum_list (map (\<lambda>r. unat (fst (snd r))) (take k ws)) \<and>
     (k < length ws \<longrightarrow> fst (release index ws f ev) = 0) \<and>
     (0 < k \<longrightarrow> sum_list (map (\<lambda>r. unat (fst (snd r))) (take (k - 1) ws)) < unat f)"
proof (induction ws arbitrary: f ev)
  case (Cons r ws)
  obtain w sz rc where r: "r = (w, sz, rc)" by (cases r)
  show ?case
  proof (cases "f = 0")
    case True
    then show ?thesis by (intro exI [of _ 0]) (simp add: r)
  next
    case False
    obtain k where k: "k \<le> length ws"
      "snd (release index ws (sat_sub f sz) (ev @ world_items index w)) =
         (ev @ world_items index w) @ concat (map (\<lambda>r. world_items index (fst r)) (take k ws))"
      "unat (fst (release index ws (sat_sub f sz) (ev @ world_items index w))) =
         unat (sat_sub f sz) - sum_list (map (\<lambda>r. unat (fst (snd r))) (take k ws))"
      "k < length ws \<longrightarrow> fst (release index ws (sat_sub f sz) (ev @ world_items index w)) = 0"
      "0 < k \<longrightarrow> sum_list (map (\<lambda>r. unat (fst (snd r))) (take (k - 1) ws)) < unat (sat_sub f sz)"
      using Cons.IH by blast
    have f0: "0 < unat f" using False by (simp add: unat_eq_0 neq0_conv [symmetric])
    have "0 < Suc k \<longrightarrow> sum_list (map (\<lambda>r. unat (fst (snd r))) (take (Suc k - 1) (r # ws))) < unat f"
      using k(5) f0 by (cases k) (auto simp: r unat_sat_sub)
    then show ?thesis
      using k False by (intro exI [of _ "Suc k"]) (simp add: r unat_sat_sub)
  qed
qed simp

section \<open>What a plan does\<close>

lemma world_sizes_sum:
  assumes "distinct ws" and "bytes index \<le> u64_max"
  shows "sum_list (map (\<lambda>w. unat (world_size index w)) ws) = bytes (filter (\<lambda>e. ie_world e \<in> set ws) index)"
  using assms(1)
proof (induction ws)
  case (Cons w ws)
  have "bytes (of_world index w) \<le> u64_max"
    using bytes_filter_le [of "\<lambda>e. ie_world e = w" index] assms(2) by (simp add: of_world_def)
  then have "unat (world_size index w) = bytes (of_world index w)"
    unfolding world_size_def by (rule unat_sum_sizes)
  moreover have "bytes (filter (\<lambda>e. ie_world e \<in> set (w # ws)) index)
      = bytes (of_world index w) + bytes (filter (\<lambda>e. ie_world e \<in> set ws) index)"
    using Cons.prems by (induction index) (auto simp: of_world_def)
  ultimately show ?case using Cons by simp
qed (simp add: bytes_def)

lemma bytes_split: "bytes es = bytes (filter P es) + bytes (filter (\<lambda>e. \<not> P e) es)"
  by (induction es) auto

text \<open>The bytes that stay when the worlds \<open>gone\<close> are released.\<close>

definition kept_bytes :: "index_entry list \<Rightarrow> uuid set \<Rightarrow> nat" where
  "kept_bytes index gone = bytes (filter (\<lambda>e. ie_world e \<notin> gone) index)"

lemma sorted_rows:
  "sort_key (\<lambda>(w, _, r). (r, w)) (map (row index) ws) = map (row index) (sort_key (\<lambda>w. (recency index w, w)) ws)"
proof -
  have "map (row index) (insort_key (\<lambda>w. (recency index w, w)) x ys)
      = insort_key (\<lambda>(w, _, r). (r, w)) (row index x) (map (row index) ys)" for x ys
    by (induction ys) (simp_all add: row_def)
  then show ?thesis by (induction ws) simp_all
qed

text \<open>A plan that has to release: the worlds in order of recency, and the shortest prefix that helps.\<close>

lemma eviction_prefix:
  fixes open_world :: uuid
  assumes "bytes index + unat incoming \<le> u64_max" and "unat limit < bytes index + unat incoming"
  defines "p \<equiv> plan_eviction index limit incoming open_world"
    and "f \<equiv> bytes index + unat incoming - unat limit"
  obtains ws k where "distinct ws" "set ws = ie_world ` set index - {open_world}"
    "sorted (map (\<lambda>w. (recency index w, w)) ws)" "k \<le> length ws"
    "bp_evict p = concat (map (\<lambda>w. world_items index w) (take k ws))"
    "bp_insufficient p \<longleftrightarrow> bytes (filter (\<lambda>e. ie_world e \<in> set (take k ws)) index) < f"
    "k < length ws \<longrightarrow> \<not> bp_insufficient p"
    "0 < k \<longrightarrow> bytes (filter (\<lambda>e. ie_world e \<in> set (take (k - 1) ws)) index) < f"
proof -
  let ?use = "sum_list (map ie_size index)"
  have use: "unat (?use + incoming) = bytes index + unat incoming"
    using assms unat_sum_sizes [of index] by (subst unat_add_small) simp_all
  obtain ws0 where ws0: "world_table index open_world = map (row index) ws0" "distinct ws0"
    "set ws0 = ie_world ` set index - {open_world}" using world_table_rows by blast
  define ws where "ws = sort_key (\<lambda>w. (recency index w, w)) ws0"
  define g where "g = sat_sub (?use + incoming) limit"
  have g: "unat g = f" by (simp add: g_def f_def unat_sat_sub use)
  define rel where "rel = release index (map (row index) ws) g []"
  have "\<not> ?use + incoming \<le> limit" using assms(2) use by (simp add: word_le_nat_alt)
  then have p: "bp_evict p = snd rel" "bp_insufficient p \<longleftrightarrow> 0 < unat (fst rel)"
    by (simp_all add: p_def plan_eviction_def Let_def ws0(1) sorted_rows rel_def g_def ws_def case_prod_beta
      word_less_nat_alt)
  have sums: "sum_list (map (\<lambda>r. unat (fst (snd r))) (take k (map (row index) ws)))
      = bytes (filter (\<lambda>e. ie_world e \<in> set (take k ws)) index)" for k
    using world_sizes_sum [of "take k ws" index] ws0(2) assms(1)
    by (simp add: take_map row_def comp_def distinct_take ws_def)
  obtain k where k: "k \<le> length ws" "snd rel = concat (map (\<lambda>w. world_items index w) (take k ws))"
    "unat (fst rel) = unat g - bytes (filter (\<lambda>e. ie_world e \<in> set (take k ws)) index)"
    "k < length ws \<longrightarrow> fst rel = 0"
    "0 < k \<longrightarrow> bytes (filter (\<lambda>e. ie_world e \<in> set (take (k - 1) ws)) index) < unat g"
    using release_prefix [of "map (row index) ws" index g "[]"]
    unfolding sums rel_def [symmetric] by (auto simp: take_map row_def comp_def)
  show ?thesis
    using ws0 k p g by (intro that [of ws k]) (auto simp: ws_def)
qed

lemma kept_bytes_antimono: "v \<subseteq> w \<Longrightarrow> kept_bytes index w \<le> kept_bytes index v"
  by (induction index) (auto simp: kept_bytes_def)

text \<open>C16: a full cache releases whole worlds, least recently used first and worlds of one recency by their
  ids, and never the open one. The plan is the items of a list of worlds, world after world: the list is in
  that order, each world in it comes before every world that stays beside the open one, and no shorter part
  of it would have made room. What stays and what arrives fit the limit, or else everything but the open world has
  gone and the plan says it is insufficient. The bytes in use and those that arrive are taken to be countable
  in 64 bits.\<close>

theorem eviction_plan_sound:
  assumes "bytes index + unat incoming \<le> u64_max"
  shows "\<exists>gone. bp_evict (plan_eviction index limit incoming open_world) = concat (map (world_items index) gone) \<and>
    set (bp_evict (plan_eviction index limit incoming open_world)) = ie_id ` {e \<in> set index. ie_world e \<in> set gone} \<and>
    distinct gone \<and> set gone \<subseteq> ie_world ` set index - {open_world} \<and>
    sorted (map (\<lambda>w. (recency index w, w)) gone) \<and>
    (\<forall>w \<in> set gone. \<forall>v \<in> ie_world ` set index - {open_world} - set gone. (recency index w, w) \<le> (recency index v, v)) \<and>
    (if bp_insufficient (plan_eviction index limit incoming open_world)
     then set gone = ie_world ` set index - {open_world} \<and> unat limit < kept_bytes index (set gone) + unat incoming
     else kept_bytes index (set gone) + unat incoming \<le> unat limit) \<and>
    (\<forall>n < length gone. unat limit < kept_bytes index (set (take n gone)) + unat incoming)"
proof (cases "bytes index + unat incoming \<le> unat limit")
  case True
  then have "sum_list (map ie_size index) + incoming \<le> limit"
    using assms unat_sum_sizes [of index] by (simp add: word_le_nat_alt unat_add_small)
  then show ?thesis
    using True by (intro exI [of _ "[]"]) (simp add: plan_eviction_def Let_def kept_bytes_def)
next
  case False
  then have less: "unat limit < bytes index + unat incoming" by simp
  let ?p = "plan_eviction index limit incoming open_world"
  obtain ws k where ws: "distinct ws" "set ws = ie_world ` set index - {open_world}"
    "sorted (map (\<lambda>w. (recency index w, w)) ws)" and k: "k \<le> length ws"
    and ev: "bp_evict ?p = concat (map (\<lambda>w. world_items index w) (take k ws))"
    and ins: "bp_insufficient ?p \<longleftrightarrow> bytes (filter (\<lambda>e. ie_world e \<in> set (take k ws)) index)
        < bytes index + unat incoming - unat limit" "k < length ws \<longrightarrow> \<not> bp_insufficient ?p"
    and short: "0 < k \<longrightarrow> bytes (filter (\<lambda>e. ie_world e \<in> set (take (k - 1) ws)) index)
        < bytes index + unat incoming - unat limit"
    by (rule eviction_prefix [OF assms less, of open_world])
  have kept: "bytes index = bytes (filter (\<lambda>e. ie_world e \<in> g) index) + kept_bytes index g" for g
    unfolding kept_bytes_def by (rule bytes_split)
  have order: "sorted (map (\<lambda>w. (recency index w, w)) (take k ws @ drop k ws))" using ws(3) by simp
  have before: "(recency index w, w) \<le> (recency index v, v)"
    if "w \<in> set (take k ws)" "v \<in> ie_world ` set index - {open_world} - set (take k ws)" for w v
  proof -
    have "v \<in> set (drop k ws)" using that(2) ws(2) by (metis Diff_iff Un_iff append_take_drop_id set_append)
    then show ?thesis using that(1) order unfolding map_append sorted_append by simp
  qed
  have fewer: "unat limit < kept_bytes index (set (take n (take k ws))) + unat incoming" if "n < length (take k ws)" for n
  proof -
    have nk: "n < k" using that by simp
    then have "n \<le> k - 1" "0 < k" by linarith+
    then have "kept_bytes index (set (take (k - 1) ws)) \<le> kept_bytes index (set (take n (take k ws)))"
      by (intro kept_bytes_antimono) (simp add: set_take_subset_set_take)
    then show ?thesis using short kept [of "set (take (k - 1) ws)"] \<open>0 < k\<close> by linarith
  qed
  have sorted: "sorted (map (\<lambda>w. (recency index w, w)) (take k ws))" using order unfolding map_append sorted_append by blast
  have "k = length ws \<Longrightarrow> set (take k ws) = ie_world ` set index - {open_world}" using ws(2) by simp
  then have room: "if bp_insufficient ?p
     then set (take k ws) = ie_world ` set index - {open_world} \<and> unat limit < kept_bytes index (set (take k ws)) + unat incoming
     else kept_bytes index (set (take k ws)) + unat incoming \<le> unat limit"
    using kept [of "set (take k ws)"] ins k by auto
  have ids: "set (bp_evict ?p) = ie_id ` {e \<in> set index. ie_world e \<in> set (take k ws)}" by (auto simp: ev world_items_def)
  have "set (take k ws) \<subseteq> ie_world ` set index - {open_world}" using set_take_subset [of k ws] ws(2) by simp
  then have "distinct (take k ws) \<and> set (take k ws) \<subseteq> ie_world ` set index - {open_world}" using ws(1) by simp
  moreover have "\<forall>w \<in> set (take k ws). \<forall>v \<in> ie_world ` set index - {open_world} - set (take k ws).
      (recency index w, w) \<le> (recency index v, v)" using before by blast
  moreover have "\<forall>n < length (take k ws). unat limit < kept_bytes index (set (take n (take k ws))) + unat incoming"
    using fewer by blast
  ultimately show ?thesis using ev ids sorted room by blast
qed

definition small_index :: "index_entry list" where
  "small_index = [\<lparr>ie_id = CanvasAsset 1, ie_world = 7, ie_size = 60, ie_read = 4\<rparr>,
     \<lparr>ie_id = CanvasAsset 2, ie_world = 8, ie_size = 30, ie_read = 9\<rparr>]"

lemma eviction_plan_sound_witness:
  "\<exists>gone. set (bp_evict (plan_eviction small_index 100 20 8)) = ie_id ` {e \<in> set small_index. ie_world e \<in> set gone} \<and>
     set gone \<subseteq> ie_world ` set small_index - {8}"
proof -
  have "bytes small_index + unat (20 :: u64) \<le> u64_max" by (simp add: u64_max_def small_index_def)
  from eviction_plan_sound [OF this, of 100 8] show ?thesis by blast
qed

text \<open>Prefetching never makes room: speculative bytes are admitted exactly when, counted without
  overflow, they fit beside what is in use, which is when they fit the headroom of a cache that is
  itself within its limit; sizes whose total does not fit in 64 bits are refused.\<close>

theorem speculation_uses_spare_room:
  "(admit_speculative in_use limit incoming = Admit \<longleftrightarrow> unat in_use + unat incoming \<le> unat limit) \<and>
   unat (speculative_headroom in_use limit) = unat limit - unat in_use"
proof -
  have "unat limit < 2 ^ LENGTH(64)" by (rule unsigned_less)
  then have "unat in_use + unat incoming \<le> u64_max" if "unat in_use + unat incoming \<le> unat limit"
    using that by (simp add: u64_max_def)
  then show ?thesis
    by (auto simp: admit_speculative_def speculative_headroom_def unat_sat_sub word_le_nat_alt unat_add_small)
qed

end
