(* ===== verification/Cache_Client.thy ===== *)
theory Cache_Client
  imports Cache_Store Cache_Sync Cache_Budget
begin

text \<open>
  The cache of a browser over a store of files and an index of rows (crates/thunderforge-cache-browser/src:
  opfs.rs, index.rs and the part of sync.rs that acts). Both are interfaces: the files are the trait
  \<open>BlobStore\<close>, the index what \<open>IndexStore\<close> answers. Every call may fail, and every function here
  says what it does then. \<open>seal\<close> and \<open>opn\<close> are the session key; taking a lock decides nothing, since
  every function goes on without it, and is left out.
\<close>

section \<open>The index\<close>

record cache_row =
  cr_fingerprint :: fingerprint
  cr_size :: u64
  cr_read :: u64
  cr_world :: uuid

definition next_seq :: "u64 \<Rightarrow> u64" where "next_seq s = (if s = - 1 then s else s + 1)"

definition touched :: "cache_row \<Rightarrow> u64 \<Rightarrow> cache_row" where "touched r seq = r\<lparr>cr_read := seq\<rparr>"

definition is_current :: "cache_row \<Rightarrow> fingerprint \<Rightarrow> bool" where
  "is_current r server \<longleftrightarrow> cr_fingerprint r = server"

definition high_water :: "cache_row list \<Rightarrow> u64" where "high_water rows = foldl max 0 (map cr_read rows)"

definition total_bytes :: "cache_row list \<Rightarrow> u64" where "total_bytes rows = sum_list (map cr_size rows)"

definition rows_for_world :: "cache_row list \<Rightarrow> uuid \<Rightarrow> cache_row list" where
  "rows_for_world rows w = filter (\<lambda>r. cr_world r = w) rows"

definition budget_entries :: "(item_id \<times> cache_row) list \<Rightarrow> index_entry list" where
  "budget_entries rows = map (\<lambda>(i, r). \<lparr>ie_id = i, ie_world = cr_world r, ie_size = cr_size r, ie_read = cr_read r\<rparr>) rows"

definition lru_order :: "(item_id \<times> cache_row) list \<Rightarrow> item_id list" where
  "lru_order rows = map fst (sort_key (\<lambda>(i, r). (cr_read r, i)) rows)"

definition missing_blobs :: "(item_id \<times> cache_row) list \<Rightarrow> fingerprint list \<Rightarrow> item_id list" where
  "missing_blobs rows on_disk = map fst (filter (\<lambda>(i, r). cr_fingerprint r \<notin> set on_disk) rows)"

definition orphaned_blobs :: "(item_id \<times> cache_row) list \<Rightarrow> fingerprint list \<Rightarrow> fingerprint list" where
  "orphaned_blobs rows on_disk = filter (\<lambda>f. \<forall>(i, r) \<in> set rows. cr_fingerprint r \<noteq> f) on_disk"

definition partition_orphans :: "(fingerprint \<times> blob_shape) list \<Rightarrow> fingerprint list \<times> fingerprint list" where
  "partition_orphans orphans =
     (map fst (filter (\<lambda>(f, sh). is_reclaimable sh) orphans), map fst (filter (\<lambda>(f, sh). \<not> is_reclaimable sh) orphans))"

datatype cache_error =
    Cache_unsupported ustring | Platform ustring | Cache_path path_error | Bad_envelope nat
  | Integrity integrity_error | Corrupt ustring

fun from_store :: "store_error \<Rightarrow> cache_error" where
  "from_store (Unsupported what) = Cache_unsupported what"
| "from_store (Backend msg) = Platform msg"
| "from_store (Path e) = Cache_path e"

record 'i index_ops =
  io_get :: "item_id \<Rightarrow> 'i \<Rightarrow> cache_error + cache_row option"
  io_put :: "item_id \<Rightarrow> cache_row \<Rightarrow> 'i \<Rightarrow> (cache_error + unit) \<times> 'i"
  io_remove :: "item_id \<Rightarrow> 'i \<Rightarrow> (cache_error + unit) \<times> 'i"
  io_all :: "'i \<Rightarrow> cache_error + (item_id \<times> cache_row) list"
  io_tick :: "'i \<Rightarrow> u64 \<times> 'i"

type_synonym rows = "item_id \<Rightarrow> cache_row option"

locale cache_index =
  fixes ix :: "'i index_ops"
    and rows :: "'i \<Rightarrow> rows"
    and ok :: "'i \<Rightarrow> bool"
  assumes get_done: "ok i \<Longrightarrow> io_get ix k i = Inr found \<Longrightarrow> found = rows i k"
    and put_done: "ok i \<Longrightarrow> io_put ix k r i = (Inr (), j) \<Longrightarrow> rows j = (rows i)(k \<mapsto> r)"
    and put_failed: "ok i \<Longrightarrow> io_put ix k r i = (Inl e, j) \<Longrightarrow> rows j = rows i"
    and put_ok: "ok i \<Longrightarrow> ok (snd (io_put ix k r i))"
    and drop_done: "ok i \<Longrightarrow> io_remove ix k i = (Inr (), j) \<Longrightarrow> rows j = (rows i)(k := None)"
    and drop_failed: "ok i \<Longrightarrow> io_remove ix k i = (Inl e, j) \<Longrightarrow> rows j = rows i"
    and drop_ok: "ok i \<Longrightarrow> ok (snd (io_remove ix k i))"
    and all_done: "ok i \<Longrightarrow> io_all ix i = Inr l \<Longrightarrow> distinct (map fst l) \<and> map_of l = rows i"
    and tick_done: "ok i \<Longrightarrow> rows (snd (io_tick ix i)) = rows i \<and> ok (snd (io_tick ix i))"

definition index_for_world :: "'i index_ops \<Rightarrow> uuid \<Rightarrow> 'i \<Rightarrow> cache_error + (item_id \<times> cache_row) list" where
  "index_for_world ix w i =
     (case io_all ix i of Inl e \<Rightarrow> Inl e | Inr l \<Rightarrow> Inr (filter (\<lambda>(k, r). cr_world r = w) l))"

definition index_touch :: "'i index_ops \<Rightarrow> item_id \<Rightarrow> 'i \<Rightarrow> (cache_error + unit) \<times> 'i" where
  "index_touch ix k i =
     (case io_get ix k i of
        Inl e \<Rightarrow> (Inl e, i)
      | Inr None \<Rightarrow> (Inr (), i)
      | Inr (Some r) \<Rightarrow> (let (seq, j) = io_tick ix i in io_put ix k (touched r seq) j))"

fun remove_rows :: "'i index_ops \<Rightarrow> item_id list \<Rightarrow> 'i \<Rightarrow> (cache_error + unit) \<times> 'i" where
  "remove_rows ix [] i = (Inr (), i)"
| "remove_rows ix (k # ks) i =
     (case io_remove ix k i of (Inl e, j) \<Rightarrow> (Inl e, j) | (Inr _, j) \<Rightarrow> remove_rows ix ks j)"

definition index_remove_world :: "'i index_ops \<Rightarrow> uuid \<Rightarrow> 'i \<Rightarrow> (cache_error + unit) \<times> 'i" where
  "index_remove_world ix w i =
     (case index_for_world ix w i of Inl e \<Rightarrow> (Inl e, i) | Inr l \<Rightarrow> remove_rows ix (map fst l) i)"

text \<open>\<open>IndexStore\<close>: the rows of the browser's table by item, and the counter of reads.\<close>

record index_store =
  is_rows :: "(item_id \<times> cache_row) list"
  is_seq :: u64

definition index_open :: "(item_id \<times> cache_row) list \<Rightarrow> index_store" where
  "index_open table = \<lparr>is_rows = table, is_seq = high_water (map snd table)\<rparr>"

definition index_store_ops :: "index_store index_ops" where
  "index_store_ops =
     \<lparr>io_get = (\<lambda>k i. Inr (map_of (is_rows i) k)),
      io_put = (\<lambda>k r i. (Inr (), i\<lparr>is_rows := bt_insert k r (is_rows i)\<rparr>)),
      io_remove = (\<lambda>k i. (Inr (), i\<lparr>is_rows := bt_remove k (is_rows i)\<rparr>)),
      io_all = (\<lambda>i. Inr (is_rows i)),
      io_tick = (\<lambda>i. (next_seq (is_seq i), i\<lparr>is_seq := next_seq (is_seq i)\<rparr>))\<rparr>"

definition index_rows :: "index_store \<Rightarrow> rows" where "index_rows i = map_of (is_rows i)"

interpretation stored_index: cache_index index_store_ops index_rows "\<lambda>i. bt_ok (is_rows i)"
  by unfold_locales
    (auto simp: index_store_ops_def index_rows_def map_of_bt_insert map_of_bt_remove btree.ok_ins btree.ok_del
      intro: btree.keys_distinct)

section \<open>Bytes\<close>

definition write_blob ::
    "'s blob_ops \<Rightarrow> (u8 list \<Rightarrow> u8 list) \<Rightarrow> (u8 list \<Rightarrow> cache_error + u8 list) \<Rightarrow> uuid \<Rightarrow> fingerprint \<Rightarrow> u8 list \<Rightarrow> 's \<Rightarrow>
      (cache_error + unit) \<times> 's" where
  "write_blob ops sha seal w expected plaintext s =
     (case verify_bytes sha plaintext expected of
        Inl e \<Rightarrow> (Inl (Integrity e), s)
      | Inr _ \<Rightarrow>
          (case seal plaintext of
             Inl e \<Rightarrow> (Inl e, s)
           | Inr sealed \<Rightarrow>
               (case bo_write ops w expected sealed s of (Inl e, t) \<Rightarrow> (Inl (from_store e), t) | (Inr _, t) \<Rightarrow> (Inr (), t))))"

definition discard :: "'s blob_ops \<Rightarrow> uuid \<Rightarrow> fingerprint \<Rightarrow> 's \<Rightarrow> 's" where
  "discard ops w f s = snd (bo_remove ops w f s)"

definition read_blob ::
    "'s blob_ops \<Rightarrow> (u8 list \<Rightarrow> u8 list) \<Rightarrow> (u8 list \<Rightarrow> cache_error + u8 list option) \<Rightarrow> uuid \<Rightarrow> fingerprint \<Rightarrow> 's \<Rightarrow>
      (cache_error + u8 list option) \<times> 's" where
  "read_blob ops sha opn w expected s =
     (case bo_read ops w expected s of
        Inl e \<Rightarrow> (Inl (from_store e), s)
      | Inr None \<Rightarrow> (Inr None, s)
      | Inr (Some sealed) \<Rightarrow>
          (case opn sealed of
             Inl e \<Rightarrow> (Inl e, s)
           | Inr None \<Rightarrow> (Inr None, discard ops w expected s)
           | Inr (Some plaintext) \<Rightarrow>
               (case verify_bytes sha plaintext expected of
                  Inl _ \<Rightarrow> (Inr None, discard ops w expected s)
                | Inr _ \<Rightarrow> (Inr (Some plaintext), s))))"

definition has_blob :: "'s blob_ops \<Rightarrow> uuid \<Rightarrow> fingerprint \<Rightarrow> 's \<Rightarrow> cache_error + bool" where
  "has_blob ops w f s = (case bo_shape ops w f s of Inl e \<Rightarrow> Inl (from_store e) | Inr sh \<Rightarrow> Inr (is_readable sh))"

section \<open>Acting on a plan\<close>

definition manifest_for_world :: "uuid \<Rightarrow> (item_id \<times> cache_row) list \<Rightarrow> manifest" where
  "manifest_for_world w l =
     foldl (\<lambda>m (k, r). if cr_world r = w then manifest_insert k (cr_fingerprint r) m else m) (manifest_new w) l"

definition manifest_for_open_world :: "'i index_ops \<Rightarrow> uuid \<Rightarrow> 'i \<Rightarrow> manifest" where
  "manifest_for_open_world ix w i =
     manifest_for_world w (case index_for_world ix w i of Inl _ \<Rightarrow> [] | Inr l \<Rightarrow> l)"

definition still_referenced :: "'i index_ops \<Rightarrow> uuid \<Rightarrow> fingerprint \<Rightarrow> 'i \<Rightarrow> bool" where
  "still_referenced ix w f i =
     (case index_for_world ix w i of Inr l \<Rightarrow> (\<exists>(k, r) \<in> set l. cr_fingerprint r = f) | Inl _ \<Rightarrow> True)"

record apply_outcome =
  ao_evicted :: nat
  ao_blobs :: nat
  ao_failed :: nat

definition apply_evict :: "'s blob_ops \<Rightarrow> 'i index_ops \<Rightarrow> uuid \<Rightarrow> apply_outcome \<times> 's \<times> 'i \<Rightarrow> item_id \<Rightarrow> apply_outcome \<times> 's \<times> 'i" where
  "apply_evict ops ix w st k =
     (case st of (out, s, i) \<Rightarrow>
       case io_get ix k i of
         Inl _ \<Rightarrow> (out\<lparr>ao_failed := ao_failed out + 1\<rparr>, s, i)
       | Inr found \<Rightarrow>
           (case io_remove ix k i of
              (Inl _, j) \<Rightarrow> (out\<lparr>ao_failed := ao_failed out + 1\<rparr>, s, j)
            | (Inr _, j) \<Rightarrow>
                let out1 = out\<lparr>ao_evicted := ao_evicted out + 1\<rparr> in
                (case found of
                   None \<Rightarrow> (out1, s, j)
                 | Some r \<Rightarrow>
                     if still_referenced ix w (cr_fingerprint r) j then (out1, s, j)
                     else (case bo_remove ops w (cr_fingerprint r) s of
                             (Inr _, t) \<Rightarrow> (out1\<lparr>ao_blobs := ao_blobs out1 + 1\<rparr>, t, j)
                           | (Inl _, t) \<Rightarrow> (out1\<lparr>ao_failed := ao_failed out1 + 1\<rparr>, t, j)))))"

definition apply_plan :: "'s blob_ops \<Rightarrow> 'i index_ops \<Rightarrow> uuid \<Rightarrow> sync_plan \<Rightarrow> 's \<Rightarrow> 'i \<Rightarrow> apply_outcome \<times> 's \<times> 'i" where
  "apply_plan ops ix w plan s i = foldl (apply_evict ops ix w) (\<lparr>ao_evicted = 0, ao_blobs = 0, ao_failed = 0\<rparr>, s, i) (sp_evict plan)"

record discard_outcome =
  do_rows :: nat
  do_index_cleared :: bool
  do_blobs_cleared :: bool

definition discard_complete :: "discard_outcome \<Rightarrow> bool" where
  "discard_complete out \<longleftrightarrow> do_index_cleared out \<and> do_blobs_cleared out"

definition discard_world :: "'s blob_ops \<Rightarrow> 'i index_ops \<Rightarrow> uuid \<Rightarrow> 's \<Rightarrow> 'i \<Rightarrow> discard_outcome \<times> 's \<times> 'i" where
  "discard_world ops ix w s i =
     (let n = (case index_for_world ix w i of Inl _ \<Rightarrow> 0 | Inr l \<Rightarrow> length l);
          (ri, j) = index_remove_world ix w i;
          (rs, t) = bo_remove_world ops w s in
      (\<lparr>do_rows = n, do_index_cleared = (ri = Inr ()), do_blobs_cleared = (rs = Inr ())\<rparr>, t, j))"


record repair_outcome =
  rp_rows_dropped :: nat
  rp_blobs_reclaimed :: nat
  rp_unfinished_kept :: nat
  rp_failed :: nat

definition repair_row :: "'i index_ops \<Rightarrow> repair_outcome \<times> 'i \<Rightarrow> item_id \<Rightarrow> repair_outcome \<times> 'i" where
  "repair_row ix st k =
     (case st of (out, i) \<Rightarrow>
       case io_remove ix k i of
         (Inr _, j) \<Rightarrow> (out\<lparr>rp_rows_dropped := rp_rows_dropped out + 1\<rparr>, j)
       | (Inl _, j) \<Rightarrow> (out\<lparr>rp_failed := rp_failed out + 1\<rparr>, j))"

definition shape_orphan ::
    "'s blob_ops \<Rightarrow> uuid \<Rightarrow> 's \<Rightarrow> repair_outcome \<times> (fingerprint \<times> blob_shape) list \<Rightarrow> fingerprint \<Rightarrow>
      repair_outcome \<times> (fingerprint \<times> blob_shape) list" where
  "shape_orphan ops w s st f =
     (case st of (out, shaped) \<Rightarrow>
       case bo_shape ops w f s of
         Inr sh \<Rightarrow> (out, shaped @ [(f, sh)])
       | Inl _ \<Rightarrow> (out\<lparr>rp_failed := rp_failed out + 1\<rparr>, shaped))"

definition reclaim :: "'s blob_ops \<Rightarrow> uuid \<Rightarrow> repair_outcome \<times> 's \<Rightarrow> fingerprint \<Rightarrow> repair_outcome \<times> 's" where
  "reclaim ops w st f =
     (case st of (out, s) \<Rightarrow>
       case bo_remove ops w f s of
         (Inr _, t) \<Rightarrow> (out\<lparr>rp_blobs_reclaimed := rp_blobs_reclaimed out + 1\<rparr>, t)
       | (Inl _, t) \<Rightarrow> (out\<lparr>rp_failed := rp_failed out + 1\<rparr>, t))"

definition repair_world :: "'s blob_ops \<Rightarrow> 'i index_ops \<Rightarrow> uuid \<Rightarrow> 's \<Rightarrow> 'i \<Rightarrow> repair_outcome \<times> 's \<times> 'i" where
  "repair_world ops ix w s i =
     (let out = \<lparr>rp_rows_dropped = 0, rp_blobs_reclaimed = 0, rp_unfinished_kept = 0, rp_failed = 0\<rparr>;
          fail = \<lparr>rp_rows_dropped = 0, rp_blobs_reclaimed = 0, rp_unfinished_kept = 0, rp_failed = 1\<rparr> in
      case index_for_world ix w i of
        Inl _ \<Rightarrow> (fail, s, i)
      | Inr entries \<Rightarrow>
          (case bo_list ops w s of
             Inl _ \<Rightarrow> (fail, s, i)
           | Inr on_disk \<Rightarrow>
               let (out1, j) = foldl (repair_row ix) (out, i) (missing_blobs entries on_disk);
                   (out2, shaped) = foldl (shape_orphan ops w s) (out1, []) (orphaned_blobs entries on_disk);
                   (reclaimable, kept) = partition_orphans shaped;
                   (out3, t) = foldl (reclaim ops w) (out2\<lparr>rp_unfinished_kept := length kept\<rparr>, s) reclaimable in
               (out3, t, j)))"

record budget_outcome =
  bu_limit :: u64
  bu_in_use :: u64
  bu_freed :: u64
  bu_evicted :: nat
  bu_blobs :: nat
  bu_failed :: nat
  bu_insufficient :: bool
  bu_unknown_quota :: bool

text \<open>One item of a victim world.\<close>

definition release_item :: "'s blob_ops \<Rightarrow> 'i index_ops \<Rightarrow> uuid \<Rightarrow> budget_outcome \<times> 's \<times> 'i \<Rightarrow> item_id \<Rightarrow> budget_outcome \<times> 's \<times> 'i" where
  "release_item ops ix w st k =
     (case st of (out, s, i) \<Rightarrow>
       case io_get ix k i of
         Inl _ \<Rightarrow> (out\<lparr>bu_failed := bu_failed out + 1\<rparr>, s, i)
       | Inr found \<Rightarrow>
           (case io_remove ix k i of
              (Inl _, j) \<Rightarrow> (out\<lparr>bu_failed := bu_failed out + 1\<rparr>, s, j)
            | (Inr _, j) \<Rightarrow>
                let out1 = out\<lparr>bu_evicted := bu_evicted out + 1,
                      bu_freed := bu_freed out + (case found of None \<Rightarrow> 0 | Some r \<Rightarrow> cr_size r)\<rparr> in
                (case found of
                   None \<Rightarrow> (out1, s, j)
                 | Some r \<Rightarrow>
                     if still_referenced ix w (cr_fingerprint r) j then (out1, s, j)
                     else (case bo_remove ops w (cr_fingerprint r) s of
                             (Inr _, t) \<Rightarrow> (out1\<lparr>bu_blobs := bu_blobs out1 + 1\<rparr>, t, j)
                           | (Inl _, t) \<Rightarrow> (out1\<lparr>bu_failed := bu_failed out1 + 1\<rparr>, t, j)))))"

definition group_victims :: "'i index_ops \<Rightarrow> 'i \<Rightarrow> item_id list \<Rightarrow> (uuid \<times> item_id list) list" where
  "group_victims ix i ks =
     foldl (\<lambda>table k. case io_get ix k i of
         Inr (Some r) \<Rightarrow> bt_insert (cr_world r) ((case map_of table (cr_world r) of None \<Rightarrow> [] | Some l \<Rightarrow> l) @ [k]) table
       | _ \<Rightarrow> table) [] ks"

definition enforce_budget ::
    "'s blob_ops \<Rightarrow> 'i index_ops \<Rightarrow> u64 option \<Rightarrow> uuid \<Rightarrow> u64 \<Rightarrow> 's \<Rightarrow> 'i \<Rightarrow> budget_outcome \<times> 's \<times> 'i" where
  "enforce_budget ops ix quota open_world incoming s i =
     (let out = \<lparr>bu_limit = 0, bu_in_use = 0, bu_freed = 0, bu_evicted = 0, bu_blobs = 0, bu_failed = 0,
                 bu_insufficient = False, bu_unknown_quota = False\<rparr> in
      case quota of
        None \<Rightarrow> (out\<lparr>bu_unknown_quota := True\<rparr>, s, i)
      | Some q \<Rightarrow>
          let out1 = out\<lparr>bu_limit := limit_bytes q\<rparr> in
          (case io_all ix i of
             Inl _ \<Rightarrow> (out1\<lparr>bu_failed := 1\<rparr>, s, i)
           | Inr rows \<Rightarrow>
               let plan = plan_eviction (budget_entries rows) (limit_bytes q) incoming open_world;
                   out2 = out1\<lparr>bu_in_use := bp_in_use plan, bu_insufficient := bp_insufficient plan\<rparr> in
               if bp_evict plan = [] then (out2, s, i)
               else foldl (\<lambda>st (w, ks). foldl (release_item ops ix w) st ks) (out2, s, i) (group_victims ix i (bp_evict plan))))"

definition record_fetched ::
    "'s blob_ops \<Rightarrow> 'i index_ops \<Rightarrow> (u8 list \<Rightarrow> u8 list) \<Rightarrow> (u8 list \<Rightarrow> cache_error + u8 list) \<Rightarrow> uuid \<Rightarrow> item_id \<Rightarrow>
      fingerprint \<Rightarrow> u8 list \<Rightarrow> 's \<Rightarrow> 'i \<Rightarrow> (cache_error + unit) \<times> 's \<times> 'i" where
  "record_fetched ops ix sha seal w k f content s i =
     (case write_blob ops sha seal w f content s of
        (Inl e, t) \<Rightarrow> (Inl e, t, i)
      | (Inr _, t) \<Rightarrow>
          let (seq, j) = io_tick ix i;
              (r, j') = io_put ix k \<lparr>cr_fingerprint = f, cr_size = of_nat (length content), cr_read = seq, cr_world = w\<rparr> j in
          (r, t, j'))"

definition canvas_fingerprints :: "'i index_ops \<Rightarrow> uuid \<Rightarrow> 'i \<Rightarrow> (uuid \<times> fingerprint) list" where
  "canvas_fingerprints ix w i =
     concat (map (\<lambda>(k, r). case k of CanvasAsset a \<Rightarrow> [(a, cr_fingerprint r)] | SceneState _ \<Rightarrow> [])
       (case index_for_world ix w i of Inl _ \<Rightarrow> [] | Inr l \<Rightarrow> l))"

end
