(* ===== verification/Cache_Holds.thy ===== *)
theory Cache_Holds
  imports Cache_Client
begin

text \<open>
  What the browser's cache keeps true over any store of files and any index of rows that hold to their contracts
  (sync.rs and opfs.rs of crates/thunderforge-cache-browser/src). The locale \<open>browser_cache\<close> joins the two
  contracts of \<open>Cache_Store\<close> and \<open>Cache_Client\<close>; \<open>evicts\<close> is what every function that releases items
  promises: rows of those items may go, and a file only where no row names it any more.
\<close>

section \<open>What holds over any store and index\<close>

text \<open>Every row's content can be read, but for the contents in \<open>lost\<close>.\<close>

definition served :: "(uuid \<times> fingerprint) set \<Rightarrow> files \<Rightarrow> rows \<Rightarrow> bool" where
  "served lost fs rs \<longleftrightarrow>
     (\<forall>k r. rs k = Some r \<longrightarrow> (cr_world r, cr_fingerprint r) \<notin> lost \<longrightarrow> whole fs (cr_world r) (cr_fingerprint r))"

definition named :: "rows \<Rightarrow> uuid \<Rightarrow> fingerprint \<Rightarrow> bool" where
  "named rs w f \<longleftrightarrow> (\<exists>k r. rs k = Some r \<and> cr_world r = w \<and> cr_fingerprint r = f)"

lemma release_as_evict: "snd (release_item ops ix w (out, s, i) k) = snd (apply_evict ops ix w (out', s, i) k)"
  by (auto simp: release_item_def apply_evict_def Let_def split: sum.split prod.split option.split)

text \<open>From one state to another by evicting items: their rows may go, and files of those worlds that no row names.\<close>

definition evicts :: "uuid set \<Rightarrow> item_id set \<Rightarrow> files \<times> rows \<Rightarrow> files \<times> rows \<Rightarrow> bool" where
  "evicts ws ks p q \<longleftrightarrow>
     (\<forall>k. snd q k = snd p k \<or> k \<in> ks \<and> snd q k = None) \<and>
     (\<forall>w f. fst q w f = fst p w f \<or> w \<in> ws \<and> fst q w f = None \<and> \<not> named (snd q) w f)"

lemma evicts_refl [simp]: "evicts ws ks p p"
  by (simp add: evicts_def)

lemma evicts_rows: "evicts ws ks p q \<Longrightarrow> snd q k = Some r \<Longrightarrow> snd p k = Some r"
  by (metis evicts_def option.distinct(1))

lemma named_evicts: "evicts ws ks p q \<Longrightarrow> named (snd q) v f \<Longrightarrow> named (snd p) v f"
  unfolding named_def using evicts_rows by blast

lemma evicts_trans:
  assumes "evicts vs ks p q" and "evicts ws ls q r"
  shows "evicts (vs \<union> ws) (ks \<union> ls) p r"
  unfolding evicts_def
proof (intro conjI allI)
  show "snd r k = snd p k \<or> k \<in> ks \<union> ls \<and> snd r k = None" for k
    using assms unfolding evicts_def by (metis Un_iff)
  show "fst r v f = fst p v f \<or> v \<in> vs \<union> ws \<and> fst r v f = None \<and> \<not> named (snd r) v f" for v f
    using assms(1) assms(2) named_evicts [OF assms(2), of v f] unfolding evicts_def by (metis Un_iff)
qed

lemma evicts_served:
  assumes "evicts ws ks p q" and "served lost (fst p) (snd p)"
  shows "served lost (fst q) (snd q)"
  unfolding served_def
proof (intro allI impI)
  fix k r assume r: "snd q k = Some r" and kept: "(cr_world r, cr_fingerprint r) \<notin> lost"
  then have "snd p k = Some r" by (metis evicts_rows [OF assms(1)])
  then have "whole (fst p) (cr_world r) (cr_fingerprint r)" using assms(2) kept by (simp add: served_def)
  moreover have "named (snd q) (cr_world r) (cr_fingerprint r)" using r by (auto simp: named_def)
  then have "fst q (cr_world r) (cr_fingerprint r) = fst p (cr_world r) (cr_fingerprint r)"
    using assms(1) unfolding evicts_def by metis
  ultimately show "whole (fst q) (cr_world r) (cr_fingerprint r)" by (simp add: whole_def)
qed

lemma evicts_mono: "evicts vs ks p q \<Longrightarrow> vs \<subseteq> ws \<Longrightarrow> ks \<subseteq> ls \<Longrightarrow> evicts ws ls p q"
  unfolding evicts_def by blast

locale browser_cache = blob_store ops files + cache_index ix rows ok
  for ops :: "'s blob_ops" and files and ix :: "'i index_ops" and rows and ok
begin

lemma for_world_done:
  "ok i \<Longrightarrow> index_for_world ix w i = Inr l \<Longrightarrow>
     distinct (map fst l) \<and> (\<forall>k r. (k, r) \<in> set l \<longleftrightarrow> rows i k = Some r \<and> cr_world r = w)"
proof -
  assume i: "ok i" and l: "index_for_world ix w i = Inr l"
  then obtain all where all: "io_all ix i = Inr all" "l = filter (\<lambda>(k, r). cr_world r = w) all"
    by (auto simp: index_for_world_def split: sum.splits)
  note d = all_done [OF i all(1)]
  have "(k, r) \<in> set all \<longleftrightarrow> rows i k = Some r" for k r using d by (metis map_of_eq_Some_iff)
  then show ?thesis using d distinct_map_filter all(2) by auto
qed

lemma not_referenced: "ok i \<Longrightarrow> \<not> still_referenced ix w f i \<Longrightarrow> \<not> named (rows i) w f"
  using for_world_done [of i w] unfolding still_referenced_def named_def by (fastforce split: sum.splits)

lemma evict_effect:
  assumes i: "ok i" and step: "apply_evict ops ix w (out, s, i) k = (out', t, j)"
  shows "ok j" and "evicts {w} {k} (files s, rows i) (files t, rows j)"
    and "ao_failed out \<le> ao_failed out'" and "ao_failed out' = ao_failed out \<Longrightarrow> rows j k = None"
proof -
  consider (no_answer) "t = s" "j = i" "ao_failed out' = ao_failed out + 1"
    | (kept) e where "io_remove ix k i = (Inl e, j)" "t = s" "ao_failed out' = ao_failed out + 1"
    | (row_only) "io_remove ix k i = (Inr (), j)" "t = s" "ao_failed out' = ao_failed out"
    | (blob) r :: cache_row and u where "io_remove ix k i = (Inr (), j)" "\<not> still_referenced ix w (cr_fingerprint r) j"
        "bo_remove ops w (cr_fingerprint r) s = (Inr u, t)" "ao_failed out' = ao_failed out"
    | (stuck) r :: cache_row and e where "io_remove ix k i = (Inr (), j)" "bo_remove ops w (cr_fingerprint r) s = (Inl e, t)"
        "ao_failed out' = ao_failed out + 1"
    using step by (auto simp: apply_evict_def Let_def split: sum.splits prod.splits option.splits if_splits)
  note cs = this
  have row_gone: "rows j = (rows i)(k := None) \<and> ok j" if "io_remove ix k i = (Inr (), j)"
    using drop_done [OF i that] drop_ok [OF i, of k] that by simp
  show "ok j" by (cases rule: cs) (use i row_gone drop_ok [OF i, of k] in auto)
  show "ao_failed out \<le> ao_failed out'" by (cases rule: cs) auto
  show "ao_failed out' = ao_failed out \<Longrightarrow> rows j k = None" by (cases rule: cs) (use row_gone in auto)
  show "evicts {w} {k} (files s, rows i) (files t, rows j)"
  proof (cases rule: cs)
    case kept
    then show ?thesis using drop_failed [OF i] by simp
  next
    case row_only
    then show ?thesis using row_gone by (auto simp: evicts_def)
  next
    case blob
    have j: "rows j = (rows i)(k := None)" "ok j" using row_gone [OF blob(1)] by simp_all
    have "files t = put_file (files s) w (cr_fingerprint r) None" using remove_done blob(3) by simp
    then show ?thesis using not_referenced [OF j(2) blob(2)] j(1) by (auto simp: evicts_def put_file_def)
  next
    case stuck
    have "rows j = (rows i)(k := None)" using row_gone [OF stuck(1)] by simp
    moreover have "files t = files s" by (rule remove_failed [OF stuck(2)])
    ultimately show ?thesis by (auto simp: evicts_def)
  qed simp
qed

end


lemma plan_spares_open:
  "k \<in> set (bp_evict (plan_eviction es limit incoming open_world)) \<Longrightarrow> \<exists>e \<in> set es. ie_id e = k \<and> ie_world e \<noteq> open_world"
proof -
  have add: "fst ` set (add_to_world e ws) = insert (ie_world e) (fst ` set ws)" for e ws
    by (induction e ws rule: add_to_world.induct) auto
  have table: "fst ` set (foldl (\<lambda>ws e. if ie_world e = open_world then ws else add_to_world e ws) t es) \<subseteq>
      fst ` set t \<union> {w. w \<noteq> open_world}" for t
  proof (induction es arbitrary: t)
    case (Cons e es)
    show ?case using Cons.IH [of t] Cons.IH [of "add_to_world e t"] add [of e t] by (cases "ie_world e = open_world") auto
  qed simp
  have rel: "set (snd (release es ws n ks)) \<subseteq> set ks \<union> (\<Union>w \<in> fst ` set ws. set (world_items es w))" for ws n ks
    by (induction es ws n ks rule: release.induct) (auto simp: Let_def)
  assume "k \<in> set (bp_evict (plan_eviction es limit incoming open_world))"
  then have "k \<in> set (snd (release es (sort_key (\<lambda>(w, _, recency). (recency, w)) (world_table es open_world))
      (sat_sub (sum_list (map ie_size es) + incoming) limit) []))"
    by (auto simp: plan_eviction_def Let_def split: if_splits prod.splits)
  moreover have "fst ` set (sort_key (\<lambda>(w, _, recency). (recency, w)) (world_table es open_world)) \<subseteq> {w. w \<noteq> open_world}"
    using table [of "[]"] by (simp add: world_table_def)
  ultimately obtain w where "w \<noteq> open_world" "k \<in> set (world_items es w)" using rel by fastforce
  then show ?thesis by (auto simp: world_items_def)
qed

context browser_cache
begin

lemma evict_fold:
  "ok i \<Longrightarrow> foldl (apply_evict ops ix w) (out, s, i) ks = (out', t, j) \<Longrightarrow>
     ok j \<and> evicts {w} (set ks) (files s, rows i) (files t, rows j) \<and> ao_failed out \<le> ao_failed out' \<and>
     (ao_failed out' = ao_failed out \<longrightarrow> (\<forall>k \<in> set ks. rows j k = None))"
proof (induction ks arbitrary: out s i)
  case (Cons k ks)
  obtain out1 s1 i1 where step: "apply_evict ops ix w (out, s, i) k = (out1, s1, i1)" by (metis prod_cases3)
  note e = evict_effect [OF Cons.prems(1) step]
  from Cons.IH [OF e(1)] Cons.prems(2) step have
    IH: "ok j" "evicts {w} (set ks) (files s1, rows i1) (files t, rows j)" "ao_failed out1 \<le> ao_failed out'"
      "ao_failed out' = ao_failed out1 \<longrightarrow> (\<forall>k \<in> set ks. rows j k = None)" by simp_all
  have gone: "rows i1 k = None \<Longrightarrow> rows j k = None" using evicts_rows [OF IH(2), of k] by (cases "rows j k") auto
  have "evicts {w} (set (k # ks)) (files s, rows i) (files t, rows j)" using evicts_trans [OF e(2) IH(2)] by simp
  then show ?case using IH(1,3,4) e(3,4) gone by auto
qed simp

lemma apply_plan_effect:
  assumes "ok i" and "apply_plan ops ix w plan s i = (out, t, j)"
  shows "ok j" and "evicts {w} (set (sp_evict plan)) (files s, rows i) (files t, rows j)"
    and "ao_failed out = 0 \<Longrightarrow> k \<in> set (sp_evict plan) \<Longrightarrow> rows j k = None"
  using evict_fold [OF assms(1) assms(2) [unfolded apply_plan_def]] by simp_all

lemma release_fold:
  "snd (foldl (release_item ops ix w) (out, s, i) ks) = snd (foldl (apply_evict ops ix w) (out', s, i) ks)"
proof (induction ks arbitrary: out out' s i)
  case (Cons k ks)
  obtain o1 s1 i1 where a: "apply_evict ops ix w (out', s, i) k = (o1, s1, i1)" by (metis prod_cases3)
  obtain o2 s2 i2 where b: "release_item ops ix w (out, s, i) k = (o2, s2, i2)" by (metis prod_cases3)
  have "s2 = s1" "i2 = i1" using release_as_evict [of ops ix w out s i k out'] a b by simp_all
  then show ?case using Cons.IH [of o2 s1 i1 o1] a b by simp
qed simp

lemma victims:
  assumes i: "ok i"
  shows "bt_ok table \<Longrightarrow> \<forall>(w, l) \<in> set table. l \<noteq> [] \<and> (\<forall>k \<in> set l. k \<in> K \<and> (\<exists>r. rows i k = Some r \<and> cr_world r = w)) \<Longrightarrow> set ks \<subseteq> K \<Longrightarrow>
    \<forall>(w, l) \<in> set (foldl (\<lambda>table k. case io_get ix k i of
         Inr (Some r) \<Rightarrow> bt_insert (cr_world r) ((case map_of table (cr_world r) of None \<Rightarrow> [] | Some l \<Rightarrow> l) @ [k]) table
       | _ \<Rightarrow> table) table ks). l \<noteq> [] \<and> (\<forall>k \<in> set l. k \<in> K \<and> (\<exists>r. rows i k = Some r \<and> cr_world r = w))"
proof (induction ks arbitrary: table)
  case (Cons k ks)
  show ?case
  proof (cases "io_get ix k i")
    case (Inr found)
    show ?thesis
    proof (cases found)
      case (Some r)
      let ?t = "bt_insert (cr_world r) ((case map_of table (cr_world r) of None \<Rightarrow> [] | Some l \<Rightarrow> l) @ [k]) table"
      have row: "rows i k = Some r" using get_done [OF i Inr] Some by simp
      have ok: "bt_ok ?t" by (rule btree.ok_ins [OF Cons.prems(1)])
      have "l \<noteq> [] \<and> (\<forall>k \<in> set l. k \<in> K \<and> (\<exists>r. rows i k = Some r \<and> cr_world r = w))" if "(w, l) \<in> set ?t" for w l
      proof -
        let ?m = "(case map_of table (cr_world r) of None \<Rightarrow> [] | Some l \<Rightarrow> l) @ [k]"
        have "map_of ?t w = Some l" using btree.entry_iff [OF ok] that by blast
        then have "((map_of table)(cr_world r \<mapsto> ?m)) w = Some l" unfolding map_of_bt_insert .
        then consider "w = cr_world r" "l = ?m" | "map_of table w = Some l" unfolding fun_upd_apply by (metis option.inject)
        then show ?thesis
        proof cases
          case 1
          show ?thesis
          proof (cases "map_of table (cr_world r)")
            case None
            then show ?thesis using 1 Cons.prems(3) row by simp
          next
            case (Some l')
            then have "(cr_world r, l') \<in> set table" by (rule map_of_SomeD)
            then show ?thesis using 1 Some Cons.prems(2,3) row by auto
          qed
        next
          case 2
          then show ?thesis using Cons.prems(2) map_of_SomeD by fastforce
        qed
      qed
      then have "\<forall>(w, l) \<in> set ?t. l \<noteq> [] \<and> (\<forall>k \<in> set l. k \<in> K \<and> (\<exists>r. rows i k = Some r \<and> cr_world r = w))" by blast
      from Cons.IH [OF ok this] Cons.prems(3) Inr Some show ?thesis by simp
    qed (use Cons Inr in simp)
  qed (use Cons in simp)
qed simp

lemma release_worlds:
  "ok i \<Longrightarrow> foldl (\<lambda>st (w, ks). foldl (release_item ops ix w) st ks) (out, s, i) table = (out', t, j) \<Longrightarrow>
     ok j \<and> evicts (fst ` set table) (\<Union>(w, l) \<in> set table. set l) (files s, rows i) (files t, rows j)"
proof (induction table arbitrary: out s i)
  case (Cons e table)
  obtain w l where e: "e = (w, l)" by (cases e)
  obtain out1 s1 i1 where step: "foldl (release_item ops ix w) (out, s, i) l = (out1, s1, i1)" by (metis prod_cases3)
  let ?z = "\<lparr>ao_evicted = 0, ao_blobs = 0, ao_failed = 0\<rparr>"
  obtain out2 where "foldl (apply_evict ops ix w) (?z, s, i) l = (out2, s1, i1)"
    using release_fold [of w out s i l ?z] step by (metis prod.collapse snd_conv)
  from evict_fold [OF Cons.prems(1) this]
  have one: "ok i1" "evicts {w} (set l) (files s, rows i) (files s1, rows i1)" by blast+
  from Cons.IH [OF one(1)] Cons.prems(2) step e
  have "ok j" "evicts (fst ` set table) (\<Union>(w, l) \<in> set table. set l) (files s1, rows i1) (files t, rows j)" by simp_all
  then show ?case using evicts_trans [OF one(2)] e by auto
qed simp

lemma enforce_budget_effect:
  assumes i: "ok i" and run: "enforce_budget ops ix quota open_world incoming s i = (out, t, j)"
  shows "ok j \<and> evicts (- {open_world}) {k. \<exists>r. rows i k = Some r \<and> cr_world r \<noteq> open_world} (files s, rows i) (files t, rows j)"
proof -
  consider "t = s" "j = i" | q l out2 where "quota = Some q" "io_all ix i = Inr l"
    "foldl (\<lambda>st (w, ks). foldl (release_item ops ix w) st ks) (out2, s, i)
      (group_victims ix i (bp_evict (plan_eviction (budget_entries l) (limit_bytes q) incoming open_world))) = (out, t, j)"
    using run by (auto simp: enforce_budget_def Let_def split: option.splits sum.splits if_splits)
  then show ?thesis
  proof cases
    case (2 q l out2)
    let ?ks = "bp_evict (plan_eviction (budget_entries l) (limit_bytes q) incoming open_world)"
    let ?K = "{k. \<exists>r. rows i k = Some r \<and> cr_world r \<noteq> open_world}"
    have l: "distinct (map fst l)" "map_of l = rows i" using all_done [OF i 2(2)] by simp_all
    have "set ?ks \<subseteq> ?K"
    proof
      fix k assume "k \<in> set ?ks"
      then obtain e where "e \<in> set (budget_entries l)" "ie_id e = k" "ie_world e \<noteq> open_world" using plan_spares_open by blast
      then obtain r where "(k, r) \<in> set l" "cr_world r \<noteq> open_world" by (auto simp: budget_entries_def)
      then show "k \<in> ?K" using l by (metis (mono_tags, lifting) map_of_eq_Some_iff mem_Collect_eq)
    qed
    from victims [OF i, of "[]" ?K ?ks] this
    have v: "\<forall>(w, l) \<in> set (group_victims ix i ?ks). l \<noteq> [] \<and> (\<forall>k \<in> set l. k \<in> ?K \<and> (\<exists>r. rows i k = Some r \<and> cr_world r = w))"
      by (simp add: group_victims_def)
    have e: "ok j" "evicts (fst ` set (group_victims ix i ?ks)) (\<Union>(w, l) \<in> set (group_victims ix i ?ks). set l) (files s, rows i) (files t, rows j)"
      using release_worlds [OF i 2(3)] by blast+
    have sub: "(\<Union>(w, l) \<in> set (group_victims ix i ?ks). set l) \<subseteq> ?K" using v by blast
    have "w \<noteq> open_world" if "(w, l) \<in> set (group_victims ix i ?ks)" for w l
    proof -
      have l: "l \<noteq> [] \<and> (\<forall>k \<in> set l. k \<in> ?K \<and> (\<exists>r. rows i k = Some r \<and> cr_world r = w))" using v that by blast
      then obtain k where "k \<in> set l" by (cases l) auto
      with l show ?thesis by fastforce
    qed
    then have "fst ` set (group_victims ix i ?ks) \<subseteq> - {open_world}" by fastforce
    from evicts_mono [OF e(2) this sub]
    have "evicts (- {open_world}) ?K (files s, rows i) (files t, rows j)" .
    then show ?thesis using e(1) by blast
  qed (use i in simp)
qed

end


lemma whole_iff: "whole fs w f \<longleftrightarrow> (\<exists>b. fs w f = Some b \<and> b \<noteq> [])"
  by (cases "fs w f") (auto simp: whole_def is_readable_def min_blob_len_def Suc_le_eq not_less)

section \<open>Repair\<close>

context browser_cache
begin

lemma repair_rows:
  "ok i \<Longrightarrow> foldl (repair_row ix) (out, i) ks = (out', j) \<Longrightarrow>
     ok j \<and> (\<forall>k. rows j k = rows i k \<or> k \<in> set ks \<and> rows j k = None) \<and> rp_failed out \<le> rp_failed out' \<and>
     (rp_failed out' = rp_failed out \<longrightarrow> (\<forall>k \<in> set ks. rows j k = None))"
proof (induction ks arbitrary: out i)
  case (Cons k ks)
  obtain out1 i1 where step: "repair_row ix (out, i) k = (out1, i1)" by fastforce
  then consider u where "io_remove ix k i = (Inr u, i1)" "rp_failed out1 = rp_failed out"
    | e where "io_remove ix k i = (Inl e, i1)" "rp_failed out1 = rp_failed out + 1"
    by (auto simp: repair_row_def split: prod.splits sum.splits)
  then have one: "ok i1 \<and> (rows i1 = (rows i)(k := None) \<and> rp_failed out1 = rp_failed out \<or>
      rows i1 = rows i \<and> rp_failed out1 = rp_failed out + 1)"
  proof cases
    case 1
    then show ?thesis using drop_done [OF Cons.prems(1), of k i1] drop_ok [OF Cons.prems(1), of k] by simp
  next
    case 2
    then show ?thesis using drop_failed [OF Cons.prems(1), of k _ i1] drop_ok [OF Cons.prems(1), of k] by simp
  qed
  have "foldl (repair_row ix) (out1, i1) ks = (out', j)" using Cons.prems(2) step by simp
  from Cons.IH [OF _ this] one have
    IH: "ok j" "\<forall>k. rows j k = rows i1 k \<or> k \<in> set ks \<and> rows j k = None" "rp_failed out1 \<le> rp_failed out'"
      "rp_failed out' = rp_failed out1 \<longrightarrow> (\<forall>k \<in> set ks. rows j k = None)" by blast+
  have "\<forall>x. rows j x = rows i x \<or> x \<in> set (k # ks) \<and> rows j x = None" using IH(2) one by (metis fun_upd_apply list.set_intros)
  moreover have "rows j k = None" if "rp_failed out1 = rp_failed out"
    using IH(2) one that by (metis Suc_eq_plus1 fun_upd_same n_not_Suc_n)
  ultimately show ?case using IH one by auto
qed simp

lemma shape_orphans:
  "foldl (shape_orphan ops w s) (out, sh) fs = (out', sh') \<Longrightarrow>
     (\<forall>(f, x) \<in> set sh'. (f, x) \<in> set sh \<or> f \<in> set fs \<and> x = shape_of (map_option length (files s w f))) \<and>
     rp_failed out \<le> rp_failed out' \<and> (rp_failed out' = rp_failed out \<longrightarrow> fst ` set sh' = fst ` set sh \<union> set fs)"
proof (induction fs arbitrary: out sh)
  case (Cons f fs)
  obtain out1 sh1 where step: "shape_orphan ops w s (out, sh) f = (out1, sh1)" by fastforce
  then consider x where "bo_shape ops w f s = Inr x" "sh1 = sh @ [(f, x)]" "out1 = out"
    | "sh1 = sh" "rp_failed out1 = rp_failed out + 1" by (auto simp: shape_orphan_def split: sum.splits)
  then have one: "sh1 = sh @ [(f, shape_of (map_option length (files s w f)))] \<and> out1 = out \<or>
      sh1 = sh \<and> rp_failed out1 = rp_failed out + 1" using shape_done by cases blast+
  have "foldl (shape_orphan ops w s) (out1, sh1) fs = (out', sh')" using Cons.prems step by simp
  from Cons.IH [OF this] one show ?case by (elim disjE conjE) auto
qed simp

lemma reclaims:
  "foldl (reclaim ops w) (out, s) fs = (out', t) \<Longrightarrow>
     (\<forall>v f. files t v f = files s v f \<or> v = w \<and> f \<in> set fs \<and> files t v f = None) \<and>
     rp_failed out \<le> rp_failed out' \<and> (rp_failed out' = rp_failed out \<longrightarrow> (\<forall>f \<in> set fs. files t w f = None))"
proof (induction fs arbitrary: out s)
  case (Cons f fs)
  obtain out1 s1 where step: "reclaim ops w (out, s) f = (out1, s1)" by fastforce
  then consider u where "bo_remove ops w f s = (Inr u, s1)" "rp_failed out1 = rp_failed out"
    | e where "bo_remove ops w f s = (Inl e, s1)" "rp_failed out1 = rp_failed out + 1"
    by (auto simp: reclaim_def split: prod.splits sum.splits)
  then have one: "files s1 = put_file (files s) w f None \<and> rp_failed out1 = rp_failed out \<or>
      files s1 = files s \<and> rp_failed out1 = rp_failed out + 1"
  proof cases
    case 1
    then show ?thesis using remove_done by simp
  next
    case 2
    then show ?thesis using remove_failed by simp
  qed
  have "foldl (reclaim ops w) (out1, s1) fs = (out', t)" using Cons.prems step by simp
  from Cons.IH [OF this] have
    IH: "\<forall>v g. files t v g = files s1 v g \<or> v = w \<and> g \<in> set fs \<and> files t v g = None" "rp_failed out1 \<le> rp_failed out'"
      "rp_failed out' = rp_failed out1 \<longrightarrow> (\<forall>f \<in> set fs. files t w f = None)" by blast+
  have "\<forall>v g. files t v g = files s v g \<or> v = w \<and> g \<in> set (f # fs) \<and> files t v g = None"
    using IH(1) one unfolding put_file_def by (metis list.set_intros)
  moreover have "files t w f = None" if "rp_failed out1 = rp_failed out"
    using IH(1) one that unfolding put_file_def by (metis Suc_eq_plus1 n_not_Suc_n)
  ultimately show ?case using IH one by auto
qed simp

lemma repair_effect:
  assumes i: "ok i" and run: "repair_world ops ix w s i = (out, t, j)"
  shows "ok j \<and>
    (\<forall>k. rows j k = rows i k \<or> rows j k = None \<and>
      (\<exists>r. rows i k = Some r \<and> cr_world r = w \<and> (files s w (cr_fingerprint r) = None \<or> length (cr_fingerprint r) \<noteq> 32))) \<and>
    (\<forall>v f. files t v f = files s v f \<or> v = w \<and> files t v f = None \<and> whole (files s) w f \<and> \<not> named (rows i) w f) \<and>
    (rp_failed out = 0 \<longrightarrow>
      (\<forall>k r. rows j k = Some r \<longrightarrow> cr_world r = w \<longrightarrow> files t w (cr_fingerprint r) \<noteq> None) \<and>
      (\<forall>f. length f = 32 \<longrightarrow> whole (files t) w f \<longrightarrow> named (rows j) w f))"
proof (cases "\<exists>l fs. index_for_world ix w i = Inr l \<and> bo_list ops w s = Inr fs")
  case False
  then have "t = s \<and> j = i \<and> rp_failed out = 1" using run by (auto simp: repair_world_def Let_def split: sum.splits)
  then show ?thesis using i by simp
next
  case True
  then obtain l fs where l: "index_for_world ix w i = Inr l" "bo_list ops w s = Inr fs" by blast
  let ?z = "\<lparr>rp_rows_dropped = 0, rp_blobs_reclaimed = 0, rp_unfinished_kept = 0, rp_failed = 0\<rparr>"
  obtain out1 i1 where a: "foldl (repair_row ix) (?z, i) (missing_blobs l fs) = (out1, i1)" by fastforce
  obtain out2 sh where b: "foldl (shape_orphan ops w s) (out1, []) (orphaned_blobs l fs) = (out2, sh)" by fastforce
  define gone where "gone = fst (partition_orphans sh)"
  obtain out3 s3 where c: "foldl (reclaim ops w) (out2\<lparr>rp_unfinished_kept := length (snd (partition_orphans sh))\<rparr>, s) gone = (out3, s3)"
    by fastforce
  have res: "out = out3" "t = s3" "j = i1"
    using run l a b c by (auto simp: repair_world_def Let_def gone_def split: prod.splits)
  note entry = for_world_done [OF i l(1)] and A = repair_rows [OF i a] and B = shape_orphans [OF b] and C = reclaims [OF c]
  have disk: "set fs = {f. length f = 32 \<and> files s w f \<noteq> None}" using list_done [OF l(2)] .
  have miss: "k \<in> set (missing_blobs l fs) \<longleftrightarrow> (\<exists>r. rows i k = Some r \<and> cr_world r = w \<and>
      (files s w (cr_fingerprint r) = None \<or> length (cr_fingerprint r) \<noteq> 32))" for k
  proof -
    have "k \<in> set (missing_blobs l fs) \<longleftrightarrow> (\<exists>r. (k, r) \<in> set l \<and> cr_fingerprint r \<notin> set fs)"
      by (force simp: missing_blobs_def)
    with entry disk show ?thesis by auto
  qed
  have orph: "f \<in> set (orphaned_blobs l fs) \<longleftrightarrow> length f = 32 \<and> files s w f \<noteq> None \<and> \<not> named (rows i) w f" for f
  proof -
    have "f \<in> set (orphaned_blobs l fs) \<longleftrightarrow> f \<in> set fs \<and> (\<forall>k r. (k, r) \<in> set l \<longrightarrow> cr_fingerprint r \<noteq> f)"
      by (auto simp: orphaned_blobs_def)
    with entry disk show ?thesis unfolding named_def by (simp, blast)
  qed
  have gone: "f \<in> set gone \<longleftrightarrow> (\<exists>x. (f, x) \<in> set sh \<and> x = Complete)" for f
    by (force simp: gone_def partition_orphans_def is_reclaimable_def)
  have spared: "whole (files s) w f \<and> \<not> named (rows i) w f" if "f \<in> set gone" for f
  proof -
    have "(f, Complete) \<in> set sh" using that gone by blast
    then have "f \<in> set (orphaned_blobs l fs)" "Complete = shape_of (map_option length (files s w f))" using B by auto
    then show ?thesis using orph [of f] by (simp add: whole_def is_readable_def)
  qed
  have files: "\<forall>v f. files t v f = files s v f \<or> v = w \<and> files t v f = None \<and> whole (files s) w f \<and> \<not> named (rows i) w f"
  proof (intro allI)
    fix v f
    have "files t v f = files s v f \<or> v = w \<and> f \<in> set gone \<and> files t v f = None" using C res(2) by simp
    then show "files t v f = files s v f \<or> v = w \<and> files t v f = None \<and> whole (files s) w f \<and> \<not> named (rows i) w f"
      using spared [of f] by blast
  qed
  have rows: "\<forall>k. rows j k = rows i k \<or> k \<in> set (missing_blobs l fs) \<and> rows j k = None"
    using A res(3) by simp
  have settled: "(\<forall>k \<in> set (missing_blobs l fs). rows j k = None) \<and> fst ` set sh = set (orphaned_blobs l fs) \<and>
      (\<forall>f \<in> set gone. files t w f = None)" if "rp_failed out = 0"
  proof -
    have "rp_failed out1 = 0 \<and> rp_failed out2 = rp_failed out1 \<and> rp_failed out3 = rp_failed out2"
      using A B C that res(1) by simp
    with A B C res show ?thesis by simp
  qed
  have kept: "files t w (cr_fingerprint r) \<noteq> None" if "rp_failed out = 0" "rows j k = Some r" "cr_world r = w" for k r
  proof -
    have row: "rows i k = Some r" using rows that(2) by (metis option.distinct(1))
    have "k \<notin> set (missing_blobs l fs)"
    proof
      assume "k \<in> set (missing_blobs l fs)"
      then have "rows j k = None" using settled [OF that(1)] by blast
      then show False using that(2) by simp
    qed
    then have "files s w (cr_fingerprint r) \<noteq> None" using miss [of k] row that(3) by simp
    moreover have "named (rows i) w (cr_fingerprint r)" using row that(3) by (auto simp: named_def)
    ultimately show ?thesis using files by metis
  qed
  have whole: "named (rows j) w f" if "rp_failed out = 0" "length f = 32" "whole (files t) w f" for f
  proof -
    have f: "files t w f \<noteq> None" using that(3) by (auto simp: whole_iff)
    then have s: "files s w f = files t w f" using files by metis
    have "named (rows i) w f"
    proof (rule ccontr)
      assume "\<not> named (rows i) w f"
      then have "f \<in> fst ` set sh" using orph settled [OF that(1)] f s that(2) by simp
      then obtain x where x: "(f, x) \<in> set sh" by auto
      then have "x = shape_of (map_option length (files s w f))" using B by auto
      then have "x = Complete" using that(3) s by (simp add: whole_def is_readable_def)
      then have "f \<in> set gone" using gone x by auto
      with settled [OF that(1)] have "files t w f = None" by simp
      with f show False by simp
    qed
    then obtain k r where k: "rows i k = Some r" "cr_world r = w" "cr_fingerprint r = f" by (auto simp: named_def)
    have "k \<notin> set (missing_blobs l fs)" using miss [of k] k f s that(2) by simp
    then have "rows j k = Some r" using rows k(1) by metis
    then show ?thesis using k by (auto simp: named_def)
  qed
  show ?thesis using A res(3) rows miss files kept whole 
    by (intro conjI impI allI) (simp, metis, metis, metis, metis)
qed

lemma repair_evicts:
  assumes "ok i" and "repair_world ops ix w s i = (out, t, j)"
  shows "ok j" and "evicts {w} {k. \<exists>r. rows i k = Some r \<and> cr_world r = w} (files s, rows i) (files t, rows j)"
proof -
  note e = repair_effect [OF assms]
  then show "ok j" by blast
  have "named (rows i) w f" if "named (rows j) w f" for f using that e unfolding named_def by (metis option.distinct(1))
  with e show "evicts {w} {k. \<exists>r. rows i k = Some r \<and> cr_world r = w} (files s, rows i) (files t, rows j)"
    unfolding evicts_def by (simp, blast)
qed

end


section \<open>Bytes in and out\<close>

lemma verified: "verify_bytes sha b f = Inr u \<longleftrightarrow> sha b = f"
  by (simp add: verify_bytes_def of_bytes_def Let_def)

context browser_cache
begin

lemma write_effect:
  assumes "write_blob ops sha seal w f p s = (res, t)" and "\<forall>p c. seal p = Inr c \<longrightarrow> c \<noteq> []"
  shows "(\<forall>v g. v \<noteq> w \<or> g \<noteq> f \<longrightarrow> files t v g = files s v g) \<and>
    (whole (files s) w f \<longrightarrow> whole (files t) w f) \<and>
    (\<forall>u. res = Inr u \<longrightarrow> sha p = f \<and> whole (files t) w f \<and> (\<exists>c. seal p = Inr c \<and> files t w f = Some c))"
proof -
  consider "t = s" "isl res" | c where "sha p = f" "seal p = Inr c" "bo_write ops w f c s = (Inr (), t)" "res = Inr ()"
    | c e where "bo_write ops w f c s = (Inl e, t)" "isl res"
    using assms(1) by (auto simp: write_blob_def verified split: sum.splits prod.splits)
  then show ?thesis
  proof cases
    case (2 c)
    then have "files t = put_file (files s) w f (Some c)" "c \<noteq> []" using write_done assms(2) by blast+
    then show ?thesis using 2 by (auto simp: put_file_def whole_iff)
  next
    case (3 c e)
    from write_failed [OF 3(1)] show ?thesis using 3(2) by (auto simp: put_file_def whole_iff)
  qed auto
qed

lemma read_effect:
  assumes "read_blob ops sha opn w f s = (res, t)"
  shows "(\<forall>b. res = Inr (Some b) \<longrightarrow> sha b = f \<and> t = s \<and> (\<exists>c. files s w f = Some c \<and> opn c = Inr (Some b))) \<and>
    (\<forall>v g. files t v g = files s v g \<or>
      v = w \<and> g = f \<and> res = Inr None \<and> files t v g = None \<and>
      (\<exists>c. files s w f = Some c \<and> c \<noteq> [] \<and> \<not> (\<exists>b. opn c = Inr (Some b) \<and> sha b = f)))"
proof -
  consider "t = s" "\<forall>b. res \<noteq> Inr (Some b)"
    | c b where "bo_read ops w f s = Inr (Some c)" "opn c = Inr (Some b)" "sha b = f" "res = Inr (Some b)" "t = s"
    | c where "bo_read ops w f s = Inr (Some c)" "\<not> (\<exists>b. opn c = Inr (Some b) \<and> sha b = f)" "res = Inr None" "t = discard ops w f s"
    using assms by (auto simp: read_blob_def verified verify_bytes_def of_bytes_def Let_def split: sum.splits option.splits if_splits)
      (metis sum.distinct(1))
  then show ?thesis
  proof cases
    case (2 c b)
    then show ?thesis using read_whole [OF 2(1)] by simp
  next
    case (3 c)
    obtain x where rm: "bo_remove ops w f s = (x, t)" using 3(4) by (metis discard_def prod.collapse)
    have c: "files s w f = Some c" "c \<noteq> []" using read_whole [OF 3(1)] by (auto simp: whole_iff)
    have "files t v g = files s v g \<or> v = w \<and> g = f \<and> files t v g = None" for v g
    proof (cases x)
      case (Inl e)
      then show ?thesis using remove_failed rm by simp
    next
      case (Inr u)
      then show ?thesis using remove_done [of w f s t] rm by (simp add: put_file_def)
    qed
    then show ?thesis using c 3(2,3) by (intro conjI allI impI) (simp, simp, simp, metis)
  qed simp
qed

lemma fetch_effect:
  assumes i: "ok i" and run: "record_fetched ops ix sha seal w k f p s i = (res, t, j)"
    and seal: "\<forall>p c. seal p = Inr c \<longrightarrow> c \<noteq> []" and "served lost (files s) (rows i)"
  shows "ok j \<and> served (if res = Inr () then lost - {(w, f)} else lost) (files t) (rows j)"
proof -
  obtain res1 where w: "write_blob ops sha seal w f p s = (res1, t)"
    using run by (auto simp: record_fetched_def Let_def split: sum.splits prod.splits)
  note W = write_effect [OF w seal]
  have keep: "served lost (files t) (rows i)"
    unfolding served_def
  proof (intro allI impI)
    fix k r assume "rows i k = Some r" "(cr_world r, cr_fingerprint r) \<notin> lost"
    then have "whole (files s) (cr_world r) (cr_fingerprint r)" using assms(4) by (simp add: served_def)
    then show "whole (files t) (cr_world r) (cr_fingerprint r)"
      using W by (cases "cr_world r = w \<and> cr_fingerprint r = f") (auto simp: whole_def)
  qed
  show ?thesis
  proof (cases res1)
    case (Inl e)
    then show ?thesis using run w keep i by (auto simp: record_fetched_def)
  next
    case (Inr u)
    define i1 where "i1 = snd (io_tick ix i)"
    define r where "r = \<lparr>cr_fingerprint = f, cr_size = of_nat (length p), cr_read = fst (io_tick ix i), cr_world = w\<rparr>"
    have i1: "rows i1 = rows i" "ok i1" using tick_done [OF i] by (simp_all add: i1_def)
    have put: "io_put ix k r i1 = (res, j)"
      using run w Inr by (auto simp: record_fetched_def Let_def i1_def r_def split: prod.splits)
    have "whole (files t) w f" using W Inr by blast
    then have new: "served (lost - {(w, f)}) (files t) ((rows i)(k \<mapsto> r))" using keep by (auto simp: served_def r_def)
    have "ok j" using put_ok [OF i1(2), of k r] put by simp
    moreover have "served (if res = Inr () then lost - {(w, f)} else lost) (files t) (rows j)"
    proof (cases res)
      case (Inl e)
      then show ?thesis using put_failed [OF i1(2)] put i1(1) keep by simp
    next
      case (Inr u)
      then show ?thesis using put_done [OF i1(2)] put i1(1) new by simp
    qed
    ultimately show ?thesis by simp
  qed
qed

lemma remove_rows_effect:
  "ok i \<Longrightarrow> remove_rows ix ks i = (res, j) \<Longrightarrow>
     ok j \<and> (\<forall>k. rows j k = rows i k \<or> k \<in> set ks \<and> rows j k = None) \<and> (res = Inr () \<longrightarrow> (\<forall>k \<in> set ks. rows j k = None))"
proof (induction ks arbitrary: i)
  case (Cons k ks)
  obtain x i1 where step: "io_remove ix k i = (x, i1)" by fastforce
  have i1: "ok i1" using drop_ok [OF Cons.prems(1), of k] step by simp
  show ?case
  proof (cases x)
    case (Inl e)
    then show ?thesis using Cons.prems step drop_failed [OF Cons.prems(1)] i1 by auto
  next
    case (Inr u)
    then have gone: "rows i1 = (rows i)(k := None)" using step drop_done [OF Cons.prems(1)] by simp
    have "remove_rows ix ks i1 = (res, j)" using Cons.prems(2) step Inr by simp
    from Cons.IH [OF i1 this] show ?thesis unfolding gone by (auto split: if_splits)
  qed
qed simp

lemma discard_effect:
  assumes i: "ok i" and run: "discard_world ops ix w s i = (out, t, j)"
  shows "ok j \<and> (\<forall>v. v \<noteq> w \<longrightarrow> files t v = files s v) \<and>
    (\<forall>k. rows j k = rows i k \<or> rows j k = None \<and> (\<exists>r. rows i k = Some r \<and> cr_world r = w)) \<and>
    (do_index_cleared out \<longrightarrow> (\<forall>k r. rows j k = Some r \<longrightarrow> cr_world r \<noteq> w)) \<and>
    (do_blobs_cleared out \<longrightarrow> (\<forall>f. files t w f = None))"
proof -
  obtain x where x: "index_remove_world ix w i = (x, j)" "do_index_cleared out \<longleftrightarrow> x = Inr ()"
    and "\<exists>y. bo_remove_world ops w s = (y, t) \<and> (do_blobs_cleared out \<longleftrightarrow> y = Inr ())"
    using run by (auto simp: discard_world_def Let_def split: prod.splits)
  then obtain y where y: "bo_remove_world ops w s = (y, t)" "do_blobs_cleared out \<longleftrightarrow> y = Inr ()" by blast
  have F: "(\<forall>v. v \<noteq> w \<longrightarrow> files t v = files s v) \<and> (do_blobs_cleared out \<longrightarrow> (\<forall>f. files t w f = None))"
  proof (cases y)
    case (Inl e)
    then show ?thesis using remove_world_failed y by auto
  next
    case (Inr u)
    then show ?thesis using remove_world_done y by auto
  qed
  show ?thesis
  proof (cases "index_for_world ix w i")
    case (Inl e)
    then show ?thesis using x F i by (auto simp: index_remove_world_def)
  next
    case (Inr l)
    note entry = for_world_done [OF i Inr]
    have "remove_rows ix (map fst l) i = (x, j)" using x(1) Inr by (simp add: index_remove_world_def)
    note R = remove_rows_effect [OF i this]
    have mem: "k \<in> set (map fst l) \<longleftrightarrow> (\<exists>r. rows i k = Some r \<and> cr_world r = w)" for k using entry by force
    have "\<forall>k. rows j k = rows i k \<or> rows j k = None \<and> (\<exists>r. rows i k = Some r \<and> cr_world r = w)" using R mem by blast
    moreover have "cr_world r \<noteq> w" if "do_index_cleared out" "rows j k = Some r" for k r
      using R mem x(2) that by (metis option.distinct(1))
    ultimately show ?thesis using R F by blast
  qed
qed

end

section \<open>The cache, whatever it stands on\<close>

text \<open>What one tab does from \<open>p\<close> on, each call with the arguments its caller has and however it ends.
  \<open>lost\<close> keeps the contents, by world and fingerprint, that the cache itself deleted under a row: those of a
  world whose rows could not be removed when it was discarded (sync.rs deletes its files all the same), and
  the content a read found unusable. Fetching the content again, or discarding the world, settles it.\<close>

inductive cache_run ::
    "'s blob_ops \<Rightarrow> 'i index_ops \<Rightarrow> (u8 list \<Rightarrow> u8 list) \<Rightarrow> (u8 list \<Rightarrow> cache_error + u8 list) \<Rightarrow>
      (u8 list \<Rightarrow> cache_error + u8 list option) \<Rightarrow> 's \<times> 'i \<Rightarrow> (uuid \<times> fingerprint) set \<Rightarrow> 's \<times> 'i \<Rightarrow> bool"
  for ops ix sha seal opn p where
  Start: "cache_run ops ix sha seal opn p {} p"
| Fetch: "cache_run ops ix sha seal opn p lost (s, i) \<Longrightarrow> record_fetched ops ix sha seal w k f b s i = (res, t, j) \<Longrightarrow>
    cache_run ops ix sha seal opn p (if res = Inr () then lost - {(w, f)} else lost) (t, j)"
| Read: "cache_run ops ix sha seal opn p lost (s, i) \<Longrightarrow> read_blob ops sha opn w f s = (found, t) \<Longrightarrow>
    cache_run ops ix sha seal opn p (if found = Inr None then insert (w, f) lost else lost) (t, i)"
| Sync: "cache_run ops ix sha seal opn p lost (s, i) \<Longrightarrow> apply_plan ops ix w plan s i = (out, t, j) \<Longrightarrow>
    cache_run ops ix sha seal opn p lost (t, j)"
| Budget: "cache_run ops ix sha seal opn p lost (s, i) \<Longrightarrow>
    enforce_budget ops ix quota open_world incoming s i = (spent, t, j) \<Longrightarrow> cache_run ops ix sha seal opn p lost (t, j)"
| Repair: "cache_run ops ix sha seal opn p lost (s, i) \<Longrightarrow> repair_world ops ix w s i = (mend, t, j) \<Longrightarrow>
    cache_run ops ix sha seal opn p lost (t, j)"
| Discard: "cache_run ops ix sha seal opn p lost (s, i) \<Longrightarrow> discard_world ops ix w s i = (gone, t, j) \<Longrightarrow>
    cache_run ops ix sha seal opn p (if do_index_cleared gone then lost - {w} \<times> UNIV else lost \<union> {w} \<times> UNIV) (t, j)"
| Touch: "cache_run ops ix sha seal opn p lost (s, i) \<Longrightarrow> index_touch ix k i = (res, j) \<Longrightarrow>
    cache_run ops ix sha seal opn p lost (s, j)"

context browser_cache
begin

lemma touch_effect:
  assumes "ok i" and "index_touch ix k i = (res, j)" and "served lost fs (rows i)"
  shows "ok j \<and> served lost fs (rows j)"
proof -
  consider "j = i" | r i1 where "rows i k = Some r" "i1 = snd (io_tick ix i)"
      "io_put ix k (touched r (fst (io_tick ix i))) i1 = (res, j)"
    using assms(2) get_done [OF assms(1), of k]
    by (auto simp: index_touch_def Let_def split: sum.splits option.splits prod.splits)
  then show ?thesis
  proof cases
    case (2 r i1)
    let ?r = "touched r (fst (io_tick ix i))"
    have i1: "rows i1 = rows i" "ok i1" using tick_done [OF assms(1)] 2(2) by simp_all
    have "ok j" using put_ok [OF i1(2), of k ?r] 2(3) by simp
    moreover have "rows j = rows i \<or> rows j = (rows i)(k \<mapsto> ?r)"
      using put_done [OF i1(2)] put_failed [OF i1(2)] 2(3) i1(1) by (cases res) simp_all
    moreover have "served lost fs ((rows i)(k \<mapsto> ?r))" using assms(3) 2(1) by (simp add: served_def touched_def)
    ultimately show ?thesis using assms(3) by auto
  qed (use assms in simp)
qed

lemma discard_served:
  assumes "ok i" and "discard_world ops ix w s i = (out, t, j)" and "served lost (files s) (rows i)"
  shows "ok j \<and> served (if do_index_cleared out then lost - {w} \<times> UNIV else lost \<union> {w} \<times> UNIV) (files t) (rows j)"
proof -
  have e: "ok j" "\<forall>v. v \<noteq> w \<longrightarrow> files t v = files s v" "\<forall>k r. rows j k = Some r \<longrightarrow> rows i k = Some r"
    "do_index_cleared out \<longrightarrow> (\<forall>k r. rows j k = Some r \<longrightarrow> cr_world r \<noteq> w)"
    using discard_effect [OF assms(1,2)] by (simp_all, metis option.distinct(1))
  have "whole (files t) (cr_world r) (cr_fingerprint r)"
    if "rows j k = Some r" "cr_world r \<noteq> w" "(cr_world r, cr_fingerprint r) \<notin> lost" for k r
    using that e(2,3) assms(3) unfolding served_def whole_def by metis
  then show ?thesis using e(1,4) by (auto simp: served_def)
qed

lemma read_served:
  assumes "read_blob ops sha opn w f s = (res, t)" and "served lost (files s) rs"
  shows "served (if res = Inr None then insert (w, f) lost else lost) (files t) rs"
proof -
  have "files t v g = files s v g \<or> v = w \<and> g = f \<and> res = Inr None" for v g
    using read_effect [OF assms(1), THEN conjunct2, rule_format, of v g] by blast
  then show ?thesis using assms(2) unfolding served_def whole_def by (metis insert_iff)
qed

lemma run_served:
  assumes "cache_run ops ix sha seal opn p lost q" and "\<forall>b c. seal b = Inr c \<longrightarrow> c \<noteq> []"
    and "ok (snd p)" and "served {} (files (fst p)) (rows (snd p))"
  shows "ok (snd q) \<and> served lost (files (fst q)) (rows (snd q))"
  using assms(1)
proof (induction rule: cache_run.induct)
  case Start
  show ?case using assms(3,4) by simp
next
  case (Fetch lost s i w k f b res t j)
  then have st: "ok i" "served lost (files s) (rows i)" by simp_all
  from fetch_effect [OF st(1) Fetch(2) assms(2) st(2)] show ?case by simp
next
  case (Read lost s i w f found t)
  then have st: "ok i" "served lost (files s) (rows i)" by simp_all
  from read_served [OF Read(2) st(2)] st(1) show ?case by simp
next
  case (Sync lost s i w plan out t j)
  then have st: "ok i" "served lost (files s) (rows i)" by simp_all
  from apply_plan_effect(1,2) [OF st(1) Sync(2)] evicts_served st(2) show ?case by fastforce
next
  case (Budget lost s i quota w n out t j)
  then have st: "ok i" "served lost (files s) (rows i)" by simp_all
  from enforce_budget_effect [OF st(1) Budget(2)] evicts_served st(2) show ?case by fastforce
next
  case (Repair lost s i w out t j)
  then have st: "ok i" "served lost (files s) (rows i)" by simp_all
  from repair_evicts [OF st(1) Repair(2)] evicts_served st(2) show ?case by fastforce
next
  case (Discard lost s i w out t j)
  then have st: "ok i" "served lost (files s) (rows i)" by simp_all
  from discard_served [OF st(1) Discard(2) st(2)] show ?case by simp
next
  case (Touch lost s i k res j)
  then have st: "ok i" "served lost (files s) (rows i)" by simp_all
  from touch_effect [OF st(1) Touch(2) st(2)] show ?case by simp
qed

end

interpretation memory_cache: browser_cache memory_ops memory_raw index_store_ops index_rows "\<lambda>i. bt_ok (is_rows i)" ..

lemma memory_browser_cache: "browser_cache memory_ops memory_raw index_store_ops index_rows (\<lambda>i. bt_ok (is_rows i))" ..


text \<open>C13: No row lies about the disk: whatever files and index the cache stands on, and however its calls end,
  every run of fetching, reading, syncing, keeping to the budget, repairing, touching and discarding that
  starts with each row's content readable leaves each row's content readable, but for what the run itself
  deleted under a row: content a read found unusable, and the content of a world whose rows could not be
  removed when it was discarded, until it is fetched again or the world's rows are. The session key is taken
  never to seal content into an empty file.\<close>

theorem client_keeps_rows_served:
  assumes "browser_cache ops files ix rows ok" and "\<forall>b c. seal b = Inr c \<longrightarrow> c \<noteq> []"
    and "ok i" and "served {} (files s) (rows i)" and "cache_run ops ix sha seal opn (s, i) lost (t, j)"
  shows "served lost (files t) (rows j)"
  using browser_cache.run_served [OF assms(1) assms(5) assms(2)] assms(3,4) by simp

definition sealing :: "u8 list \<Rightarrow> cache_error + u8 list" where "sealing b = Inr (7 # b)"
definition unsealing :: "u8 list \<Rightarrow> cache_error + u8 list option" where
  "unsealing c = (case c of [] \<Rightarrow> Inl (Bad_envelope 0) | m # b \<Rightarrow> Inr (if m = 7 then Some b else None))"

definition sha_pad :: "u8 list \<Rightarrow> u8 list" where "sha_pad b = take 32 (b @ replicate 32 0)"

lemma sealing_nonempty: "\<forall>b c. sealing b = Inr c \<longrightarrow> c \<noteq> []" by (auto simp: sealing_def)

definition first_fetch :: "(cache_error + unit) \<times> memory \<times> index_store" where
  "first_fetch = record_fetched memory_ops index_store_ops sha_pad sealing 9 (CanvasAsset 4) (sha_pad [1, 2]) [1, 2] [] (index_open [])"

lemma client_keeps_rows_served_witness:
  "served {} (memory_raw (fst (snd first_fetch))) (index_rows (snd (snd first_fetch))) \<and>
   index_rows (snd (snd first_fetch)) (CanvasAsset 4) \<noteq> None"
proof
  have done_: "fst first_fetch = Inr ()" by code_simp
  have "record_fetched memory_ops index_store_ops sha_pad sealing 9 (CanvasAsset 4) (sha_pad [1, 2]) [1, 2] [] (index_open []) =
      (Inr (), fst (snd first_fetch), snd (snd first_fetch))"
    using done_ unfolding first_fetch_def by (metis prod.collapse)
  from cache_run.Fetch [OF cache_run.Start this, of unsealing]
  have run: "cache_run memory_ops index_store_ops sha_pad sealing unsealing ([], index_open []) {}
      (fst (snd first_fetch), snd (snd first_fetch))" by simp
  show "served {} (memory_raw (fst (snd first_fetch))) (index_rows (snd (snd first_fetch)))"
    by (rule client_keeps_rows_served [OF memory_browser_cache sealing_nonempty _ _ run])
      (simp_all add: index_open_def served_def index_rows_def)
  show "index_rows (snd (snd first_fetch)) (CanvasAsset 4) \<noteq> None" by code_simp
qed


context browser_cache
begin

lemma round_trip:
  assumes "\<forall>b c. seal b = Inr c \<longrightarrow> c \<noteq> [] \<and> opn c = Inr (Some b)"
    and "write_blob ops sha seal w f b s = (Inr (), t)" and "files u w f = files t w f" and "bo_read ops w f u = Inr found"
  shows "read_blob ops sha opn w f u = (Inr (Some b), u) \<and> sha b = f \<and> (\<forall>v g. v \<noteq> w \<or> g \<noteq> f \<longrightarrow> files t v g = files s v g)"
proof -
  have "\<forall>b c. seal b = Inr c \<longrightarrow> c \<noteq> []" using assms(1) by blast
  note W = write_effect [OF assms(2) this]
  then obtain c where c: "seal b = Inr c" "files t w f = Some c" "sha b = f" by blast
  then have "found = Some c" using read_done [OF assms(4)] assms(1,3) by (auto simp: whole_iff)
  then have "read_blob ops sha opn w f u = (Inr (Some b), u)"
    using assms(1,4) c by (simp add: read_blob_def verify_bytes_def of_bytes_def)
  then show ?thesis using W c(3) by blast
qed

lemma budget_spares:
  assumes "ok i" and "enforce_budget ops ix quota w incoming s i = (out, t, j)"
  shows "files t w = files s w \<and> (\<forall>k r. cr_world r = w \<longrightarrow> rows j k = Some r \<longleftrightarrow> rows i k = Some r) \<and>
    (\<forall>k. rows j k = rows i k \<or> rows j k = None) \<and>
    (\<forall>v f. files t v f = files s v f \<or> files t v f = None \<and> \<not> named (rows j) v f)"
proof -
  have e: "evicts (- {w}) {k. \<exists>r. rows i k = Some r \<and> cr_world r \<noteq> w} (files s, rows i) (files t, rows j)"
    using enforce_budget_effect [OF assms] by blast
  then have r: "rows j k = rows i k \<or> rows j k = None \<and> (\<exists>r. rows i k = Some r \<and> cr_world r \<noteq> w)" for k
    by (auto simp: evicts_def)
  have f: "files t v f = files s v f \<or> v \<noteq> w \<and> files t v f = None \<and> \<not> named (rows j) v f" for v f
    using e by (auto simp: evicts_def)
  have "rows j k = Some r \<longleftrightarrow> rows i k = Some r" if "cr_world r = w" for k r using r [of k] that by auto
  moreover have "files t w = files s w" using f [of w] by (simp add: fun_eq_iff)
  moreover have "rows j k = rows i k \<or> rows j k = None" for k using r [of k] by (elim disjE conjE) (rule disjI1, assumption, rule disjI2, assumption)
  moreover have "files t v f = files s v f \<or> files t v f = None \<and> \<not> named (rows j) v f" for v f
    using f [of v f] by (elim disjE conjE) (rule disjI1, assumption, rule disjI2, rule conjI)
  ultimately show ?thesis by (intro conjI allI impI)
qed

end

text \<open>C20: What was written can be read: content stored under the fingerprint the server promised reads back as it
  was for as long as its file is not touched, and no file but its own is changed by storing it.\<close>

theorem stored_bytes_read_back:
  assumes "browser_cache ops files ix rows ok"
    and "\<forall>b c. seal b = Inr c \<longrightarrow> c \<noteq> [] \<and> opn c = Inr (Some b)"
    and "write_blob ops sha seal w f b s = (Inr (), t)"
    and "files u w f = files t w f" and "bo_read ops w f u = Inr found"
  shows "read_blob ops sha opn w f u = (Inr (Some b), u) \<and> sha b = f \<and> (\<forall>v g. v \<noteq> w \<or> g \<noteq> f \<longrightarrow> files t v g = files s v g)"
  by (rule browser_cache.round_trip [OF assms])

lemma sealing_opens: "\<forall>b c. sealing b = Inr c \<longrightarrow> c \<noteq> [] \<and> unsealing c = Inr (Some b)"
  by (auto simp: sealing_def unsealing_def)

definition first_write :: memory where
  "first_write = snd (write_blob memory_ops sha_pad sealing 9 (sha_pad [1, 2]) [1, 2] [])"

lemma first_write_done: "write_blob memory_ops sha_pad sealing 9 (sha_pad [1, 2]) [1, 2] [] = (Inr (), first_write)"
  by (simp add: first_write_def write_blob_def verify_bytes_def of_bytes_def sealing_def memory_ops_def write_interleaved_def Let_def)

lemma stored_bytes_read_back_witness:
  "read_blob memory_ops sha_pad unsealing 9 (sha_pad [1, 2]) first_write = (Inr (Some [1, 2]), first_write)"
proof -
  have "bo_read memory_ops 9 (sha_pad [1, 2]) first_write = Inr (Some [7, 1, 2])" by code_simp
  from stored_bytes_read_back [OF memory_browser_cache sealing_opens first_write_done refl this] show ?thesis by blast
qed

text \<open>C19: A read hands out only bytes that hash to the fingerprint asked for, as the stored file opens. It changes
  nothing but that file, and that only by deleting it where it is finished and does not open to such bytes: never
  a file another tab is still writing.\<close>

theorem reads_serve_only_promised:
  assumes "browser_cache ops files ix rows ok" and "read_blob ops sha opn w f s = (res, t)"
  shows "(\<forall>b. res = Inr (Some b) \<longrightarrow> sha b = f \<and> t = s \<and> (\<exists>c. files s w f = Some c \<and> opn c = Inr (Some b))) \<and>
    (\<forall>v g. files t v g = files s v g \<or>
      v = w \<and> g = f \<and> res = Inr None \<and> files t v g = None \<and>
      (\<exists>c. files s w f = Some c \<and> c \<noteq> [] \<and> \<not> (\<exists>b. opn c = Inr (Some b) \<and> sha b = f)))"
  by (rule browser_cache.read_effect [OF assms])

text \<open>A store with a file another tab has only created and one that does not open.\<close>

definition half_written :: memory where
  "half_written = [(memory_key 9 (sha_pad [1]), []), (memory_key 9 (sha_pad [2]), [3])]"

lemma reads_serve_only_promised_witness:
  "memory_raw (snd (read_blob memory_ops sha_pad unsealing 9 (sha_pad [1]) half_written)) 9 (sha_pad [1]) = Some [] \<and>
   memory_raw (snd (read_blob memory_ops sha_pad unsealing 9 (sha_pad [2]) half_written)) 9 (sha_pad [2]) = None"
proof
  obtain res t where run: "read_blob memory_ops sha_pad unsealing 9 (sha_pad [1]) half_written = (res, t)" by fastforce
  have raw: "memory_raw half_written 9 (sha_pad [1]) = Some []" by code_simp
  have "memory_raw t 9 (sha_pad [1]) = memory_raw half_written 9 (sha_pad [1])"
  proof (rule ccontr)
    assume "memory_raw t 9 (sha_pad [1]) \<noteq> memory_raw half_written 9 (sha_pad [1])"
    then have "\<exists>c. memory_raw half_written 9 (sha_pad [1]) = Some c \<and> c \<noteq> []"
      using conjunct2 [OF reads_serve_only_promised [OF memory_browser_cache run], rule_format, of 9 "sha_pad [1]"] by blast
    then show False using raw by simp
  qed
  then show "memory_raw (snd (read_blob memory_ops sha_pad unsealing 9 (sha_pad [1]) half_written)) 9 (sha_pad [1]) = Some []"
    using run raw by simp
  show "memory_raw (snd (read_blob memory_ops sha_pad unsealing 9 (sha_pad [2]) half_written)) 9 (sha_pad [2]) = None"
    by code_simp
qed

text \<open>C21: Keeping to the budget never touches the world that is open: its rows and its files are as they were.
  Elsewhere rows are only dropped, and a file goes only where no row of its world names it any more.\<close>

theorem budget_spares_open_world:
  assumes "browser_cache ops files ix rows ok" and "ok i" and "enforce_budget ops ix quota w incoming s i = (out, t, j)"
  shows "files t w = files s w \<and> (\<forall>k r. cr_world r = w \<longrightarrow> rows j k = Some r \<longleftrightarrow> rows i k = Some r) \<and>
    (\<forall>k. rows j k = rows i k \<or> rows j k = None) \<and>
    (\<forall>v f. files t v f = files s v f \<or> files t v f = None \<and> \<not> named (rows j) v f)"
  by (rule browser_cache.budget_spares [OF assms])

text \<open>Two worlds with an item each, and room for one of them.\<close>

definition two_worlds :: "memory \<times> index_store" where
  "two_worlds = ([(memory_key 8 (sha_pad [1]), [7, 1]), (memory_key 9 (sha_pad [2]), [7, 2])],
     index_open [(CanvasAsset 1, \<lparr>cr_fingerprint = sha_pad [1], cr_size = 60, cr_read = 1, cr_world = 8\<rparr>),
       (CanvasAsset 2, \<lparr>cr_fingerprint = sha_pad [2], cr_size = 60, cr_read = 2, cr_world = 9\<rparr>)])"

definition over_budget :: "budget_outcome \<times> memory \<times> index_store" where
  "over_budget = enforce_budget memory_ops index_store_ops (Some 0) 9 0 (fst two_worlds) (snd two_worlds)"

lemma budget_spares_open_world_witness:
  "index_rows (snd (snd over_budget)) (CanvasAsset 1) = None \<and> memory_raw (fst (snd over_budget)) 8 (sha_pad [1]) = None \<and>
   memory_raw (fst (snd over_budget)) 9 = memory_raw (fst two_worlds) 9"
proof (intro conjI)
  have ok: "bt_ok (is_rows (snd two_worlds))" by code_simp
  have run: "enforce_budget memory_ops index_store_ops (Some 0) 9 0 (fst two_worlds) (snd two_worlds) =
      (fst over_budget, fst (snd over_budget), snd (snd over_budget))" by (simp add: over_budget_def)
  show "memory_raw (fst (snd over_budget)) 9 = memory_raw (fst two_worlds) 9"
    using budget_spares_open_world [OF memory_browser_cache ok run] by blast
  show "index_rows (snd (snd over_budget)) (CanvasAsset 1) = None" by code_simp
  show "memory_raw (fst (snd over_budget)) 8 (sha_pad [1]) = None" by code_simp
qed

text \<open>C15: Repair makes the index and the disk of a world agree without touching what it cannot know: it drops a
  row only where that row's file is missing, and deletes a file only where it is finished and no row names it; an
  unfinished file, a file a row names and every other world stay. Where none of its calls failed, every row left
  has its file and every finished file has its row.\<close>

theorem repair_mends_world:
  assumes "browser_cache ops files ix rows ok" and "ok i" and "repair_world ops ix w s i = (out, t, j)"
  shows "ok j \<and>
    (\<forall>k. rows j k = rows i k \<or> rows j k = None \<and>
      (\<exists>r. rows i k = Some r \<and> cr_world r = w \<and> (files s w (cr_fingerprint r) = None \<or> length (cr_fingerprint r) \<noteq> 32))) \<and>
    (\<forall>v f. files t v f = files s v f \<or> v = w \<and> files t v f = None \<and> whole (files s) w f \<and> \<not> named (rows i) w f) \<and>
    (rp_failed out = 0 \<longrightarrow>
      (\<forall>k r. rows j k = Some r \<longrightarrow> cr_world r = w \<longrightarrow> files t w (cr_fingerprint r) \<noteq> None) \<and>
      (\<forall>f. length f = 32 \<longrightarrow> whole (files t) w f \<longrightarrow> named (rows j) w f))"
  by (rule browser_cache.repair_effect [OF assms])

definition torn :: "memory \<times> index_store" where
  "torn = (half_written, index_open [(CanvasAsset 1, \<lparr>cr_fingerprint = sha_pad [5], cr_size = 60, cr_read = 1, cr_world = 9\<rparr>)])"

definition mended :: "repair_outcome \<times> memory \<times> index_store" where
  "mended = repair_world memory_ops index_store_ops 9 (fst torn) (snd torn)"

lemma repair_mends_world_witness:
  "index_rows (snd (snd mended)) (CanvasAsset 1) = None \<and> memory_raw (fst (snd mended)) 9 (sha_pad [2]) = None \<and>
   memory_raw (fst (snd mended)) 9 (sha_pad [1]) = Some []"
proof (intro conjI)
  have ok: "bt_ok (is_rows (snd torn))" by code_simp
  have run: "repair_world memory_ops index_store_ops 9 (fst torn) (snd torn) = (fst mended, fst (snd mended), snd (snd mended))"
    by (simp add: mended_def)
  have raw: "memory_raw (fst torn) 9 (sha_pad [1]) = Some []" by code_simp
  then have "\<not> whole (memory_raw (fst torn)) 9 (sha_pad [1])" by (simp add: whole_iff)
  then show "memory_raw (fst (snd mended)) 9 (sha_pad [1]) = Some []"
    using repair_mends_world [OF memory_browser_cache ok run] raw by metis
  show "index_rows (snd (snd mended)) (CanvasAsset 1) = None" by code_simp
  show "memory_raw (fst (snd mended)) 9 (sha_pad [2]) = None" by code_simp
qed

end
