(* ===== verification/Cache_Settle.thy ===== *)
theory Cache_Settle
  imports Cache_Holds
begin

text \<open>
  Opening a world, from the client's manifest to the content it goes on to fetch
  (crates/thunderforge-engine/src/plugins/cached_assets/wasm_sync.rs: run_sync, publish_fingerprints, prefetch and
  fetch_one; crates/thunderforge-cache-browser/src/prefetch.rs; SyncError of sync.rs). The server is a function from
  what the client says it holds to a plan or a refusal; what the tab is doing meanwhile, and the bytes the network
  or a peer has for an item, come as a list of moments.
\<close>

section \<open>The queue of a visit\<close>

definition visit_budget_bytes :: u64 where "visit_budget_bytes = 64 * 1024 * 1024"

record prefetch_item =
  pf_asset :: uuid
  pf_fingerprint :: fingerprint
  pf_size :: u64

record tab_pressure =
  tp_open_world :: uuid
  tp_epoch :: u64
  tp_demand :: nat
  tp_in_use :: u64
  tp_limit :: u64
  tp_may_store :: bool

datatype stop_reason = PlanExhausted | VisitBudget | WorldChanged | PlanSuperseded | NoRoom | StoreClosed

datatype prefetch_step = FetchStep prefetch_item | YieldStep | StopStep stop_reason

record prefetch_queue =
  pq_world :: uuid
  pq_epoch :: u64
  pq_queued :: "prefetch_item list"
  pq_spent :: u64
  pq_budget :: u64

definition from_plan :: "uuid \<Rightarrow> u64 \<Rightarrow> sync_plan \<Rightarrow> prefetch_queue" where
  "from_plan w epoch plan =
     \<lparr>pq_world = w, pq_epoch = epoch,
      pq_queued = List.map_filter (\<lambda>p. case pi_id p of
          CanvasAsset a \<Rightarrow> Some \<lparr>pf_asset = a, pf_fingerprint = pi_fingerprint p, pf_size = pi_size p\<rparr>
        | SceneState _ \<Rightarrow> None) (sp_fetch plan),
      pq_spent = 0, pq_budget = visit_budget_bytes\<rparr>"

definition sat_add :: "u64 \<Rightarrow> u64 \<Rightarrow> u64" where
  "sat_add a b = (if unat a + unat b \<le> u64_max then a + b else - 1)"

definition step :: "tab_pressure \<Rightarrow> prefetch_queue \<Rightarrow> prefetch_step \<times> prefetch_queue" where
  "step pr q =
     (if tp_open_world pr \<noteq> pq_world q then (StopStep WorldChanged, q)
      else if tp_epoch pr \<noteq> pq_epoch q then (StopStep PlanSuperseded, q)
      else if \<not> tp_may_store pr then (StopStep StoreClosed, q)
      else if 0 < tp_demand pr then (YieldStep, q)
      else case pq_queued q of
        [] \<Rightarrow> (StopStep PlanExhausted, q)
      | item # rest \<Rightarrow>
          (if pq_budget q < sat_add (pq_spent q) (pf_size item) then (StopStep VisitBudget, q)
           else if admit_speculative (tp_in_use pr) (tp_limit pr) (pf_size item) = Stop then (StopStep NoRoom, q)
           else (FetchStep item, q\<lparr>pq_queued := rest\<rparr>)))"

definition record_stored :: "u64 \<Rightarrow> prefetch_queue \<Rightarrow> prefetch_queue" where
  "record_stored n q = q\<lparr>pq_spent := sat_add (pq_spent q) n\<rparr>"

section \<open>Fetching\<close>

text \<open>\<open>got\<close> is what a peer or the server gave, none where neither did or the index could not be borrowed.\<close>

definition fetch_one ::
    "'s blob_ops \<Rightarrow> 'i index_ops \<Rightarrow> (u8 list \<Rightarrow> u8 list) \<Rightarrow> (u8 list \<Rightarrow> cache_error + u8 list) \<Rightarrow> uuid \<Rightarrow> prefetch_item \<Rightarrow>
      u8 list option \<Rightarrow> 's \<Rightarrow> 'i \<Rightarrow> u64 \<times> 's \<times> 'i" where
  "fetch_one ops ix sha seal w item got s i =
     (if has_blob ops w (pf_fingerprint item) s = Inr True then (0, s, i)
      else case got of
        None \<Rightarrow> (0, s, i)
      | Some b \<Rightarrow>
          (case record_fetched ops ix sha seal w (CanvasAsset (pf_asset item)) (pf_fingerprint item) b s i of
             (Inr _, t, j) \<Rightarrow> (of_nat (length b), t, j)
           | (Inl _, t, j) \<Rightarrow> (0, t, j)))"

record moment =
  mo_world :: uuid
  mo_epoch :: u64
  mo_demand :: nat
  mo_may_store :: bool
  mo_bytes :: "u8 list option"

definition pressure_at :: "moment \<Rightarrow> u64 \<Rightarrow> u64 \<Rightarrow> tab_pressure" where
  "pressure_at m in_use limit =
     \<lparr>tp_open_world = mo_world m, tp_epoch = mo_epoch m, tp_demand = mo_demand m, tp_in_use = in_use, tp_limit = limit,
      tp_may_store = mo_may_store m\<rparr>"

definition prefetch_max_yields :: nat where "prefetch_max_yields = 480"

text \<open>The loop over the moments there are, with the items fetched and the bytes each stored.\<close>

fun prefetch ::
    "'s blob_ops \<Rightarrow> 'i index_ops \<Rightarrow> (u8 list \<Rightarrow> u8 list) \<Rightarrow> (u8 list \<Rightarrow> cache_error + u8 list) \<Rightarrow> moment list \<Rightarrow>
      prefetch_queue \<Rightarrow> u64 \<Rightarrow> u64 \<Rightarrow> nat \<Rightarrow> 's \<Rightarrow> 'i \<Rightarrow> (prefetch_item \<times> u64) list \<times> 's \<times> 'i" where
  "prefetch ops ix sha seal [] q in_use limit yields s i = ([], s, i)"
| "prefetch ops ix sha seal (m # ms) q in_use limit yields s i =
     (case step (pressure_at m in_use limit) q of
        (FetchStep item, q1) \<Rightarrow>
          let (n, t, j) = fetch_one ops ix sha seal (pq_world q) item (mo_bytes m) s i;
              (trace, u, k) = prefetch ops ix sha seal ms (record_stored n q1) (sat_add in_use n) limit 0 t j in
          ((item, n) # trace, u, k)
      | (YieldStep, q1) \<Rightarrow>
          (if prefetch_max_yields < yields + 1 then ([], s, i)
           else prefetch ops ix sha seal ms q1 in_use limit (yields + 1) s i)
      | (StopStep _, q1) \<Rightarrow> ([], s, i))"

section \<open>The sync\<close>

datatype sync_error = Transport ustring | Forbidden ustring | Server ustring | Malformed ustring

definition publish_fingerprints :: "'i index_ops \<Rightarrow> uuid \<Rightarrow> sync_plan \<Rightarrow> 'i \<Rightarrow> (uuid \<times> fingerprint) list" where
  "publish_fingerprints ix w plan i =
     foldl (\<lambda>entries p. case pi_id p of
         CanvasAsset a \<Rightarrow> filter (\<lambda>(b, f). b \<noteq> a) entries @ [(a, pi_fingerprint p)]
       | SceneState _ \<Rightarrow> entries) (canvas_fingerprints ix w i) (sp_fetch plan)"

datatype sync_report =
    Synced sync_plan apply_outcome repair_outcome budget_outcome "(uuid \<times> fingerprint) list"
  | Revoked discard_outcome
  | Degraded "(uuid \<times> fingerprint) list"

definition run_sync ::
    "'s blob_ops \<Rightarrow> 'i index_ops \<Rightarrow> uuid \<Rightarrow> u64 option \<Rightarrow> (held_item list \<Rightarrow> sync_error + sync_plan) \<Rightarrow> 's \<Rightarrow> 'i \<Rightarrow>
      sync_report \<times> 's \<times> 'i" where
  "run_sync ops ix w quota server s i =
     (case server (manifest_to_wire (manifest_for_open_world ix w i)) of
        Inl (Forbidden _) \<Rightarrow> (let (gone, t, j) = discard_world ops ix w s i in (Revoked gone, t, j))
      | Inl _ \<Rightarrow> (Degraded (publish_fingerprints ix w \<lparr>sp_fetch = [], sp_evict = []\<rparr> i), s, i)
      | Inr plan \<Rightarrow>
          let (applied, s1, i1) = apply_plan ops ix w plan s i;
              (repaired, s2, i2) = repair_world ops ix w s1 i1;
              (budget, s3, i3) = enforce_budget ops ix quota w (sum_list (map pi_size (sp_fetch plan))) s2 i2 in
          (Synced plan applied repaired budget (publish_fingerprints ix w plan i3), s3, i3))"

section \<open>What the client holds afterwards\<close>

text \<open>Under which fingerprint the index has an item of a world.\<close>

definition holds :: "uuid \<Rightarrow> rows \<Rightarrow> item_id \<Rightarrow> fingerprint option" where
  "holds w rs k = (case rs k of None \<Rightarrow> None | Some r \<Rightarrow> if cr_world r = w then Some (cr_fingerprint r) else None)"

lemma holds_Some: "holds w rs k = Some f \<longleftrightarrow> (\<exists>r. rs k = Some r \<and> cr_world r = w \<and> cr_fingerprint r = f)"
  by (auto simp: holds_def split: option.split)

lemma holds_of_rows: "rs k = qs k \<Longrightarrow> holds w rs k = holds w qs k"
  by (simp add: holds_def)

lemma manifest_items:
  "mf_items (foldl (\<lambda>m (k, r). if cr_world r = w then manifest_insert k (cr_fingerprint r) m else m) m l) =
     foldl (\<lambda>m (k, f). bt_insert k f m) (mf_items m)
       (map (\<lambda>(k, r). (k, cr_fingerprint r)) (filter (\<lambda>(k, r). cr_world r = w) l))"
  by (induction l arbitrary: m) (auto simp: manifest_insert_def)

lemma wire_held:
  assumes "bt_ok (mf_items m)"
  shows "map_of (held_by_id (manifest_to_wire m)) = map_of (mf_items m)"
  using map_of_rev_distinct [OF btree.keys_distinct [OF assms]]
  by (simp add: held_by_id_def manifest_to_wire_def map_of_bt_collect comp_def case_prod_beta)

lemma step_fetch:
  "step pr q = (FetchStep item, q1) \<Longrightarrow> pq_queued q = item # pq_queued q1 \<and> pq_world q1 = pq_world q"
  by (auto simp: step_def split: if_splits list.splits)

lemma step_yield: "step pr q = (YieldStep, q1) \<Longrightarrow> q1 = q"
  by (auto simp: step_def split: if_splits list.splits)

text \<open>The queue holds what the plan names, and names each asset once where the plan does.\<close>

lemma from_plan_items:
  "item \<in> set (pq_queued (from_plan w epoch plan)) \<longleftrightarrow>
     (\<exists>p \<in> set (sp_fetch plan). pi_id p = CanvasAsset (pf_asset item) \<and> pf_fingerprint item = pi_fingerprint p \<and> pf_size item = pi_size p)"
proof -
  have "item \<in> set (pq_queued (from_plan w epoch plan)) \<longleftrightarrow> (\<exists>p \<in> set (sp_fetch plan). (case pi_id p of
      CanvasAsset a \<Rightarrow> Some \<lparr>pf_asset = a, pf_fingerprint = pi_fingerprint p, pf_size = pi_size p\<rparr> | SceneState _ \<Rightarrow> None) = Some item)"
    by (simp add: from_plan_def in_map_filter)
  also have "\<dots> \<longleftrightarrow> (\<exists>p \<in> set (sp_fetch plan). pi_id p = CanvasAsset (pf_asset item) \<and>
      pf_fingerprint item = pi_fingerprint p \<and> pf_size item = pi_size p)"
    by (intro bex_cong refl) (auto split: item_id.splits)
  finally show ?thesis .
qed

context browser_cache
begin

lemma manifest_held:
  assumes i: "ok i" and l: "index_for_world ix w i = Inr l"
  shows "map_of (held_by_id (manifest_to_wire (manifest_for_open_world ix w i))) k = holds w (rows i) k"
proof -
  let ?m = "manifest_for_open_world ix w i"
  let ?kfs = "map (\<lambda>(k, r). (k, cr_fingerprint r)) (filter (\<lambda>(k, r). cr_world r = w) l)"
  note entry = for_world_done [OF i l]
  have items: "mf_items ?m = foldl (\<lambda>m (k, f). bt_insert k f m) [] ?kfs"
    unfolding manifest_for_open_world_def manifest_for_world_def manifest_items by (simp add: l manifest_new_def)
  then have ok: "bt_ok (mf_items ?m)" "map_of (mf_items ?m) = map_of (rev ?kfs)"
    using btree.ins_all [of "[]" ?kfs] by simp_all
  have d: "distinct (map fst ?kfs)"
    using entry distinct_map_filter [of fst l] by (simp add: comp_def case_prod_beta)
  have "map_of ?kfs k = Some f \<longleftrightarrow> holds w (rows i) k = Some f" for f
    unfolding map_of_eq_Some_iff [OF d] holds_Some using entry by force
  then have "map_of ?kfs k = holds w (rows i) k" by (cases "holds w (rows i) k") (simp, metis not_None_eq, simp)
  then show ?thesis unfolding wire_held [OF ok(1)] ok(2) map_of_rev_distinct [OF d] .
qed

lemma stored_row:
  assumes i: "ok i" and run: "record_fetched ops ix sha seal w k f b s i = (res, t, j)"
  shows "ok j \<and> (if res = Inr () then \<exists>r. rows j = (rows i)(k \<mapsto> r) \<and> cr_fingerprint r = f \<and> cr_world r = w else rows j = rows i)"
proof -
  obtain res1 where w: "write_blob ops sha seal w f b s = (res1, t)"
    using run by (auto simp: record_fetched_def Let_def split: sum.splits prod.splits)
  show ?thesis
  proof (cases res1)
    case (Inl e)
    then show ?thesis using run w i by (auto simp: record_fetched_def)
  next
    case (Inr u)
    define i1 where "i1 = snd (io_tick ix i)"
    define r where "r = \<lparr>cr_fingerprint = f, cr_size = of_nat (length b), cr_read = fst (io_tick ix i), cr_world = w\<rparr>"
    have i1: "rows i1 = rows i" "ok i1" using tick_done [OF i] by (simp_all add: i1_def)
    have put: "io_put ix k r i1 = (res, j)"
      using run w Inr by (auto simp: record_fetched_def Let_def i1_def r_def split: prod.splits)
    have j: "ok j" using put_ok [OF i1(2), of k r] put by simp
    show ?thesis
    proof (cases res)
      case (Inl e)
      then show ?thesis using put_failed [OF i1(2)] put i1(1) j by simp
    next
      case (Inr u)
      then have "rows j = (rows i)(k \<mapsto> r)" using put_done [OF i1(2)] put i1(1) by simp
      then show ?thesis using Inr j by (auto simp: r_def)
    qed
  qed
qed

text \<open>One fetch leaves every item as it was but its own, and that as it was or under the fingerprint named.\<close>

lemma fetch_one_row:
  assumes i: "ok i" and run: "fetch_one ops ix sha seal w item got s i = (n, t, j)"
  shows "ok j" and "k \<noteq> CanvasAsset (pf_asset item) \<Longrightarrow> rows j k = rows i k"
    and "holds w (rows j) k = holds w (rows i) k \<or> k = CanvasAsset (pf_asset item) \<and> holds w (rows j) k = Some (pf_fingerprint item)"
    and "n \<noteq> 0 \<Longrightarrow> holds w (rows j) (CanvasAsset (pf_asset item)) = Some (pf_fingerprint item)"
proof -
  consider (none) "j = i" "n = 0"
    | (stored) b where "record_fetched ops ix sha seal w (CanvasAsset (pf_asset item)) (pf_fingerprint item) b s i = (Inr (), t, j)"
    | (failed) b e where "record_fetched ops ix sha seal w (CanvasAsset (pf_asset item)) (pf_fingerprint item) b s i = (Inl e, t, j)" "n = 0"
    using run by (auto simp: fetch_one_def split: if_splits option.splits prod.splits sum.splits)
  then have "ok j \<and> (rows j = rows i \<and> n = 0 \<or>
      (\<exists>r. rows j = (rows i)(CanvasAsset (pf_asset item) \<mapsto> r) \<and> cr_fingerprint r = pf_fingerprint item \<and> cr_world r = w))"
  proof cases
    case none
    then show ?thesis using i by simp
  next
    case stored
    from stored_row [OF i stored] show ?thesis by simp
  next
    case failed
    from stored_row [OF i failed(1)] failed(2) show ?thesis by simp
  qed
  then show "ok j" "k \<noteq> CanvasAsset (pf_asset item) \<Longrightarrow> rows j k = rows i k"
    "holds w (rows j) k = holds w (rows i) k \<or> k = CanvasAsset (pf_asset item) \<and> holds w (rows j) k = Some (pf_fingerprint item)"
    "n \<noteq> 0 \<Longrightarrow> holds w (rows j) (CanvasAsset (pf_asset item)) = Some (pf_fingerprint item)"
    by (auto simp: holds_def split: if_splits)
qed

end

text \<open>The items of a queue name one fingerprint for an asset.\<close>

definition agreeing :: "prefetch_item list \<Rightarrow> bool" where
  "agreeing items \<longleftrightarrow> (\<forall>a \<in> set items. \<forall>b \<in> set items. pf_asset a = pf_asset b \<longrightarrow> pf_fingerprint a = pf_fingerprint b)"

lemma agreeing_tl: "agreeing (a # items) \<Longrightarrow> agreeing items"
  unfolding agreeing_def by (meson list.set_intros(2))

lemma agreeingD: "agreeing items \<Longrightarrow> a \<in> set items \<Longrightarrow> b \<in> set items \<Longrightarrow> pf_asset a = pf_asset b \<Longrightarrow>
    pf_fingerprint a = pf_fingerprint b"
  unfolding agreeing_def by blast

context browser_cache
begin

lemma prefetch_rows:
  assumes "ok i" and "pq_world q = w"
    and "agreeing (pq_queued q)"
    and "prefetch ops ix sha seal ms q in_use limit y s i = (trace, u, m)"
  shows "(\<forall>k. holds w (rows m) k = holds w (rows i) k \<or>
      (\<exists>item \<in> set (pq_queued q). k = CanvasAsset (pf_asset item) \<and> holds w (rows m) k = Some (pf_fingerprint item))) \<and>
    (\<forall>(item, n) \<in> set trace. item \<in> set (pq_queued q) \<and>
      (n \<noteq> 0 \<longrightarrow> holds w (rows m) (CanvasAsset (pf_asset item)) = Some (pf_fingerprint item)))"
  using assms
proof (induction ms arbitrary: q in_use y s i trace)
  case (Cons p ms)
  obtain st q1 where st: "step (pressure_at p in_use limit) q = (st, q1)" by fastforce
  show ?case
  proof (cases st)
    case (FetchStep item)
    obtain n t j where one: "fetch_one ops ix sha seal w item (mo_bytes p) s i = (n, t, j)" by (metis prod_cases3)
    obtain rest where more: "prefetch ops ix sha seal ms (record_stored n q1) (sat_add in_use n) limit 0 t j = (rest, u, m)"
      "trace = (item, n) # rest"
      using Cons.prems(2,4) st FetchStep one by (auto simp: Let_def split: prod.splits)
    have q: "pq_queued q = item # pq_queued q1" "pq_world q1 = w" using step_fetch st FetchStep Cons.prems(2) by auto
    let ?q = "record_stored n q1"
    have rq: "pq_queued ?q = pq_queued q1" "pq_world ?q = w" using q(2) by (simp_all add: record_stored_def)
    have agree: "agreeing (pq_queued ?q)"
      using Cons.prems(3) agreeing_tl unfolding rq(1) q(1) by blast
    note F = fetch_one_row [OF Cons.prems(1) one]
    note IH = Cons.IH [OF F(1) rq(2) agree more(1)]
    have kept: "holds w (rows m) k = holds w (rows j) k \<or>
        (\<exists>item \<in> set (pq_queued q1). k = CanvasAsset (pf_asset item) \<and> holds w (rows m) k = Some (pf_fingerprint item))" for k
      using IH rq(1) by simp
    have "holds w (rows m) k = holds w (rows i) k \<or>
        (\<exists>item \<in> set (pq_queued q). k = CanvasAsset (pf_asset item) \<and> holds w (rows m) k = Some (pf_fingerprint item))" for k
      using kept [of k] F(3) [of k] unfolding q(1) by (elim disjE bexE) auto
    moreover have "holds w (rows m) (CanvasAsset (pf_asset item)) = Some (pf_fingerprint item)" if "n \<noteq> 0"
      using kept [of "CanvasAsset (pf_asset item)"]
    proof (elim disjE bexE conjE)
      assume "holds w (rows m) (CanvasAsset (pf_asset item)) = holds w (rows j) (CanvasAsset (pf_asset item))"
      then show ?thesis using F(4) [OF that] by simp
    next
      fix other assume o: "other \<in> set (pq_queued q1)" "CanvasAsset (pf_asset item) = CanvasAsset (pf_asset other)"
        "holds w (rows m) (CanvasAsset (pf_asset item)) = Some (pf_fingerprint other)"
      have "pf_asset item = pf_asset other" using o(2) by simp
      then have "pf_fingerprint item = pf_fingerprint other"
        using agreeingD [OF Cons.prems(3)] o(1) unfolding q(1) by (meson list.set_intros)
      then show ?thesis using o(3) by simp
    qed
    ultimately show ?thesis using IH rq(1) unfolding more(2) q(1) by auto
  next
    case YieldStep
    then have "q1 = q" using step_yield st by simp
    then have "trace = [] \<and> m = i \<or> prefetch ops ix sha seal ms q in_use limit (y + 1) s i = (trace, u, m)"
      using Cons.prems(4) st YieldStep by (auto split: if_splits)
    then show ?thesis using Cons.IH [OF Cons.prems(1-3)] by fastforce
  next
    case (StopStep r)
    then show ?thesis using Cons.prems(4) st by simp
  qed
qed simp

lemma sync_rows:
  assumes i: "ok i"
    and run: "run_sync ops ix w quota server s i = (Synced plan applied repaired budget published, t, j)"
    and "ao_failed applied = 0"
  shows "ok j" and "server (manifest_to_wire (manifest_for_open_world ix w i)) = Inr plan"
    and "k \<in> set (sp_evict plan) \<Longrightarrow> holds w (rows j) k = None"
    and "holds w (rows j) k = holds w (rows i) k \<or> holds w (rows j) k = None \<and>
      (k \<in> set (sp_evict plan) \<or> (\<exists>f. holds w (rows i) k = Some f \<and> (files s w f = None \<or> length f \<noteq> 32)))"
proof -
  obtain s1 i1 s2 i2 where a: "apply_plan ops ix w plan s i = (applied, s1, i1)"
    and b: "repair_world ops ix w s1 i1 = (repaired, s2, i2)"
    and c: "enforce_budget ops ix quota w (sum_list (map pi_size (sp_fetch plan))) s2 i2 = (budget, t, j)"
    and server: "server (manifest_to_wire (manifest_for_open_world ix w i)) = Inr plan"
    using run by (auto simp: run_sync_def Let_def split: sum.splits prod.splits sync_error.splits)
  show "server (manifest_to_wire (manifest_for_open_world ix w i)) = Inr plan" by (rule server)
  note A = apply_plan_effect [OF i a] and B = repair_effect [OF apply_plan_effect(1) [OF i a] b]
  have i2: "ok i2" using B by blast
  show "ok j" using enforce_budget_effect [OF i2 c] by blast
  have "holds w (rows j) k = Some f \<longleftrightarrow> holds w (rows i2) k = Some f" for k f
    using budget_spares [OF i2 c] unfolding holds_Some by metis
  then have j: "holds w (rows j) k = holds w (rows i2) k" for k by (metis not_None_eq)
  have one: "rows i1 k = rows i k \<or> k \<in> set (sp_evict plan) \<and> rows i1 k = None" for k
    using A(2) by (simp add: evicts_def)
  have two: "rows i2 k = rows i1 k \<or> rows i2 k = None \<and>
      (\<exists>r. rows i1 k = Some r \<and> cr_world r = w \<and> (files s1 w (cr_fingerprint r) = None \<or> length (cr_fingerprint r) \<noteq> 32))" for k
    using B by blast
  show "k \<in> set (sp_evict plan) \<Longrightarrow> holds w (rows j) k = None"
    unfolding j using A(3) [OF assms(3), of k] two [of k] by (auto simp: holds_def)
  have disk: "files s1 w (cr_fingerprint r) = files s w (cr_fingerprint r)" if "rows i1 k = Some r" "cr_world r = w" for r
  proof -
    have "named (rows i1) w (cr_fingerprint r)" using that by (auto simp: named_def)
    then show ?thesis using A(2) by (auto simp: evicts_def)
  qed
  show "holds w (rows j) k = holds w (rows i) k \<or> holds w (rows j) k = None \<and>
      (k \<in> set (sp_evict plan) \<or> (\<exists>f. holds w (rows i) k = Some f \<and> (files s w f = None \<or> length f \<noteq> 32)))"
  proof (cases "rows i2 k = rows i1 k")
    case True
    then show ?thesis unfolding j using one [of k] by (auto simp: holds_def)
  next
    case False
    then obtain r where r: "rows i2 k = None" "rows i1 k = Some r" "cr_world r = w"
      "files s w (cr_fingerprint r) = None \<or> length (cr_fingerprint r) \<noteq> 32" using two [of k] disk by auto
    then have "rows i k = Some r" using one [of k] by simp
    then have "holds w (rows i) k = Some (cr_fingerprint r)" using r(3) by (auto simp: holds_Some)
    moreover have "holds w (rows i2) k = None" using r(1) by (simp add: holds_def)
    ultimately show ?thesis unfolding j using r(4) by blast
  qed
qed

end

text \<open>What is published: the plan's fingerprint of an item it names, and what the index has of any other.\<close>

lemma published_from:
  "(a, f) \<in> set (publish_fingerprints ix w plan i) \<longleftrightarrow>
     (if CanvasAsset a \<in> pi_id ` set (sp_fetch plan)
      then pi_fingerprint (last (filter (\<lambda>p. pi_id p = CanvasAsset a) (sp_fetch plan))) = f
      else (a, f) \<in> set (canvas_fingerprints ix w i))"
proof -
  have "(a, f) \<in> set (foldl (\<lambda>entries p. case pi_id p of
         CanvasAsset a \<Rightarrow> filter (\<lambda>(b, f). b \<noteq> a) entries @ [(a, pi_fingerprint p)]
       | SceneState _ \<Rightarrow> entries) es ps) \<longleftrightarrow>
     (if CanvasAsset a \<in> pi_id ` set ps then pi_fingerprint (last (filter (\<lambda>p. pi_id p = CanvasAsset a) ps)) = f
      else (a, f) \<in> set es)" for es ps
  proof (induction ps rule: rev_induct)
    case (snoc p ps)
    then show ?case by (cases "pi_id p") auto
  qed simp
  then show ?thesis unfolding publish_fingerprints_def .
qed

context browser_cache
begin

lemma canvas_held:
  "ok i \<Longrightarrow> (a, f) \<in> set (canvas_fingerprints ix w i) \<Longrightarrow> holds w (rows i) (CanvasAsset a) = Some f"
proof -
  assume i: "ok i" and af: "(a, f) \<in> set (canvas_fingerprints ix w i)"
  then obtain l where l: "index_for_world ix w i = Inr l" by (cases "index_for_world ix w i") (auto simp: canvas_fingerprints_def)
  with af obtain r where "(CanvasAsset a, r) \<in> set l" "f = cr_fingerprint r"
    by (auto simp: canvas_fingerprints_def split: item_id.splits)
  then show ?thesis using for_world_done [OF i l] by (auto simp: holds_Some)
qed

lemma planned_items:
  assumes i: "ok i" and l: "index_for_world ix w i = Inr l" and cur: "bt_ok current"
    and plan: "plan = compute_plan sha (manifest_to_wire (manifest_for_open_world ix w i)) current"
  shows "p \<in> set (sp_fetch plan) \<longleftrightarrow> (\<exists>c. map_of current (pi_id p) = Some c \<and> pi_fingerprint p = promised sha c \<and>
      pi_size p = ci_size c \<and> (ci_fingerprint c = None \<or> holds w (rows i) (pi_id p) \<noteq> ci_fingerprint c))"
    and "k \<in> pi_id ` set (sp_fetch plan) \<longleftrightarrow> (\<exists>c. map_of current k = Some c \<and>
      (ci_fingerprint c = None \<or> holds w (rows i) k \<noteq> ci_fingerprint c))"
    and "k \<in> set (sp_evict plan) \<longleftrightarrow> holds w (rows i) k \<noteq> None \<and> map_of current k = None"
proof -
  let ?h = "manifest_to_wire (manifest_for_open_world ix w i)"
  have held: "map_of (held_by_id ?h) k = holds w (rows i) k" for k by (rule manifest_held [OF i l])
  have entry: "(k, c) \<in> set current \<longleftrightarrow> map_of current k = Some c" for k c using btree.entry_iff [OF cur] .
  show named: "p \<in> set (sp_fetch plan) \<longleftrightarrow> (\<exists>c. map_of current (pi_id p) = Some c \<and> pi_fingerprint p = promised sha c \<and>
      pi_size p = ci_size c \<and> (ci_fingerprint c = None \<or> holds w (rows i) (pi_id p) \<noteq> ci_fingerprint c))" for p
    unfolding plan plan_fetches held entry by (cases p) auto
  show "k \<in> pi_id ` set (sp_fetch plan) \<longleftrightarrow> (\<exists>c. map_of current k = Some c \<and>
      (ci_fingerprint c = None \<or> holds w (rows i) k \<noteq> ci_fingerprint c))"
  proof
    assume "\<exists>c. map_of current k = Some c \<and> (ci_fingerprint c = None \<or> holds w (rows i) k \<noteq> ci_fingerprint c)"
    then obtain c where "map_of current k = Some c" "ci_fingerprint c = None \<or> holds w (rows i) k \<noteq> ci_fingerprint c" by blast
    then have "\<lparr>pi_id = k, pi_fingerprint = promised sha c, pi_size = ci_size c\<rparr> \<in> set (sp_fetch plan)" by (simp add: named)
    then show "k \<in> pi_id ` set (sp_fetch plan)" by force
  qed (use named in auto)
  show "k \<in> set (sp_evict plan) \<longleftrightarrow> holds w (rows i) k \<noteq> None \<and> map_of current k = None"
    unfolding plan plan_evicts held ..
qed

lemma visit:
  assumes i: "ok i" and l: "index_for_world ix w i = Inr l" and cur: "bt_ok current"
    and run: "run_sync ops ix w quota (\<lambda>held. Inr (compute_plan sha held current)) s i =
        (Synced plan applied repaired budget published, t, j)"
    and clean: "ao_failed applied = 0"
    and fetch: "prefetch ops ix sha seal moments (from_plan w epoch plan) in_use limit 0 t j = (trace, u, m)"
  shows "(\<forall>k. map_of current k = None \<longrightarrow> holds w (rows m) k = None) \<and>
    (\<forall>k c. map_of current k = Some c \<longrightarrow>
      (k \<in> pi_id ` set (sp_fetch plan) \<longleftrightarrow> ci_fingerprint c = None \<or> holds w (rows i) k \<noteq> ci_fingerprint c) \<and>
      (holds w (rows m) k = holds w (rows i) k \<or>
       k \<in> pi_id ` set (sp_fetch plan) \<and> holds w (rows m) k = Some (promised sha c) \<or>
       holds w (rows m) k = None \<and> (\<exists>f. holds w (rows i) k = Some f \<and> (files s w f = None \<or> length f \<noteq> 32)))) \<and>
    (\<forall>(item, n) \<in> set trace. n \<noteq> 0 \<longrightarrow> (\<exists>c. map_of current (CanvasAsset (pf_asset item)) = Some c \<and>
       holds w (rows m) (CanvasAsset (pf_asset item)) = Some (promised sha c))) \<and>
    (\<forall>(a, f) \<in> set published. \<exists>c. map_of current (CanvasAsset a) = Some c \<and> f = promised sha c)"
proof -
  note S = sync_rows [OF i run clean]
  have plan: "plan = compute_plan sha (manifest_to_wire (manifest_for_open_world ix w i)) current" using S(2) by simp
  note named = planned_items(1) [OF i l cur plan] and planned = planned_items(2) [OF i l cur plan]
    and evicted = planned_items(3) [OF i l cur plan]
  have queued: "\<exists>c. map_of current (CanvasAsset (pf_asset item)) = Some c \<and> pf_fingerprint item = promised sha c \<and>
      CanvasAsset (pf_asset item) \<in> pi_id ` set (sp_fetch plan)"
    if "item \<in> set (pq_queued (from_plan w epoch plan))" for item
  proof -
    from that obtain p where "p \<in> set (sp_fetch plan)" "pi_id p = CanvasAsset (pf_asset item)" "pf_fingerprint item = pi_fingerprint p"
      by (auto simp: from_plan_items)
    then show ?thesis using named [of p] by force
  qed
  have agree: "agreeing (pq_queued (from_plan w epoch plan))"
    unfolding agreeing_def using queued by (metis option.inject)
  have world: "pq_world (from_plan w epoch plan) = w" by (simp add: from_plan_def)
  note P = prefetch_rows [OF S(1) world agree fetch]
  have now: "holds w (rows j) k = holds w (rows i) k \<and> k \<notin> set (sp_evict plan) \<or> holds w (rows j) k = None \<and>
      (map_of current k = None \<or> (\<exists>f. holds w (rows i) k = Some f \<and> (files s w f = None \<or> length f \<noteq> 32)))" for k
    using S(3) [of k] S(4) [of k] evicted [of k] by blast
  have later: "holds w (rows m) k = holds w (rows j) k \<or>
      (\<exists>c. map_of current k = Some c \<and> k \<in> pi_id ` set (sp_fetch plan) \<and> holds w (rows m) k = Some (promised sha c))" for k
  proof -
    from P have "holds w (rows m) k = holds w (rows j) k \<or> (\<exists>item \<in> set (pq_queued (from_plan w epoch plan)).
        k = CanvasAsset (pf_asset item) \<and> holds w (rows m) k = Some (pf_fingerprint item))" by blast
    then show ?thesis
    proof (elim disjE bexE conjE)
      fix item assume it: "item \<in> set (pq_queued (from_plan w epoch plan))" "k = CanvasAsset (pf_asset item)"
        "holds w (rows m) k = Some (pf_fingerprint item)"
      obtain c where "map_of current (CanvasAsset (pf_asset item)) = Some c" "pf_fingerprint item = promised sha c"
        "CanvasAsset (pf_asset item) \<in> pi_id ` set (sp_fetch plan)" using queued [OF it(1)] by blast
      then show ?thesis unfolding it(3) unfolding it(2) by simp
    qed (rule disjI1)
  qed
  have gone: "holds w (rows j) k = None" if "map_of current k = None" for k
    using now [of k] evicted [of k] that by metis
  have "\<forall>k. map_of current k = None \<longrightarrow> holds w (rows m) k = None" using later gone by (metis option.distinct(1))
  moreover have "k \<in> pi_id ` set (sp_fetch plan) \<longleftrightarrow> ci_fingerprint c = None \<or> holds w (rows i) k \<noteq> ci_fingerprint c"
    if "map_of current k = Some c" for k c using planned [of k] that by simp
  moreover have "holds w (rows m) k = holds w (rows i) k \<or>
       k \<in> pi_id ` set (sp_fetch plan) \<and> holds w (rows m) k = Some (promised sha c) \<or>
       holds w (rows m) k = None \<and> (\<exists>f. holds w (rows i) k = Some f \<and> (files s w f = None \<or> length f \<noteq> 32))"
    if "map_of current k = Some c" for k c
  proof -
    from later [of k] show ?thesis
    proof (elim disjE exE conjE)
      assume "holds w (rows m) k = holds w (rows j) k"
      with now [of k] that show ?thesis by (metis option.distinct(1))
    next
      fix d assume d: "map_of current k = Some d" "k \<in> pi_id ` set (sp_fetch plan)" "holds w (rows m) k = Some (promised sha d)"
      then have "d = c" using that by simp
      then show ?thesis using d by blast
    qed
  qed
  moreover have "\<forall>(item, n) \<in> set trace. n \<noteq> 0 \<longrightarrow> (\<exists>c. map_of current (CanvasAsset (pf_asset item)) = Some c \<and>
       holds w (rows m) (CanvasAsset (pf_asset item)) = Some (promised sha c))"
  proof (intro ballI case_prodI2 impI)
    fix e item and n :: u64 assume e: "e \<in> set trace" "e = (item, n)" "n \<noteq> 0"
    then have "item \<in> set (pq_queued (from_plan w epoch plan))"
      "holds w (rows m) (CanvasAsset (pf_asset item)) = Some (pf_fingerprint item)" using P by blast+
    then show "\<exists>c. map_of current (CanvasAsset (pf_asset item)) = Some c \<and>
        holds w (rows m) (CanvasAsset (pf_asset item)) = Some (promised sha c)" using queued by fastforce
  qed
  moreover have "\<exists>c. map_of current (CanvasAsset a) = Some c \<and> f = promised sha c" if "(a, f) \<in> set published" for a f
  proof -
    have "published = publish_fingerprints ix w plan j"
      using run by (auto simp: run_sync_def Let_def split: sum.splits prod.splits)
    then have af: "if CanvasAsset a \<in> pi_id ` set (sp_fetch plan)
        then pi_fingerprint (last (filter (\<lambda>p. pi_id p = CanvasAsset a) (sp_fetch plan))) = f
        else (a, f) \<in> set (canvas_fingerprints ix w j)" using that published_from by metis
    show ?thesis
    proof (cases "CanvasAsset a \<in> pi_id ` set (sp_fetch plan)")
      case True
      let ?p = "last (filter (\<lambda>p. pi_id p = CanvasAsset a) (sp_fetch plan))"
      have "filter (\<lambda>p. pi_id p = CanvasAsset a) (sp_fetch plan) \<noteq> []" using True by (auto simp: filter_empty_conv)
      then have "?p \<in> set (filter (\<lambda>p. pi_id p = CanvasAsset a) (sp_fetch plan))" by (rule last_in_set)
      then show ?thesis using named [of ?p] af True by auto
    next
      case False
      then have h: "holds w (rows j) (CanvasAsset a) = Some f" using canvas_held [OF S(1)] af by simp
      then obtain c where c: "map_of current (CanvasAsset a) = Some c" using gone [of "CanvasAsset a"] by fastforce
      then have "ci_fingerprint c \<noteq> None" "holds w (rows i) (CanvasAsset a) = ci_fingerprint c" using False planned [of "CanvasAsset a"] by auto
      then have "ci_fingerprint c = Some f" using now [of "CanvasAsset a"] h by auto
      then show ?thesis using c by (simp add: promised_def)
    qed
  qed
  ultimately show ?thesis by blast
qed

end

text \<open>C14: One sync and the fetching after it bring a client to what the server offers. Whatever the store and the
  index are, where the index could be read and no eviction failed: an item not offered is not held. Of an item
  offered, the plan speaks exactly when the client does not hold it as the server has it, or the server does
  not know its own fingerprint. It ends held as it was, or, where the plan named it, under the fingerprint
  named: the server's, or where the server knows none the hash of no bytes, which only empty content can be
  stored under. Or it is dropped because its file was missing. Every fetch that stored bytes leaves its item
  under the fingerprint named, and what is published for reading is only what is offered, under that
  fingerprint.\<close>

theorem sync_settles:
  assumes "browser_cache ops files ix rows ok" and "ok i" and "index_for_world ix w i = Inr l" and "bt_ok current"
    and "run_sync ops ix w quota (\<lambda>held. Inr (compute_plan sha held current)) s i =
        (Synced plan applied repaired budget published, t, j)"
    and "ao_failed applied = 0"
    and "prefetch ops ix sha seal moments (from_plan w epoch plan) in_use limit 0 t j = (trace, u, m)"
  shows "(\<forall>k. map_of current k = None \<longrightarrow> holds w (rows m) k = None) \<and>
    (\<forall>k c. map_of current k = Some c \<longrightarrow>
      (k \<in> pi_id ` set (sp_fetch plan) \<longleftrightarrow> ci_fingerprint c = None \<or> holds w (rows i) k \<noteq> ci_fingerprint c) \<and>
      (holds w (rows m) k = holds w (rows i) k \<or>
       k \<in> pi_id ` set (sp_fetch plan) \<and> holds w (rows m) k = Some (promised sha c) \<or>
       holds w (rows m) k = None \<and> (\<exists>f. holds w (rows i) k = Some f \<and> (files s w f = None \<or> length f \<noteq> 32)))) \<and>
    (\<forall>(item, n) \<in> set trace. n \<noteq> 0 \<longrightarrow> (\<exists>c. map_of current (CanvasAsset (pf_asset item)) = Some c \<and>
       holds w (rows m) (CanvasAsset (pf_asset item)) = Some (promised sha c))) \<and>
    (\<forall>(a, f) \<in> set published. \<exists>c. map_of current (CanvasAsset a) = Some c \<and> f = promised sha c)"
  by (rule browser_cache.visit [OF assms])

text \<open>A client that holds an item it may no longer see, and none of the one it may.\<close>

definition before_visit :: "memory \<times> index_store" where
  "before_visit = ([(memory_key 9 (sha_pad [5]), [7, 5])],
     index_open [(CanvasAsset 1, \<lparr>cr_fingerprint = sha_pad [5], cr_size = 1, cr_read = 1, cr_world = 9\<rparr>)])"

definition offered_items :: "(item_id \<times> current_item) list" where
  "offered_items = [(CanvasAsset 4, \<lparr>ci_fingerprint = Some (sha_pad [1, 2]), ci_size = 2\<rparr>)]"

definition synced :: "sync_report \<times> memory \<times> index_store" where
  "synced = run_sync memory_ops index_store_ops 9 None (\<lambda>held. Inr (compute_plan sha_pad held offered_items))
     (fst before_visit) (snd before_visit)"

definition plan_of :: "sync_report \<Rightarrow> sync_plan" where
  "plan_of rep = (case rep of Synced plan _ _ _ _ \<Rightarrow> plan | _ \<Rightarrow> \<lparr>sp_fetch = [], sp_evict = []\<rparr>)"

definition visited :: "(prefetch_item \<times> u64) list \<times> memory \<times> index_store" where
  "visited = prefetch memory_ops index_store_ops sha_pad sealing
     [\<lparr>mo_world = 9, mo_epoch = 1, mo_demand = 1, mo_may_store = True, mo_bytes = None\<rparr>,
      \<lparr>mo_world = 9, mo_epoch = 1, mo_demand = 0, mo_may_store = True, mo_bytes = Some [1, 2]\<rparr>]
     (from_plan 9 1 (plan_of (fst synced))) 1 1000 0 (fst (snd synced)) (snd (snd synced))"

lemma synced_ran:
  "\<exists>plan applied repaired budget published. fst synced = Synced plan applied repaired budget published \<and> ao_failed applied = 0"
proof -
  have "case fst synced of Synced plan applied repaired budget published \<Rightarrow> ao_failed applied = 0 | _ \<Rightarrow> False" by code_simp
  then show ?thesis by (cases "fst synced") simp_all
qed

lemma synced_state:
  "plan_of (fst synced) = \<lparr>sp_fetch = [\<lparr>pi_id = CanvasAsset 4, pi_fingerprint = sha_pad [1, 2], pi_size = 2\<rparr>], sp_evict = [CanvasAsset 1]\<rparr>"
  "fst (snd synced) = []" "snd (snd synced) = \<lparr>is_rows = [], is_seq = 1\<rparr>"
  by code_simp+

lemma fetch_counted:
  "fst (fetch_one memory_ops index_store_ops sha_pad sealing 9 \<lparr>pf_asset = 4, pf_fingerprint = sha_pad [1, 2], pf_size = 2\<rparr>
     (Some [1, 2]) [] \<lparr>is_rows = [], is_seq = 1\<rparr>) = 2"
  by code_simp

lemma visit_trace: "fst visited = [(\<lparr>pf_asset = 4, pf_fingerprint = sha_pad [1, 2], pf_size = 2\<rparr>, 2)]"
  unfolding visited_def synced_state using fetch_counted
  by (simp add: from_plan_def map_filter_simps step_def pressure_at_def sat_add_def admit_speculative_def u64_max_def
      visit_budget_bytes_def record_stored_def prefetch_max_yields_def Let_def case_prod_beta)

lemma sync_settles_witness:
  "holds 9 (index_rows (snd (snd visited))) (CanvasAsset 1) = None \<and>
   holds 9 (index_rows (snd (snd visited))) (CanvasAsset 4) = Some (sha_pad [1, 2])"
proof -
  have ok: "bt_ok (is_rows (snd before_visit))" by code_simp
  have l: "index_for_world index_store_ops 9 (snd before_visit) = Inr (is_rows (snd before_visit))" by code_simp
  have cur: "bt_ok offered_items" by code_simp
  obtain plan applied repaired budget published where rep: "fst synced = Synced plan applied repaired budget published"
    and clean: "ao_failed applied = 0" using synced_ran by blast
  have run: "run_sync memory_ops index_store_ops 9 None (\<lambda>held. Inr (compute_plan sha_pad held offered_items))
      (fst before_visit) (snd before_visit) = (Synced plan applied repaired budget published, fst (snd synced), snd (snd synced))"
    using rep unfolding synced_def by (metis prod.collapse)
  have "plan_of (fst synced) = plan" by (simp add: rep plan_of_def)
  then have fetch: "prefetch memory_ops index_store_ops sha_pad sealing
     [\<lparr>mo_world = 9, mo_epoch = 1, mo_demand = 1, mo_may_store = True, mo_bytes = None\<rparr>,
      \<lparr>mo_world = 9, mo_epoch = 1, mo_demand = 0, mo_may_store = True, mo_bytes = Some [1, 2]\<rparr>]
     (from_plan 9 1 plan) 1 1000 0 (fst (snd synced)) (snd (snd synced)) = (fst visited, fst (snd visited), snd (snd visited))"
    by (simp add: visited_def)
  note visit = sync_settles [OF memory_browser_cache ok l cur run clean fetch]
  have offer: "map_of offered_items (CanvasAsset 1) = None"
    "map_of offered_items (CanvasAsset 4) = Some \<lparr>ci_fingerprint = Some (sha_pad [1, 2]), ci_size = 2\<rparr>"
    by (simp_all add: offered_items_def)
  have "holds 9 (index_rows (snd (snd visited))) (CanvasAsset 1) = None" using visit offer(1) by blast
  moreover have "\<forall>(item, n) \<in> set (fst visited). n \<noteq> 0 \<longrightarrow> (\<exists>c. map_of offered_items (CanvasAsset (pf_asset item)) = Some c \<and>
       holds 9 (index_rows (snd (snd visited))) (CanvasAsset (pf_asset item)) = Some (promised sha_pad c))"
    using visit by blast
  then have "holds 9 (index_rows (snd (snd visited))) (CanvasAsset 4) = Some (sha_pad [1, 2])"
    unfolding visit_trace using offer(2) by (simp add: promised_def)
  ultimately show ?thesis by blast
qed

end
