(* ===== verification/Cache_Outbox.thy ===== *)
theory Cache_Outbox
  imports Cache_Client
begin

text \<open>
  The durable outbox of edits made while disconnected (crates/thunderforge-cache-browser/src/outbox.rs, over the
  rules of queue.rs in \<open>Cache_Sync\<close>). The browser's table is an interface whose every call may fail; its rows
  are keyed by the local id, whose text names it, and a row that does not parse is \<open>None\<close>. A run keeps beside
  the table which changes were acknowledged, in order, and which of them no outcome has named since.
\<close>

section \<open>The rules\<close>

definition outbox_next_seq :: "queued_change list \<Rightarrow> u64" where
  "outbox_next_seq queued =
     (case map qc_seq queued of
        [] \<Rightarrow> 0
      | q # qs \<Rightarrow> (let high = foldl max q qs in if high = - 1 then high else high + 1))"

definition replay_for_world :: "queued_change list \<Rightarrow> uuid \<Rightarrow> queued_change list" where
  "replay_for_world queued w = filter (\<lambda>c. qc_world c = w) (replay_order queued)"

definition resolved_ids :: "reconcile_outcome list \<Rightarrow> uuid list" where
  "resolved_ids outcomes = map ro_local outcomes"

section \<open>The table\<close>

record 'd outbox_ops =
  ob_entries :: "'d \<Rightarrow> cache_error + (uuid \<times> queued_change option) list"
  ob_put :: "uuid \<Rightarrow> queued_change \<Rightarrow> 'd \<Rightarrow> (cache_error + unit) \<times> 'd"
  ob_delete :: "uuid \<Rightarrow> 'd \<Rightarrow> (cache_error + unit) \<times> 'd"

definition outbox_all :: "'d outbox_ops \<Rightarrow> 'd \<Rightarrow> cache_error + queued_change list" where
  "outbox_all db d =
     (case ob_entries db d of
        Inl e \<Rightarrow> Inl e
      | Inr l \<Rightarrow> Inr (sort_key qc_seq (List.map_filter snd l)))"

definition append_change ::
    "'d outbox_ops \<Rightarrow> uuid \<Rightarrow> uuid \<Rightarrow> ustring \<Rightarrow> conflict_role \<Rightarrow> 'd \<Rightarrow> (cache_error + queued_change) \<times> 'd" where
  "append_change db w local_id command hint d =
     (case outbox_all db d of
        Inl e \<Rightarrow> (Inl e, d)
      | Inr queued \<Rightarrow>
          (let change = \<lparr>qc_local = local_id, qc_world = w, qc_command = command, qc_seq = outbox_next_seq queued,
                 qc_role_hint = hint\<rparr> in
           case ob_put db local_id change d of (Inl e, d1) \<Rightarrow> (Inl e, d1) | (Inr _, d1) \<Rightarrow> (Inr change, d1)))"

definition forget_resolved ::
    "'d outbox_ops \<Rightarrow> reconcile_outcome list \<Rightarrow> 'd \<Rightarrow> (cache_error + queued_change list) \<times> 'd" where
  "forget_resolved db outcomes d =
     (let d1 = foldl (\<lambda>d k. snd (ob_delete db k d)) d (resolved_ids outcomes) in (outbox_all db d1, d1))"

definition outbox_for_world :: "'d outbox_ops \<Rightarrow> uuid \<Rightarrow> 'd \<Rightarrow> cache_error + queued_change list" where
  "outbox_for_world db w d =
     (case outbox_all db d of Inl e \<Rightarrow> Inl e | Inr queued \<Rightarrow> Inr (replay_for_world queued w))"

text \<open>What happened to an outbox, from the table \<open>d0\<close> on: a person's edits, each under an id of its own, and the
  server's outcomes. An edit is acknowledged when its append answered with the change.\<close>

inductive outbox_run ::
    "'d outbox_ops \<Rightarrow> 'd \<Rightarrow> queued_change list \<Rightarrow> queued_change list \<Rightarrow> 'd \<Rightarrow> bool" for db d0 where
  Opened: "outbox_run db d0 [] [] d0"
| Acknowledged: "outbox_run db d0 acked waiting d \<Longrightarrow> local_id \<notin> qc_local ` set acked \<Longrightarrow>
    append_change db w local_id command hint d = (Inr c, e) \<Longrightarrow> outbox_run db d0 (acked @ [c]) (waiting @ [c]) e"
| Not_stored: "outbox_run db d0 acked waiting d \<Longrightarrow> local_id \<notin> qc_local ` set acked \<Longrightarrow>
    append_change db w local_id command hint d = (Inl err, e) \<Longrightarrow> outbox_run db d0 acked waiting e"
| Answered: "outbox_run db d0 acked waiting d \<Longrightarrow> forget_resolved db outcomes d = (left, e) \<Longrightarrow>
    outbox_run db d0 acked (filter (\<lambda>c. qc_local c \<notin> ro_local ` set outcomes) waiting) e"

section \<open>What the table keeps\<close>

definition stored :: "(uuid \<Rightarrow> queued_change option option) \<Rightarrow> queued_change \<Rightarrow> bool" where
  "stored rs c \<longleftrightarrow> rs (qc_local c) = Some (Some c)"

text \<open>The readable rows are acknowledged changes under their own ids, whose numbers rise in the order they were
  made and stay below their count; every change nobody has answered for is among them.\<close>

definition keeps :: "(uuid \<Rightarrow> queued_change option option) \<Rightarrow> queued_change list \<Rightarrow> queued_change list \<Rightarrow> bool" where
  "keeps rs acked waiting \<longleftrightarrow>
     distinct (map qc_local acked) \<and>
     (\<forall>k c. rs k = Some (Some c) \<longrightarrow> k = qc_local c \<and> c \<in> set acked \<and> unat (qc_seq c) < length acked) \<and>
     sorted_wrt (<) (map qc_seq (filter (stored rs) acked)) \<and>
     (\<forall>c \<in> set waiting. stored rs c)"

lemma foldl_max:
  "foldl max q qs \<in> insert q (set qs) \<and> q \<le> foldl max q qs \<and> (\<forall>x \<in> set qs. x \<le> foldl max q qs)" for q :: u64
proof (induction qs arbitrary: q)
  case (Cons a qs)
  from Cons.IH [of "max q a"] show ?case by (auto simp: max_def split: if_splits)
qed simp

text \<open>The number handed out is above every number there is, and no number is skipped for long.\<close>

lemma next_above:
  assumes "\<forall>c \<in> set queued. unat (qc_seq c) < n" and "n < 2 ^ 64"
  shows "(\<forall>c \<in> set queued. qc_seq c < outbox_next_seq queued) \<and> unat (outbox_next_seq queued) \<le> n"
proof (cases "map qc_seq queued")
  case Nil
  then show ?thesis by (simp add: outbox_next_seq_def)
next
  case (Cons q qs)
  let ?high = "foldl max q qs"
  have all: "insert q (set qs) = qc_seq ` set queued" using Cons by (metis list.simps(15) list.set_map)
  have "?high \<in> insert q (set qs)" using foldl_max by blast
  then have high: "unat ?high < n" using assms(1) all by auto
  have "unat ?high + 1 < 2 ^ LENGTH(64)" using high assms(2) by simp
  then have up: "unat (?high + 1) = unat ?high + 1" by (simp add: unat_word_ariths)
  have "?high \<noteq> - 1"
  proof
    assume "?high = - 1"
    then have "unat (?high + 1) = 0" by simp
    with up show False by simp
  qed
  then have num: "outbox_next_seq queued = ?high + 1" by (simp add: outbox_next_seq_def Cons)
  have "qc_seq c < outbox_next_seq queued" if "c \<in> set queued" for c
  proof -
    have "qc_seq c \<in> insert q (set qs)" using that all by blast
    then have "qc_seq c \<le> ?high" using foldl_max [of q qs] by blast
    then show ?thesis using num up by (simp add: word_less_nat_alt word_le_nat_alt)
  qed
  then show ?thesis using num up high by simp
qed

lemma sort_rising:
  assumes "set xs = set ys" and "distinct xs" and "sorted_wrt (<) (map f ys)"
  shows "sort_key f xs = ys"
proof (rule map_sorted_distinct_set_unique [where f = f])
  have d: "sorted (map f ys)" "distinct (map f ys)" using assms(3) by (simp_all add: strict_sorted_iff)
  then have inj: "inj_on f (set ys)" by (simp add: distinct_map)
  show "inj_on f (set (sort_key f xs) \<union> set ys)" using inj assms(1) by simp
  show "distinct (map f (sort_key f xs))" using inj assms(1,2) by (simp add: distinct_map)
qed (use assms in \<open>simp_all add: strict_sorted_iff\<close>)

lemma keeps_append:
  assumes "keeps rs acked waiting" and "local_id \<notin> qc_local ` set acked" and "length acked < 2 ^ 64"
    and c: "c = \<lparr>qc_local = local_id, qc_world = w, qc_command = command,
      qc_seq = outbox_next_seq (filter (stored rs) acked), qc_role_hint = hint\<rparr>"
  shows "keeps (rs(local_id \<mapsto> Some c)) (acked @ [c]) (waiting @ [c])"
proof -
  let ?rs = "rs(local_id \<mapsto> Some c)"
  have id: "qc_local c = local_id" "qc_seq c = outbox_next_seq (filter (stored rs) acked)" by (simp_all add: c)
  have bound: "\<forall>x \<in> set (filter (stored rs) acked). unat (qc_seq x) < length acked"
    using assms(1) by (auto simp: keeps_def stored_def)
  note above = next_above [OF bound assms(3), folded id(2)]
  have same: "stored ?rs x = stored rs x" if "x \<in> set acked" for x using assms(2) that by (auto simp: stored_def)
  have new: "filter (stored ?rs) (acked @ [c]) = filter (stored rs) acked @ [c]"
    using same id(1) by (simp add: stored_def [of ?rs c] cong: filter_cong)
  have "sorted_wrt (<) (map qc_seq (filter (stored ?rs) (acked @ [c])))"
    unfolding new using assms(1) above by (simp add: sorted_wrt_append keeps_def)
  moreover have "distinct (map qc_local (acked @ [c]))" using assms(1,2) id(1) by (auto simp: keeps_def)
  moreover have "\<forall>k x. ?rs k = Some (Some x) \<longrightarrow> k = qc_local x \<and> x \<in> set (acked @ [c]) \<and> unat (qc_seq x) < length (acked @ [c])"
  proof (intro allI impI)
    fix k x assume row: "?rs k = Some (Some x)"
    show "k = qc_local x \<and> x \<in> set (acked @ [c]) \<and> unat (qc_seq x) < length (acked @ [c])"
    proof (cases "k = local_id")
      case True
      then have "x = c" using row by simp
      then show ?thesis using True id(1) above by (simp add: less_Suc_eq_le)
    next
      case False
      then have "rs k = Some (Some x)" using row by simp
      then have "k = qc_local x \<and> x \<in> set acked \<and> unat (qc_seq x) < length acked" using assms(1) unfolding keeps_def by blast
      then show ?thesis by simp
    qed
  qed
  moreover have "\<forall>x \<in> set (waiting @ [c]). stored ?rs x"
  proof
    fix x assume "x \<in> set (waiting @ [c])"
    then consider "x = c" | "stored rs x" using assms(1) unfolding keeps_def by auto
    then show "stored ?rs x"
    proof cases
      case 2
      then have "x \<in> set acked" using assms(1) unfolding keeps_def stored_def by blast
      then show ?thesis using same 2 by simp
    qed (simp add: stored_def id(1))
  qed
  ultimately show ?thesis unfolding keeps_def by (intro conjI)
qed

lemma keeps_delete:
  assumes "keeps rs acked waiting" and "\<forall>k. qs k = rs k \<or> k \<in> ks \<and> qs k = None"
  shows "keeps qs acked (filter (\<lambda>c. qc_local c \<notin> ks) waiting)"
proof -
  have sub: "qs k = Some v \<Longrightarrow> rs k = Some v" for k v using assms(2) by (metis option.distinct(1))
  then have "filter (stored qs) acked = filter (stored qs) (filter (stored rs) acked)"
    by (auto simp: stored_def intro: filter_cong)
  then have "sorted_wrt (<) (map qc_seq (filter (stored qs) acked))"
    using assms(1) by (simp add: keeps_def sorted_wrt_map sorted_wrt_filter del: filter_filter)
  moreover have "stored qs c" if "c \<in> set waiting" "qc_local c \<notin> ks" for c
    using assms that unfolding keeps_def stored_def by metis
  moreover have "\<forall>k c. qs k = Some (Some c) \<longrightarrow> k = qc_local c \<and> c \<in> set acked \<and> unat (qc_seq c) < length acked"
    using assms(1) sub unfolding keeps_def by metis
  ultimately show ?thesis using assms(1) unfolding keeps_def by simp
qed

locale outbox_table =
  fixes db :: "'d outbox_ops"
    and rows :: "'d \<Rightarrow> uuid \<Rightarrow> queued_change option option"
    and ok :: "'d \<Rightarrow> bool"
  assumes entries_done: "ok d \<Longrightarrow> ob_entries db d = Inr l \<Longrightarrow> distinct (map fst l) \<and> map_of l = rows d"
    and put_done: "ok d \<Longrightarrow> ob_put db k c d = (Inr (), e) \<Longrightarrow> rows e = (rows d)(k \<mapsto> Some c)"
    and put_failed: "ok d \<Longrightarrow> ob_put db k c d = (Inl err, e) \<Longrightarrow> rows e = rows d"
    and put_ok: "ok d \<Longrightarrow> ok (snd (ob_put db k c d))"
    and delete_done: "ok d \<Longrightarrow> ob_delete db k d = (Inr (), e) \<Longrightarrow> rows e = (rows d)(k := None)"
    and delete_failed: "ok d \<Longrightarrow> ob_delete db k d = (Inl err, e) \<Longrightarrow> rows e = rows d"
    and delete_ok: "ok d \<Longrightarrow> ok (snd (ob_delete db k d))"
begin

lemma readable:
  assumes "ok d" and "ob_entries db d = Inr l" and "keeps (rows d) acked waiting"
  shows "set (List.map_filter snd l) = {c \<in> set acked. stored (rows d) c}" and "distinct (List.map_filter snd l)"
proof -
  note l = entries_done [OF assms(1,2)]
  have mem: "(k, Some c) \<in> set l \<longleftrightarrow> rows d k = Some (Some c)" for k c using l by (metis map_of_eq_Some_iff)
  have "c \<in> set (List.map_filter snd l) \<longleftrightarrow> (\<exists>k. (k, Some c) \<in> set l)" for c by (force simp: in_map_filter)
  then have "c \<in> set (List.map_filter snd l) \<longleftrightarrow> c \<in> set acked \<and> stored (rows d) c" for c
    using assms(3) unfolding mem keeps_def stored_def by blast
  then show "set (List.map_filter snd l) = {c \<in> set acked. stored (rows d) c}" by blast
  have own: "\<forall>(k, v) \<in> set l. \<forall>c. v = Some c \<longrightarrow> k = qc_local c" using mem assms(3) by (auto simp: keeps_def)
  have "distinct (map fst l)" using l by blast
  then show "distinct (List.map_filter snd l)" using own
  proof (induction l)
    case (Cons e l)
    obtain k v where e: "e = (k, v)" by (cases e)
    have "distinct (List.map_filter snd l)" using Cons by simp
    moreover have "c \<notin> set (List.map_filter snd l)" if "v = Some c" for c
    proof
      assume "c \<in> set (List.map_filter snd l)"
      then obtain j where j: "(j, Some c) \<in> set l" by (auto simp: in_map_filter)
      then have "j = k" using Cons.prems(2) e that by auto
      then show False using Cons.prems(1) e j by (auto simp: rev_image_eqI)
    qed
    ultimately show ?case by (cases v) (simp_all add: e map_filter_simps)
  qed (simp add: map_filter_simps)
qed

text \<open>Whatever is asked of the table, the answer is what it holds of the acknowledged changes, in their order.\<close>

lemma all_is:
  assumes "ok d" and "keeps (rows d) acked waiting" and "outbox_all db d = Inr queued"
  shows "queued = filter (stored (rows d)) acked"
proof -
  obtain l where l: "ob_entries db d = Inr l" "queued = sort_key qc_seq (List.map_filter snd l)"
    using assms(3) by (auto simp: outbox_all_def split: sum.splits)
  have "sort_key qc_seq (List.map_filter snd l) = filter (stored (rows d)) acked"
    using readable [OF assms(1) l(1) assms(2)] assms(2) by (intro sort_rising) (auto simp: keeps_def)
  then show ?thesis using l(2) by simp
qed

lemma world_is:
  assumes "ok d" and "keeps (rows d) acked waiting" and "outbox_for_world db w d = Inr l"
  shows "l = filter (\<lambda>c. qc_world c = w \<and> stored (rows d) c) acked"
proof -
  obtain queued where q: "outbox_all db d = Inr queued" "l = replay_for_world queued w"
    using assms(3) by (auto simp: outbox_for_world_def split: sum.splits)
  have queued: "queued = filter (stored (rows d)) acked" by (rule all_is [OF assms(1,2) q(1)])
  then have "sorted (map qc_seq queued)" using assms(2) by (simp add: keeps_def strict_sorted_iff)
  then have "sorted (map qc_seq (filter (\<lambda>c. qc_world c = w) queued))" by (rule sorted_filter)
  then have "l = filter (\<lambda>c. qc_world c = w) queued"
    using replay_keeps_edit_order [of queued w] unfolding q(2) replay_for_world_def by blast
  then show ?thesis using queued by (simp add: conj_commute)
qed

lemma delete_all:
  "ok d \<Longrightarrow> ok (foldl (\<lambda>d k. snd (ob_delete db k d)) d ks) \<and>
     (\<forall>k. rows (foldl (\<lambda>d k. snd (ob_delete db k d)) d ks) k = rows d k \<or>
       k \<in> set ks \<and> rows (foldl (\<lambda>d k. snd (ob_delete db k d)) d ks) k = None)"
proof (induction ks arbitrary: d)
  case (Cons k ks)
  obtain res e where e: "ob_delete db k d = (res, e)" by fastforce
  have ok: "ok e" using delete_ok [OF Cons.prems, of k] e by simp
  have "rows e = rows d \<or> rows e = (rows d)(k := None)"
    using delete_done [OF Cons.prems] delete_failed [OF Cons.prems] e by (cases res) auto
  then have "\<forall>x. rows e x = rows d x \<or> x = k \<and> rows e x = None" by (metis fun_upd_apply)
  with Cons.IH [OF ok] show ?case by (simp add: e) metis
qed simp

lemma run_keeps:
  assumes "outbox_run db d0 acked waiting d" and "ok d0" and "\<forall>k c. rows d0 k \<noteq> Some (Some c)"
  shows "ok d \<and> (length acked \<le> 2 ^ 64 \<longrightarrow> keeps (rows d) acked waiting)"
  using assms(1)
proof (induction rule: outbox_run.induct)
  case Opened
  then show ?case using assms(2,3) by (simp add: keeps_def)
next
  case (Acknowledged acked waiting d local_id w command hint c e)
  then obtain queued where q: "outbox_all db d = Inr queued" "ob_put db local_id c d = (Inr (), e)"
    "c = \<lparr>qc_local = local_id, qc_world = w, qc_command = command, qc_seq = outbox_next_seq queued, qc_role_hint = hint\<rparr>"
    by (auto simp: append_change_def Let_def split: sum.splits prod.splits)
  have d: "ok d" using Acknowledged.IH by blast
  have "keeps (rows e) (acked @ [c]) (waiting @ [c])" if "length (acked @ [c]) \<le> 2 ^ 64"
  proof -
    have k: "keeps (rows d) acked waiting" and short: "length acked < 2 ^ 64" using Acknowledged.IH that by simp_all
    have "queued = filter (stored (rows d)) acked" by (rule all_is [OF d k q(1)])
    then show ?thesis using keeps_append [OF k Acknowledged(2) short] q(3) put_done [OF d q(2)] by simp
  qed
  then show ?case using put_ok [OF d, of local_id c] q(2) by simp
next
  case (Not_stored acked waiting d local_id w command hint err e)
  have d: "ok d" using Not_stored.IH by blast
  consider "e = d" | c where "ob_put db local_id c d = (Inl err, e)"
    using Not_stored(3) by (auto simp: append_change_def Let_def split: sum.splits prod.splits)
  then have "rows e = rows d \<and> ok e"
  proof cases
    case 2
    then show ?thesis using put_failed [OF d] put_ok [OF d, of local_id] by (metis snd_conv)
  qed (use d in simp)
  then show ?case using Not_stored.IH by simp
next
  case (Answered acked waiting d outcomes left e)
  have e: "e = foldl (\<lambda>d k. snd (ob_delete db k d)) d (resolved_ids outcomes)"
    using Answered(2) by (simp add: forget_resolved_def Let_def)
  have "ok e" "\<forall>k. rows e k = rows d k \<or> k \<in> ro_local ` set outcomes \<and> rows e k = None"
    using delete_all [of d "resolved_ids outcomes"] Answered.IH by (auto simp: e resolved_ids_def)
  then show ?case using Answered.IH keeps_delete by blast
qed

lemma run_survives:
  assumes "outbox_run db d0 acked waiting d" and "ok d0" and "\<forall>k c. rows d0 k \<noteq> Some (Some c)" and "length acked \<le> 2 ^ 64"
  shows "(\<forall>c \<in> set waiting. stored (rows d) c) \<and>
    (\<forall>queued. outbox_all db d = Inr queued \<longrightarrow> queued = filter (stored (rows d)) acked) \<and>
    (\<forall>w l. outbox_for_world db w d = Inr l \<longrightarrow> l = filter (\<lambda>c. qc_world c = w \<and> stored (rows d) c) acked)"
proof -
  have k: "ok d" "keeps (rows d) acked waiting" using run_keeps [OF assms(1-3)] assms(4) by simp_all
  then show ?thesis using all_is [OF k] world_is [OF k] by (auto simp: keeps_def)
qed

end

section \<open>A table\<close>

definition outbox_rows :: "(uuid \<times> queued_change option) list outbox_ops" where
  "outbox_rows = \<lparr>ob_entries = Inr, ob_put = (\<lambda>k c d. (Inr (), bt_insert k (Some c) d)),
     ob_delete = (\<lambda>k d. (Inr (), bt_remove k d))\<rparr>"

interpretation row_table: outbox_table outbox_rows map_of bt_ok
  by unfold_locales
    (auto simp: outbox_rows_def map_of_bt_insert map_of_bt_remove btree.ok_ins btree.ok_del intro: btree.keys_distinct)

lemma row_outbox_table: "outbox_table outbox_rows map_of bt_ok" ..

text \<open>C18: Work that was acknowledged is not lost, whatever calls of the browser's table fail and however often the
  server answers. From a table that holds no change, every change whose append answered stays stored until an
  outcome names it after that. Whenever the outbox can be read it shows exactly what is stored, and replay for
  a world gives exactly what is stored of that world, each in the order the changes were acknowledged. (An outcome
  that refuses a change names it too, and the change is then let go. Ids are never used twice, and there are
  fewer changes than numbers of 64 bits.)\<close>

theorem acknowledged_work_survives:
  assumes "outbox_table db rows ok" and "ok d0" and "\<forall>k c. rows d0 k \<noteq> Some (Some c)"
    and "outbox_run db d0 acked waiting d" and "length acked \<le> 2 ^ 64"
  shows "(\<forall>c \<in> set waiting. stored (rows d) c) \<and>
    (\<forall>queued. outbox_all db d = Inr queued \<longrightarrow> queued = filter (stored (rows d)) acked) \<and>
    (\<forall>w l. outbox_for_world db w d = Inr l \<longrightarrow> l = filter (\<lambda>c. qc_world c = w \<and> stored (rows d) c) acked)"
  by (rule outbox_table.run_survives [OF assms(1) assms(4) assms(2,3,5)])

definition move_right :: queued_change where
  "move_right = \<lparr>qc_local = 7, qc_world = 1, qc_command = [], qc_seq = 0, qc_role_hint = CPlayer\<rparr>"

definition move_up :: queued_change where
  "move_up = \<lparr>qc_local = 3, qc_world = 1, qc_command = [], qc_seq = 1, qc_role_hint = CPlayer\<rparr>"

definition lit_lamp :: queued_change where
  "lit_lamp = \<lparr>qc_local = 5, qc_world = 1, qc_command = [], qc_seq = 2, qc_role_hint = CPlayer\<rparr>"

lemma outbox_session:
  "outbox_run outbox_rows [] [move_right, move_up, lit_lamp] [move_up, lit_lamp]
     [(3, Some move_up), (5, Some lit_lamp)]"
proof -
  have "append_change outbox_rows 1 7 [] CPlayer [] = (Inr move_right, [(7, Some move_right)])" by code_simp
  from outbox_run.Acknowledged [OF outbox_run.Opened _ this]
  have one: "outbox_run outbox_rows [] [move_right] [move_right] [(7, Some move_right)]" by simp
  have "append_change outbox_rows 1 3 [] CPlayer [(7, Some move_right)] =
      (Inr move_up, [(3, Some move_up), (7, Some move_right)])" by code_simp
  from outbox_run.Acknowledged [OF one _ this]
  have two: "outbox_run outbox_rows [] [move_right, move_up] [move_right, move_up]
      [(3, Some move_up), (7, Some move_right)]" by (simp add: move_right_def)
  have "append_change outbox_rows 1 5 [] CPlayer [(3, Some move_up), (7, Some move_right)] =
      (Inr lit_lamp, [(3, Some move_up), (5, Some lit_lamp), (7, Some move_right)])" by code_simp
  from outbox_run.Acknowledged [OF two _ this]
  have three: "outbox_run outbox_rows [] [move_right, move_up, lit_lamp] [move_right, move_up, lit_lamp]
      [(3, Some move_up), (5, Some lit_lamp), (7, Some move_right)]" by (simp add: move_right_def move_up_def)
  have "forget_resolved outbox_rows [\<lparr>ro_local = 7, ro_applied = True, ro_reason = None\<rparr>]
      [(3, Some move_up), (5, Some lit_lamp), (7, Some move_right)] =
      (Inr [move_up, lit_lamp], [(3, Some move_up), (5, Some lit_lamp)])" by code_simp
  from outbox_run.Answered [OF three this] show ?thesis by (simp add: move_right_def move_up_def lit_lamp_def)
qed

lemma acknowledged_work_survives_witness:
  "stored (map_of [(3, Some move_up), (5, Some lit_lamp)]) move_up \<and>
   outbox_for_world outbox_rows 1 [(3, Some move_up), (5, Some lit_lamp)] = Inr [move_up, lit_lamp]"
proof -
  have none: "\<forall>k c. map_of ([] :: (uuid \<times> queued_change option) list) k \<noteq> Some (Some c)" by simp
  have "length [move_right, move_up, lit_lamp] \<le> 2 ^ 64" by simp
  note survives = acknowledged_work_survives [OF row_outbox_table bt_ok_empty none outbox_session this]
  obtain l where l: "outbox_for_world outbox_rows 1 [(3, Some move_up), (5, Some lit_lamp)] = Inr l"
    by (simp add: outbox_for_world_def outbox_all_def outbox_rows_def)
  then have "l = filter (\<lambda>c. qc_world c = 1 \<and> stored (map_of [(3, Some move_up), (5, Some lit_lamp)]) c) [move_right, move_up, lit_lamp]"
    using survives by blast
  then have "l = [move_up, lit_lamp]" by (simp add: stored_def move_right_def move_up_def lit_lamp_def)
  moreover have "\<forall>c \<in> set [move_up, lit_lamp]. stored (map_of [(3, Some move_up), (5, Some lit_lamp)]) c"
    by (rule conjunct1 [OF survives])
  ultimately show ?thesis using l by simp
qed

end
