(* ===== verification/Spec2Isabelle.thy ===== *)
theory Spec2Isabelle
  imports Dice_Meaning Dice_Replay Dice_Breakdown Authz Presence Combat_Tracker Moderation_Hides Cache_Settle Cache_Outbox
begin

text \<open>
  Verification of the rules core of ThunderForge VTT, a virtual tabletop: the Rust crates under
  src/crates that hold its rules and no input or output, and two programmes of its server: the
  initiative tracker, which composes those rules, and the moderation of takedown notices.

  \<^bold>\<open>The program.\<close> A player types a dice formula; \<open>thunderforge-dice\<close> parses it, refuses what could not
  end, rolls it, records every die, and shows where the total came from. \<open>thunderforge-combat\<close> decides
  an attack with two such rolls, orders the fight, counts what a turn has spent and what damage does.
  The server's \<open>graphql/mutations_combat.rs\<close> keeps the fight in its database and asks those rules at
  each request. \<open>thunderforge-authz\<close> says what a role may do, \<open>thunderforge-presence\<close> who is at the table,
  and \<open>thunderforge-cache-core\<close> how a browser's copy of a world is brought up to date, kept within its
  budget, and reconciled after working offline; \<open>thunderforge-opfs\<close> and \<open>thunderforge-cache-browser\<close> keep
  that copy in files and an index of rows, and carry the plans out; the engine's \<open>cached_assets\<close> opens a world with
  them and fetches what is missing. The server's \<open>moderation\<close> records takedown notices, hides what they
  name and every copy of it, counts the strikes of accounts, and deletes an account at the last rung
  unless an appeal or the passing of time prevents it.

  \<^bold>\<open>Shared theories.\<close>
    \<^item> \<open>TF_Prelude\<close>: Unicode strings as lists of code points (\<open>U\<close> reads a literal), the integer ranges and
      wrapping of \<open>u32\<close>, \<open>i32\<close>, \<open>i64\<close>, \<open>usize\<close>, and the lemmas and bundles the components share.
    \<^item> \<open>Ieee\<close>: \<open>f64\<close> and \<open>f32\<close> as exact rationals rounded to nearest even, with the two zeros, the infinities
      and NaN: arithmetic, comparison, casts that saturate, decimal reading.
    \<^item> \<open>Btree\<close>: \<open>BTreeMap\<close> as a sorted association list behind a locale of ordered tables.

  \<^bold>\<open>Dice\<close> (crates/thunderforge-dice/src).
    \<^item> \<open>Dice_Ast\<close>: ast.rs, error.rs and the data of result.rs, constructor for constructor.
    \<^item> \<open>Dice_Parser\<close>, \<open>Dice_Grammar\<close>: parser.rs, one function per method. The recursive descent is given fuel
      proportional to the number of tokens; \<open>parse_terminates\<close> shows that this is always enough and
      that more changes nothing, so the fuel is not part of any answer.
    \<^item> \<open>Dice_Print\<close>: rewrite.rs, the printer, the edits of dice terms and the walk that applies them.
      What is printed parses back to the same tree, and a rewritten formula to the edited one.
    \<^item> \<open>Dice_Eval\<close>: eval.rs, with the generator as an arbitrary state of 32-bit draws, the budgets of dice,
      and the checks that refuse explosions that cannot stop. A successful resolve has recorded exactly the
      dice it drew, each within its die.
    \<^item> \<open>Dice_Meaning\<close>: that printing in canonical order does not change what a formula rolls.
    \<^item> \<open>Dice_Replay\<close>: replay.rs, whose recorded rolls give the same result again.
    \<^item> \<open>Dice_Breakdown\<close>: breakdown.rs, whose parts add up to the total shown.

  \<^bold>\<open>Combat\<close> (crates/thunderforge-combat/src and the server).
    \<^item> \<open>Combat_Order\<close>: order.rs and turn.rs. The order is a comparator of the library's sorting theory.
    \<^item> \<open>Combat_Dice\<close>: the seeded and the scripted generators of dice.rs.
    \<^item> \<open>Combat_Attack\<close>: attack.rs, and the part of wasm.rs that composes it.
    \<^item> \<open>Combat_Budget\<close>: what a turn has spent (budget.rs up to the flags) and how far an attack reaches
      (reach.rs up to measuring the scene).
    \<^item> \<open>Combat_Hp\<close>: hit_points.rs, and the standing the server keeps with it. A combatant's history, \<open>in_fight\<close>,
      includes hit points written behind its row, which the row does not follow.
    \<^item> \<open>Combat_Tracker\<close>: the server's tables of combats, combatants and budgets as lists of rows; each handler
      of graphql/mutations_combat.rs, of mutations_combat_lair.rs and of the auto-apply setting as a function from a request and the tables to an answer and the
      tables, its statements in their order and kept when a later one refuses, since the code has no
      transaction there; the rows' budgets (combat/budget.rs, combat/legendary.rs) and standing
      (combat/hit_points.rs); what deleting an actor, a world or a scene does to
      them through the foreign keys. Reachable tables are the inductive \<open>served\<close>; \<open>tracker_stays_sound\<close> is their
      invariant. \<open>fight_goes_round\<close> carries the ring walk of \<open>Combat_Order\<close> through the handler and its tables.

  \<^bold>\<open>Who and where.\<close>
    \<^item> \<open>Authz\<close>: roles and powers, as a ladder of authority.
    \<^item> \<open>Presence\<close>: the registry of who was heard from, refined from the history of beats.

  \<^bold>\<open>Cache\<close> (crates/thunderforge-cache-core/src).
    \<^item> \<open>Cache_Items\<close>: item ids, fingerprints, the manifest, and the canonical bytes of a scene.
    \<^item> \<open>Cache_Sync\<close>: the plan that brings a client up to date (delta.rs), conflicts (conflict.rs) and the
      rules of the outbox of changes made offline (queue.rs).
    \<^item> \<open>Cache_Budget\<close>: eviction of whole worlds and speculative room (budget.rs).

  \<^bold>\<open>The browser's cache\<close> (crates/thunderforge-opfs/src and crates/thunderforge-cache-browser/src).
    \<^item> \<open>Cache_Store\<close>: paths.rs, store.rs, memory.rs and quota.rs. The trait \<open>BlobStore\<close> is a record of
      operations, what it promises the locale \<open>blob_store\<close>, discharged for the store in memory.
    \<^item> \<open>Cache_Client\<close>: index.rs, with the locale \<open>cache_index\<close> of what an index promises, and the functions of
      opfs.rs and sync.rs that act on both: writing, reading, applying a plan, discarding and repairing a
      world, keeping to the budget. Each call may fail, and each function goes on as the code does.
    \<^item> \<open>Cache_Holds\<close>: the locale \<open>browser_cache\<close> that joins the two contracts, and what holds over any of
      its instances, one of them the store in memory with the index of the code. \<open>cache_run\<close> is what one tab
      may do, every call included however it ends, with the contents it deleted under a row.
    \<^item> \<open>Cache_Settle\<close>: opening a world (run_sync, prefetch and fetch_one of the engine's cached_assets/wasm_sync.rs
      and prefetch.rs): manifest, plan, eviction, repair, budget and fetching composed, and where that leaves each item.
      The prefetching loop ends with the list of moments it is given.
    \<^item> \<open>Cache_Outbox\<close>: outbox.rs over the locale \<open>outbox_table\<close> of what the browser's table promises; a run of appends
      and answers, from which no acknowledged change is lost.

  \<^bold>\<open>Moderation\<close> (crates/thunderforge-server/src/moderation and graphql/mutations_moderation.rs).
    \<^item> \<open>Moderation_Cases\<close>: mod.rs, validation.rs and reach.rs. The tables are lists of rows in one record,
      \<open>office\<close>, with the clock and the supply of fresh ids; a row is dated by the clock when its
      transaction began, and \<open>commit\<close> moves the clock on. \<open>copies_of\<close> walks the graph of adoptions.
    \<^item> \<open>Moderation_Standing\<close>: standing.rs: strikes, the ladder, the windows of \<open>account_terminations\<close>, appeals,
      the sweep and the deletion it ends in.
    \<^item> \<open>Moderation_Notices\<close>: the requests, each as a function of the tables, and the reachable tables, the
      inductive \<open>moderated\<close>.
    \<^item> \<open>Moderation_Windows\<close>: the invariant of the windows, and whom a sweep deletes.
    \<^item> \<open>Moderation_Counts\<close>: which copies a takedown reaches and which strikes count, without the loops, what
      an upheld appeal takes off, and three examples where the counts go wrong: two administrators who
      are both deleted, a window for an account that is gone, one case that is two strikes.
    \<^item> \<open>Moderation_Hides\<close>: a complete notice hides the thing and all its copies; an incomplete one makes
      the thing visible again.

  \<^bold>\<open>Parameters.\<close> What is not under src, or is reached only by input or output, is an argument: the random
  generator, the SHA-256 hash, the session key, the files, the index and the outbox table of a browser, what its network gives, UUID text, the JSON value type, the clock, fresh ids, and what a request
  asks the rest of the server (who runs a world, whether play is paused, which names are readable,
  how many legendary actions a creature has). The laws a theorem needs of one are its hypotheses.

  \<^bold>\<open>Bounds.\<close> Integers are those of the release build, which wraps; a theorem that needs no wrap says so.
  The database refuses an integer out of its column instead, and \<open>spend_row\<close> does as it does.

  \<^bold>\<open>Not modelled.\<close> Two requests running at once (the tracker's handlers read, decide and write outside a
  transaction, and moderation's notices and their fan-out are separate transactions, so an interleaving
  can lose an update or show content between two rows); locks and async tasks; the engine, the
  canvas and its grids, with the moves and distances the combat crate measures on them; the server's
  other handlers and its authentication; the browser's own storage and encryption, peers, the JSON of
  requests, plans and queued changes, and another tab acting between two calls of one function of the cache;
  the adoption rows that go when a world they lead into is deleted, which cuts the walk over copies short; the packs of game systems; PDF and
  telemetry. They are listed, each with its reason, among the components of the manifest.
\<close>

end
